(* ===== verification/Prelude.thy ===== *)
theory Prelude
  imports Main "HOL-Library.Word"
begin

text \<open>
  Shared vocabulary of the development.

  \<^item> Rust's fixed-width unsigned integers are words of the same width.  Their
    \<open>checked_*\<close> and \<open>saturating_*\<close> methods are the definitions below; the plain
    operators \<open>+\<close>, \<open>-\<close>, \<open>*\<close> are the word operations, which wrap as they do
    in the release profile of the node (it does not enable overflow checks).
  \<^item> \<open>Result<T, E>\<close> is the sum \<open>'e + 'a\<close> with the error on the left.  A method on
    \<open>&mut self\<close> returns the result together with the state it leaves behind, on the
    error paths too, so that a partial update before an early return is visible.
  \<^item> A \<open>HashMap\<close> is a map \<open>'k \<rightharpoonup> 'v\<close>, finite by the invariants that need it; a
    \<open>HashSet\<close> is a set.
  \<^item> \<open>ledger\<close> is the interface of every component that stores balances next to a
    recorded total, and \<open>op_system\<close> the interface of every component whose operations
    keep an invariant.
\<close>

section \<open>Integers\<close>

type_synonym u8 = "8 word"
type_synonym u16 = "16 word"
type_synonym u32 = "32 word"
type_synonym u64 = "64 word"
type_synonym u128 = "128 word"

type_synonym bytes = "u8 list"
type_synonym address = "u8 list"
type_synonym hash = "u8 list"

text \<open>Sample addresses and hashes: thirty-two equal bytes.\<close>

definition addr :: "u8 \<Rightarrow> address" where
  "addr b = replicate 32 b"

definition checked_add :: "'w::len word \<Rightarrow> 'w word \<Rightarrow> 'w word option" where
  "checked_add a b = (if unat a + unat b < 2 ^ LENGTH('w) then Some (a + b) else None)"

definition checked_sub :: "'w::len word \<Rightarrow> 'w word \<Rightarrow> 'w word option" where
  "checked_sub a b = (if b \<le> a then Some (a - b) else None)"

definition checked_mul :: "'w::len word \<Rightarrow> 'w word \<Rightarrow> 'w word option" where
  "checked_mul a b = (if unat a * unat b < 2 ^ LENGTH('w) then Some (a * b) else None)"

definition checked_div :: "'w::len word \<Rightarrow> 'w word \<Rightarrow> 'w word option" where
  "checked_div a b = (if b = 0 then None else Some (a div b))"

definition max_value :: "'w::len word" where
  "max_value = - 1"

definition saturating_add :: "'w::len word \<Rightarrow> 'w word \<Rightarrow> 'w word" where
  "saturating_add a b = (if unat a + unat b < 2 ^ LENGTH('w) then a + b else max_value)"

definition saturating_sub :: "'w::len word \<Rightarrow> 'w word \<Rightarrow> 'w word" where
  "saturating_sub a b = (if b \<le> a then a - b else 0)"

text \<open>Decimal rendering of an unsigned integer, as \<open>format!("{}", n)\<close> does it.\<close>

fun decimal :: "nat \<Rightarrow> string" where
  "decimal n = (if n < 10 then [char_of (48 + n)] else decimal (n div 10) @ [char_of (48 + n mod 10)])"

declare decimal.simps [simp del]

text \<open>A byte array as \<open>format!("{:?}", a)\<close> renders it.\<close>

fun join_comma :: "string list \<Rightarrow> string" where
  "join_comma [] = []"
| "join_comma [s] = s"
| "join_comma (s # t # ts) = s @ '', '' @ join_comma (t # ts)"

definition debug_bytes :: "bytes \<Rightarrow> string" where
  "debug_bytes a = ''['' @ join_comma (map (\<lambda>b. decimal (unat b)) a) @ '']''"

text \<open>The order in which a hash map or hash set is iterated is a parameter: some enumeration
  of the elements without repetition.\<close>

definition hash_iter :: "('a set \<Rightarrow> 'a list) \<Rightarrow> bool" where
  "hash_iter iter \<longleftrightarrow> (\<forall>S. finite S \<longrightarrow> set (iter S) = S \<and> distinct (iter S))"

section \<open>Results and early returns\<close>

definition unwrap_or :: "'a option \<Rightarrow> 'a \<Rightarrow> 'a" where
  "unwrap_or x d = (case x of None \<Rightarrow> d | Some v \<Rightarrow> v)"

definition ok_or :: "'a option \<Rightarrow> 'e \<Rightarrow> 'e + 'a" where
  "ok_or x e = (case x of None \<Rightarrow> Inl e | Some v \<Rightarrow> Inr v)"

text \<open>\<open>or_return r s k\<close> is the operator \<open>r?\<close> evaluated in state \<open>s\<close>: the error is
  returned with the state reached so far, a value is handed to the rest of the method.\<close>

definition or_return :: "'e + 'a \<Rightarrow> 's \<Rightarrow> ('a \<Rightarrow> ('e + 'b) \<times> 's) \<Rightarrow> ('e + 'b) \<times> 's" where
  "or_return r s k = (case r of Inl e \<Rightarrow> (Inl e, s) | Inr a \<Rightarrow> k a)"

text \<open>The same for a function without state.\<close>

definition and_then :: "'e + 'a \<Rightarrow> ('a \<Rightarrow> 'e + 'b) \<Rightarrow> 'e + 'b" where
  "and_then r k = (case r of Inl e \<Rightarrow> Inl e | Inr a \<Rightarrow> k a)"

definition map_err :: "('e \<Rightarrow> 'f) \<Rightarrow> 'e + 'a \<Rightarrow> 'f + 'a" where
  "map_err f r = (case r of Inl e \<Rightarrow> Inl (f e) | Inr a \<Rightarrow> Inr a)"

definition is_ok :: "('e + 'a) \<times> 's \<Rightarrow> bool" where
  "is_ok r = (case fst r of Inl _ \<Rightarrow> False | Inr _ \<Rightarrow> True)"

text \<open>A call that either succeeds or leaves the state as it was.\<close>

definition atomic_at :: "'s \<Rightarrow> ('e + 'a) \<times> 's \<Rightarrow> bool" where
  "atomic_at s r \<longleftrightarrow> is_ok r \<or> snd r = s"

section \<open>Sums over the values of a map\<close>

definition val_sum :: "('k \<Rightarrow> 'w::len word option) \<Rightarrow> nat" where
  "val_sum m = (\<Sum>k\<in>dom m. unat (the (m k)))"

text \<open>The abstract move of \<open>n\<close> units from \<open>a\<close> to \<open>b\<close>, debit first: moving to
  oneself changes nothing.\<close>

definition ledger_move :: "'a \<Rightarrow> 'a \<Rightarrow> nat \<Rightarrow> ('a \<Rightarrow> nat) \<Rightarrow> 'a \<Rightarrow> nat" where
  "ledger_move a b n f = (let g = f(a := f a - n) in g(b := g b + n))"

section \<open>Lemmas on integers\<close>

lemma addr_eq_iff [simp]: "addr a = addr b \<longleftrightarrow> a = b"
  by (simp add: addr_def)

named_theorems rust_simps \<open>unfolding of the result plumbing and of checked arithmetic\<close>

lemma checked_add_eq_Some [rust_simps]:
  "checked_add a b = Some c \<longleftrightarrow> unat a + unat b < 2 ^ LENGTH('w) \<and> c = a + b"
  for a b c :: "'w::len word"
  by (auto simp: checked_add_def)

lemma checked_add_eq_None [rust_simps]:
  "checked_add a b = None \<longleftrightarrow> 2 ^ LENGTH('w) \<le> unat a + unat b"
  for a b :: "'w::len word"
  by (auto simp: checked_add_def)

lemma unat_add_no_overflow:
  "unat a + unat b < 2 ^ LENGTH('w) \<Longrightarrow> unat (a + b) = unat a + unat b"
  for a b :: "'w::len word"
  by (simp add: unat_word_ariths)

lemma unat_less_exp: "unat (a :: 'w::len word) < 2 ^ LENGTH('w)"
  by (rule unsigned_less)

lemma unat_ucast_widen:
  assumes "LENGTH('a) \<le> LENGTH('b)"
  shows "unat (ucast (a :: 'a::len word) :: 'b::len word) = unat a"
proof -
  have "unat a < 2 ^ LENGTH('b)"
    by (rule less_le_trans [OF unat_less_exp power_increasing [OF assms]]) simp
  then show ?thesis by (simp add: unsigned_ucast_eq take_bit_nat_eq_self)
qed

lemma unat_u64_less: "unat (a :: u64) < 2 ^ 64"
  using unsigned_less [of a] by simp

lemma checked_sub_eq_Some [rust_simps]: "checked_sub a b = Some c \<longleftrightarrow> b \<le> a \<and> c = a - b"
  by (auto simp: checked_sub_def)

lemma checked_sub_eq_None [rust_simps]: "checked_sub a b = None \<longleftrightarrow> a < b"
  by (auto simp: checked_sub_def)

lemma unat_sub_no_underflow: "b \<le> a \<Longrightarrow> unat (a - b) = unat a - unat b"
  for a b :: "'w::len word"
  by (simp add: unat_sub)

lemma unat_saturating_sub: "unat (saturating_sub a b) = unat a - unat b"
  for a b :: "'w::len word"
  by (auto simp: saturating_sub_def unat_sub word_le_nat_alt)

lemma unat_max_value: "unat (max_value :: 'w::len word) = 2 ^ LENGTH('w) - 1"
  by (simp add: max_value_def unsigned_minus_1_eq_mask mask_eq_exp_minus_1)

lemma max_value_gt_0: "0 < (max_value :: 'w::len word)"
  by (simp add: max_value_def word_gt_0)

lemma unat_saturating_add:
  "unat (saturating_add a b) = min (unat a + unat b) (2 ^ LENGTH('w) - 1)"
  for a b :: "'w::len word"
  by (auto simp: saturating_add_def unat_max_value unat_add_no_overflow)

section \<open>Lemmas on results\<close>

lemma or_return_Inl [simp]: "or_return (Inl e) s k = (Inl e, s)"
  by (simp add: or_return_def)

lemma or_return_Inr [simp]: "or_return (Inr a) s k = k a"
  by (simp add: or_return_def)

lemma and_then_simps [simp]: "and_then (Inl e) k = Inl e" "and_then (Inr a) k = k a"
  by (simp_all add: and_then_def)

lemma map_err_simps [simp]: "map_err f (Inl e) = Inl (f e)" "map_err f (Inr a) = Inr a"
  by (simp_all add: map_err_def)

lemma and_then_eq_Inr: "and_then r k = Inr b \<longleftrightarrow> (\<exists>a. r = Inr a \<and> k a = Inr b)"
  by (cases r) simp_all

lemma map_err_eq_Inr [simp]: "map_err f r = Inr a \<longleftrightarrow> r = Inr a"
  by (cases r) simp_all

lemma ok_or_simps [simp]: "ok_or None e = Inl e" "ok_or (Some v) e = Inr v"
  by (simp_all add: ok_or_def)

lemma unwrap_or_simps [simp]: "unwrap_or None d = d" "unwrap_or (Some v) d = v"
  by (simp_all add: unwrap_or_def)

lemma is_ok_simps [simp]: "is_ok (Inl e, s) = False" "is_ok (Inr a, s) = True"
  by (simp_all add: is_ok_def)

lemma or_return_split:
  "P (or_return r s k) \<longleftrightarrow> (\<forall>e. r = Inl e \<longrightarrow> P (Inl e, s)) \<and> (\<forall>a. r = Inr a \<longrightarrow> P (k a))"
  by (cases r) auto

lemma or_return_split_asm:
  "P (or_return r s k) \<longleftrightarrow> \<not> ((\<exists>e. r = Inl e \<and> \<not> P (Inl e, s)) \<or> (\<exists>a. r = Inr a \<and> \<not> P (k a)))"
  by (cases r) auto

lemmas or_return_splits = or_return_split or_return_split_asm

lemma atomic_at_simps [simp]: "atomic_at s (Inl e, s)" "atomic_at s (Inr a, s')"
  by (simp_all add: atomic_at_def)

lemma atomic_at_or_return [intro]:
  "(\<And>a. r = Inr a \<Longrightarrow> atomic_at s (k a)) \<Longrightarrow> atomic_at s (or_return r s k)"
  by (cases r) simp_all

lemma atomic_atD: "atomic_at s r \<Longrightarrow> \<not> is_ok r \<Longrightarrow> snd r = s"
  by (simp add: atomic_at_def)

lemma or_return_keep:
  "f s = y \<Longrightarrow> (\<And>a. r = Inr a \<Longrightarrow> f (snd (k a)) = y) \<Longrightarrow> f (snd (or_return r s k)) = y"
  by (cases r) simp_all

lemma ok_or_eq_Inl [rust_simps]: "ok_or x e = Inl e' \<longleftrightarrow> x = None \<and> e' = e"
  by (cases x) auto

lemma ok_or_eq_Inr [rust_simps]: "ok_or x e = Inr v \<longleftrightarrow> x = Some v"
  by (cases x) auto

text \<open>Evaluation of the plumbing on conditionals: a guarded early return becomes a branch.\<close>

named_theorems rust_eval \<open>turns early returns into conditionals\<close>

lemma or_return_if [rust_eval]:
  "or_return (if b then x else y) s k = (if b then or_return x s k else or_return y s k)"
  by simp

lemma ok_or_checked [rust_eval]:
  "ok_or (checked_add a b) e = (if 2 ^ LENGTH('w) \<le> unat a + unat b then Inl e else Inr (a + b))"
  "ok_or (checked_sub a b) e = (if a < b then Inl e else Inr (a - b))"
  "ok_or (map_option f (checked_sub a b)) e = (if a < b then Inl e else Inr (f (a - b)))"
  for a b :: "'w::len word"
  by (auto simp: checked_add_def checked_sub_def)

section \<open>Lemmas on map sums\<close>

lemma val_sum_empty [simp]: "val_sum Map.empty = 0"
  by (simp add: val_sum_def)

lemma val_sum_del:
  assumes "finite (dom m)"
  shows "val_sum (m(k := None)) + unat (unwrap_or (m k) 0) = val_sum m"
proof (cases "m k")
  case None
  then have "m(k := None) = m" by auto
  with None show ?thesis by simp
next
  case (Some v)
  then have "k \<in> dom m" by auto
  have "val_sum (m(k := None)) = (\<Sum>j\<in>dom m - {k}. unat (the (m j)))"
    unfolding val_sum_def by (rule sum.cong) auto
  moreover have "val_sum m = unat (the (m k)) + (\<Sum>j\<in>dom m - {k}. unat (the (m j)))"
    unfolding val_sum_def by (rule sum.remove [OF assms \<open>k \<in> dom m\<close>])
  ultimately show ?thesis using Some by simp
qed

lemma val_sum_upd:
  assumes "finite (dom m)"
  shows "val_sum (m(k \<mapsto> v)) + unat (unwrap_or (m k) 0) = val_sum m + unat v"
proof -
  have "finite (dom (m(k \<mapsto> v)))" using assms by simp
  from val_sum_del [OF this, of k] have "val_sum (m(k := None)) + unat v = val_sum (m(k \<mapsto> v))"
    by simp
  with val_sum_del [OF assms, of k] show ?thesis by simp
qed

lemma le_val_sum:
  assumes "finite (dom m)"
  shows "unat (unwrap_or (m k) 0) \<le> val_sum m"
  using val_sum_del [OF assms, of k] by linarith

section \<open>Interfaces\<close>

text \<open>A store of balances with a recorded total: the total is the sum of the balances.\<close>

locale ledger =
  fixes bal :: "'s \<Rightarrow> 'a \<Rightarrow> nat"
    and holders :: "'s \<Rightarrow> 'a set"
    and total :: "'s \<Rightarrow> nat"
    and invar :: "'s \<Rightarrow> bool"
  assumes finite_holders: "invar s \<Longrightarrow> finite (holders s)"
    and bal_outside: "invar s \<Longrightarrow> a \<notin> holders s \<Longrightarrow> bal s a = 0"
    and total_sum: "invar s \<Longrightarrow> total s = (\<Sum>a\<in>holders s. bal s a)"
begin

lemma sum_le_total:
  assumes inv: "invar s" and fin: "finite A"
  shows "(\<Sum>a\<in>A. bal s a) \<le> total s"
proof -
  have "(\<Sum>a\<in>A. bal s a) = (\<Sum>a\<in>A \<inter> holders s. bal s a)"
    using inv fin by (intro sum.mono_neutral_right) (auto simp: bal_outside)
  also have "\<dots> \<le> (\<Sum>a\<in>holders s. bal s a)"
    using inv by (intro sum_mono2) (auto simp: finite_holders)
  finally show ?thesis using inv by (simp add: total_sum)
qed

lemma bal_le_total: "invar s \<Longrightarrow> bal s a \<le> total s"
  using sum_le_total [of s "{a}"] by simp

lemma pair_le_total: "invar s \<Longrightarrow> a \<noteq> b \<Longrightarrow> bal s a + bal s b \<le> total s"
  using sum_le_total [of s "{a, b}"] by simp

end

text \<open>Operations that keep an invariant, for the operations that satisfy \<open>allowed\<close>.\<close>

locale op_system =
  fixes exec :: "'op \<Rightarrow> 's \<Rightarrow> 's"
    and allowed :: "'op \<Rightarrow> bool"
    and invar :: "'s \<Rightarrow> bool"
  assumes exec_invar: "invar s \<Longrightarrow> allowed x \<Longrightarrow> invar (exec x s)"
begin

lemma run_invar: "invar s \<Longrightarrow> list_all allowed xs \<Longrightarrow> invar (fold exec xs s)"
  by (induction xs arbitrary: s) (auto simp: exec_invar)

end

end
