(* ===== verification/Token_Base.thy ===== *)
theory Token_Base
  imports Prelude
begin

text \<open>
  The vocabulary of the token standards (\<open>standards/mod.rs\<close>): the error enumeration, the
  events, and the address checks that QN4, QN8 and QN12 share.
\<close>

datatype token_error =
    InsufficientBalance
  | InsufficientAllowance
  | Unauthorized
  | InvalidAddress
  | TokenNotFound
  | TokenAlreadyExists
  | Overflow
  | Underflow
  | InvalidAmount
  | NotOwner
  | NotApproved
  | ArrayLengthMismatch
  | ApprovalRaceCondition
  | BatchSizeTooLarge
  | MaxSupplyExceeded
  | ReentrancyDetected
  | MaxTokensPerOwnerReached
  | DuplicateTokenId

datatype token_event =
    Transfer address address u64
  | Approval address address u64
  | TransferNFT address address u64
  | ApprovalNFT address address u64
  | ApprovalForAll address address bool
  | TransferSingle address address address u64 u64
  | TransferBatch address address address "u64 list" "u64 list"
  | Paused address
  | Unpaused address
  | OwnershipTransferStarted address address
  | OwnershipTransferred address address

type_synonym 'a token_result = "token_error + 'a"

definition ZERO_ADDRESS :: address where
  "ZERO_ADDRESS = replicate 32 0"

definition check_not_zero_address :: "address \<Rightarrow> unit token_result" where
  "check_not_zero_address a = (if a = ZERO_ADDRESS then Inl InvalidAddress else Inr ())"

lemma addr_eq_ZERO_ADDRESS [simp]: "addr b = ZERO_ADDRESS \<longleftrightarrow> b = 0"
  by (simp add: addr_def ZERO_ADDRESS_def)

declare check_not_zero_address_def [rust_eval]

lemma check_not_zero_address_eq [rust_simps]:
  "check_not_zero_address a = Inr u \<longleftrightarrow> a \<noteq> ZERO_ADDRESS"
  "check_not_zero_address a = Inl e \<longleftrightarrow> a = ZERO_ADDRESS \<and> e = InvalidAddress"
  by (auto simp: check_not_zero_address_def)

end
