(* ===== verification/QN4.thy ===== *)
theory QN4
  imports Token_Base
begin

text \<open>
  The fungible token QN4 (\<open>standards/qn4.rs\<close>): the resource as a record, every operation
  of the traits \<open>QN4\<close>, \<open>QN4Mintable\<close>, \<open>QN4Burnable\<close>, \<open>QN4Pausable\<close> and of the
  inherent implementation, the supply invariant, and what the operations do to it.
\<close>

section \<open>State\<close>

record qn4_token =
  qn4_name :: string
  qn4_symbol :: string
  qn4_decimals :: u8
  qn4_total_supply :: u64
  qn4_owner :: address
  qn4_pending_owner :: "address option"
  qn4_balances :: "address \<rightharpoonup> u64"
  qn4_allowances :: "address \<times> address \<rightharpoonup> u64"
  qn4_mintable :: bool
  qn4_burnable :: bool
  qn4_pausable :: bool
  qn4_paused :: bool
  qn4_max_supply :: "u64 option"

section \<open>Inherent operations\<close>

definition qn4_new :: "string \<Rightarrow> string \<Rightarrow> u8 \<Rightarrow> u64 \<Rightarrow> address \<Rightarrow> qn4_token" where
  "qn4_new name symbol decimals initial_supply owner =
    \<lparr> qn4_name = name, qn4_symbol = symbol, qn4_decimals = decimals,
      qn4_total_supply = initial_supply, qn4_owner = owner, qn4_pending_owner = None,
      qn4_balances = [owner \<mapsto> initial_supply], qn4_allowances = Map.empty,
      qn4_mintable = False, qn4_burnable = False, qn4_pausable = False,
      qn4_paused = False, qn4_max_supply = None \<rparr>"

definition qn4_new_full ::
  "string \<Rightarrow> string \<Rightarrow> u8 \<Rightarrow> u64 \<Rightarrow> address \<Rightarrow> bool \<Rightarrow> bool \<Rightarrow> bool \<Rightarrow> qn4_token" where
  "qn4_new_full name symbol decimals initial_supply owner mintable burnable pausable =
    (qn4_new name symbol decimals initial_supply owner)
      \<lparr> qn4_mintable := mintable, qn4_burnable := burnable, qn4_pausable := pausable \<rparr>"

definition qn4_check_not_paused :: "qn4_token \<Rightarrow> unit token_result" where
  "qn4_check_not_paused t = (if qn4_paused t then Inl Unauthorized else Inr ())"

definition qn4_check_owner :: "address \<Rightarrow> qn4_token \<Rightarrow> unit token_result" where
  "qn4_check_owner caller t = (if caller \<noteq> qn4_owner t then Inl Unauthorized else Inr ())"

definition qn4_transfer_ownership ::
  "address \<Rightarrow> address \<Rightarrow> qn4_token \<Rightarrow> token_event token_result \<times> qn4_token" where
  "qn4_transfer_ownership caller new_owner t =
    or_return (qn4_check_owner caller t) t (\<lambda>_.
    or_return (check_not_zero_address new_owner) t (\<lambda>_.
    (Inr (OwnershipTransferStarted caller new_owner),
     t\<lparr>qn4_pending_owner := Some new_owner\<rparr>)))"

definition qn4_accept_ownership ::
  "address \<Rightarrow> qn4_token \<Rightarrow> token_event token_result \<times> qn4_token" where
  "qn4_accept_ownership caller t =
    (if qn4_pending_owner t \<noteq> Some caller then (Inl Unauthorized, t)
     else (Inr (OwnershipTransferred (qn4_owner t) caller),
           t\<lparr>qn4_owner := caller, qn4_pending_owner := None\<rparr>))"

definition qn4_set_max_supply ::
  "address \<Rightarrow> u64 \<Rightarrow> qn4_token \<Rightarrow> unit token_result \<times> qn4_token" where
  "qn4_set_max_supply caller max_supply t =
    or_return (qn4_check_owner caller t) t (\<lambda>_.
    if qn4_max_supply t \<noteq> None then (Inl Unauthorized, t)
    else if max_supply < qn4_total_supply t then (Inl InvalidAmount, t)
    else (Inr (), t\<lparr>qn4_max_supply := Some max_supply\<rparr>))"

definition qn4_balance_of :: "address \<Rightarrow> qn4_token \<Rightarrow> u64" where
  "qn4_balance_of account t = unwrap_or (qn4_balances t account) 0"

definition qn4_allowance :: "address \<Rightarrow> address \<Rightarrow> qn4_token \<Rightarrow> u64" where
  "qn4_allowance owner spender t = unwrap_or (qn4_allowances t (owner, spender)) 0"

definition qn4_increase_allowance ::
  "address \<Rightarrow> address \<Rightarrow> u64 \<Rightarrow> qn4_token \<Rightarrow> token_event token_result \<times> qn4_token" where
  "qn4_increase_allowance caller spender added_value t =
    or_return (qn4_check_not_paused t) t (\<lambda>_.
    or_return (check_not_zero_address spender) t (\<lambda>_.
    let current = qn4_allowance caller spender t in
    or_return (ok_or (checked_add current added_value) Overflow) t (\<lambda>new_allowance.
    (Inr (Approval caller spender new_allowance),
     t\<lparr>qn4_allowances := (qn4_allowances t)((caller, spender) \<mapsto> new_allowance)\<rparr>))))"

definition qn4_decrease_allowance ::
  "address \<Rightarrow> address \<Rightarrow> u64 \<Rightarrow> qn4_token \<Rightarrow> token_event token_result \<times> qn4_token" where
  "qn4_decrease_allowance caller spender subtracted_value t =
    or_return (qn4_check_not_paused t) t (\<lambda>_.
    or_return (check_not_zero_address spender) t (\<lambda>_.
    let current = qn4_allowance caller spender t in
    or_return (ok_or (checked_sub current subtracted_value) Underflow) t (\<lambda>new_allowance.
    (Inr (Approval caller spender new_allowance),
     t\<lparr>qn4_allowances := (qn4_allowances t)((caller, spender) \<mapsto> new_allowance)\<rparr>))))"

definition qn4_cleanup_zero_balance :: "address \<Rightarrow> qn4_token \<Rightarrow> qn4_token" where
  "qn4_cleanup_zero_balance a t =
    (case qn4_balances t a of
       Some balance \<Rightarrow>
         if balance = 0 then t\<lparr>qn4_balances := (qn4_balances t)(a := None)\<rparr> else t
     | None \<Rightarrow> t)"

section \<open>Transfers and approvals\<close>

definition qn4_transfer ::
  "address \<Rightarrow> address \<Rightarrow> u64 \<Rightarrow> qn4_token \<Rightarrow> token_event token_result \<times> qn4_token" where
  "qn4_transfer caller to amount t =
    or_return (qn4_check_not_paused t) t (\<lambda>_.
    or_return (check_not_zero_address to) t (\<lambda>_.
    if amount = 0 then (Inl InvalidAmount, t) else
    let from_balance = unwrap_or (qn4_balances t caller) 0 in
    if from_balance < amount then (Inl InsufficientBalance, t) else
    let to_balance = unwrap_or (qn4_balances t to) 0 in
    or_return (ok_or (checked_sub from_balance amount) Underflow) t (\<lambda>new_from.
    or_return (ok_or (checked_add to_balance amount) Overflow) t (\<lambda>new_to.
    let t = t\<lparr>qn4_balances := (qn4_balances t)(caller \<mapsto> new_from)\<rparr>;
        t = t\<lparr>qn4_balances := (qn4_balances t)(to \<mapsto> new_to)\<rparr>;
        t = qn4_cleanup_zero_balance caller t
    in (Inr (Transfer caller to amount), t)))))"

definition qn4_approve ::
  "address \<Rightarrow> address \<Rightarrow> u64 \<Rightarrow> qn4_token \<Rightarrow> token_event token_result \<times> qn4_token" where
  "qn4_approve caller spender amount t =
    or_return (qn4_check_not_paused t) t (\<lambda>_.
    or_return (check_not_zero_address spender) t (\<lambda>_.
    let current_allowance = qn4_allowance caller spender t in
    if current_allowance \<noteq> 0 \<and> amount \<noteq> 0 then (Inl ApprovalRaceCondition, t)
    else (Inr (Approval caller spender amount),
          t\<lparr>qn4_allowances := (qn4_allowances t)((caller, spender) \<mapsto> amount)\<rparr>)))"

definition qn4_transfer_from ::
  "address \<Rightarrow> address \<Rightarrow> address \<Rightarrow> u64 \<Rightarrow> qn4_token \<Rightarrow> token_event token_result \<times> qn4_token" where
  "qn4_transfer_from caller from to amount t =
    or_return (qn4_check_not_paused t) t (\<lambda>_.
    or_return (check_not_zero_address to) t (\<lambda>_.
    if amount = 0 then (Inl InvalidAmount, t) else
    let current_allowance = qn4_allowance from caller t in
    if current_allowance < amount then (Inl InsufficientAllowance, t) else
    let from_balance = qn4_balance_of from t in
    if from_balance < amount then (Inl InsufficientBalance, t) else
    or_return
      (if current_allowance \<noteq> max_value
       then ok_or (map_option (\<lambda>new_allowance.
              t\<lparr>qn4_allowances := (qn4_allowances t)((from, caller) \<mapsto> new_allowance)\<rparr>)
              (checked_sub current_allowance amount)) Underflow
       else Inr t) t (\<lambda>t.
    let to_balance = unwrap_or (qn4_balances t to) 0 in
    or_return (ok_or (checked_sub from_balance amount) Underflow) t (\<lambda>new_from.
    or_return (ok_or (checked_add to_balance amount) Overflow) t (\<lambda>new_to.
    let t = t\<lparr>qn4_balances := (qn4_balances t)(from \<mapsto> new_from)\<rparr>;
        t = t\<lparr>qn4_balances := (qn4_balances t)(to \<mapsto> new_to)\<rparr>;
        t = qn4_cleanup_zero_balance from t
    in (Inr (Transfer from to amount), t))))))"

section \<open>Mint, burn, pause\<close>

definition qn4_mint ::
  "address \<Rightarrow> address \<Rightarrow> u64 \<Rightarrow> qn4_token \<Rightarrow> token_event token_result \<times> qn4_token" where
  "qn4_mint caller to amount t =
    or_return (qn4_check_not_paused t) t (\<lambda>_.
    or_return (qn4_check_owner caller t) t (\<lambda>_.
    or_return (check_not_zero_address to) t (\<lambda>_.
    if \<not> qn4_mintable t then (Inl Unauthorized, t) else
    if (case qn4_max_supply t of
          Some max_supply \<Rightarrow>
            unwrap_or (checked_add (qn4_total_supply t) amount) max_value > max_supply
        | None \<Rightarrow> False)
    then (Inl MaxSupplyExceeded, t) else
    or_return (ok_or (checked_add (qn4_total_supply t) amount) Overflow) t (\<lambda>new_supply.
    let t = t\<lparr>qn4_total_supply := new_supply\<rparr>;
        current_balance = unwrap_or (qn4_balances t to) 0 in
    or_return (ok_or (checked_add current_balance amount) Overflow) t (\<lambda>new_balance.
    (Inr (Transfer ZERO_ADDRESS to amount),
     t\<lparr>qn4_balances := (qn4_balances t)(to \<mapsto> new_balance)\<rparr>))))))"

definition qn4_burn ::
  "address \<Rightarrow> u64 \<Rightarrow> qn4_token \<Rightarrow> token_event token_result \<times> qn4_token" where
  "qn4_burn caller amount t =
    or_return (qn4_check_not_paused t) t (\<lambda>_.
    if \<not> qn4_burnable t then (Inl Unauthorized, t) else
    let caller_balance = qn4_balance_of caller t in
    if caller_balance < amount then (Inl InsufficientBalance, t) else
    or_return (ok_or (checked_sub caller_balance amount) Underflow) t (\<lambda>new_balance.
    or_return (ok_or (checked_sub (qn4_total_supply t) amount) Underflow) t (\<lambda>new_supply.
    let t = t\<lparr>qn4_total_supply := new_supply\<rparr>;
        t = t\<lparr>qn4_balances := (qn4_balances t)(caller \<mapsto> new_balance)\<rparr>;
        t = qn4_cleanup_zero_balance caller t
    in (Inr (Transfer caller ZERO_ADDRESS amount), t))))"

definition qn4_burn_from ::
  "address \<Rightarrow> address \<Rightarrow> u64 \<Rightarrow> qn4_token \<Rightarrow> token_event token_result \<times> qn4_token" where
  "qn4_burn_from caller from amount t =
    or_return (qn4_check_not_paused t) t (\<lambda>_.
    if \<not> qn4_burnable t then (Inl Unauthorized, t) else
    let current_allowance = qn4_allowance from caller t in
    if current_allowance < amount then (Inl InsufficientAllowance, t) else
    let from_balance = qn4_balance_of from t in
    if from_balance < amount then (Inl InsufficientBalance, t) else
    or_return (ok_or (checked_sub current_allowance amount) Underflow) t (\<lambda>new_allowance.
    or_return (ok_or (checked_sub from_balance amount) Underflow) t (\<lambda>new_balance.
    or_return (ok_or (checked_sub (qn4_total_supply t) amount) Underflow) t (\<lambda>new_supply.
    let t = t\<lparr>qn4_total_supply := new_supply\<rparr>;
        t = t\<lparr>qn4_allowances := (qn4_allowances t)((from, caller) \<mapsto> new_allowance)\<rparr>;
        t = t\<lparr>qn4_balances := (qn4_balances t)(from \<mapsto> new_balance)\<rparr>;
        t = qn4_cleanup_zero_balance from t
    in (Inr (Transfer from ZERO_ADDRESS amount), t)))))"

definition qn4_pause :: "address \<Rightarrow> qn4_token \<Rightarrow> unit token_result \<times> qn4_token" where
  "qn4_pause caller t =
    or_return (qn4_check_owner caller t) t (\<lambda>_.
    if \<not> qn4_pausable t then (Inl Unauthorized, t)
    else (Inr (), t\<lparr>qn4_paused := True\<rparr>))"

definition qn4_unpause :: "address \<Rightarrow> qn4_token \<Rightarrow> unit token_result \<times> qn4_token" where
  "qn4_unpause caller t =
    or_return (qn4_check_owner caller t) t (\<lambda>_.
    if \<not> qn4_pausable t then (Inl Unauthorized, t)
    else (Inr (), t\<lparr>qn4_paused := False\<rparr>))"

section \<open>Calls\<close>

datatype qn4_op =
    Qn4Transfer address address u64
  | Qn4Approve address address u64
  | Qn4TransferFrom address address address u64
  | Qn4IncreaseAllowance address address u64
  | Qn4DecreaseAllowance address address u64
  | Qn4Mint address address u64
  | Qn4Burn address u64
  | Qn4BurnFrom address address u64
  | Qn4Pause address
  | Qn4Unpause address
  | Qn4TransferOwnership address address
  | Qn4AcceptOwnership address
  | Qn4SetMaxSupply address u64

fun qn4_call :: "qn4_op \<Rightarrow> qn4_token \<Rightarrow> bool \<times> qn4_token" where
  "qn4_call (Qn4Transfer c to a) t = (let r = qn4_transfer c to a t in (is_ok r, snd r))"
| "qn4_call (Qn4Approve c sp a) t = (let r = qn4_approve c sp a t in (is_ok r, snd r))"
| "qn4_call (Qn4TransferFrom c from to a) t =
    (let r = qn4_transfer_from c from to a t in (is_ok r, snd r))"
| "qn4_call (Qn4IncreaseAllowance c sp a) t =
    (let r = qn4_increase_allowance c sp a t in (is_ok r, snd r))"
| "qn4_call (Qn4DecreaseAllowance c sp a) t =
    (let r = qn4_decrease_allowance c sp a t in (is_ok r, snd r))"
| "qn4_call (Qn4Mint c to a) t = (let r = qn4_mint c to a t in (is_ok r, snd r))"
| "qn4_call (Qn4Burn c a) t = (let r = qn4_burn c a t in (is_ok r, snd r))"
| "qn4_call (Qn4BurnFrom c from a) t = (let r = qn4_burn_from c from a t in (is_ok r, snd r))"
| "qn4_call (Qn4Pause c) t = (let r = qn4_pause c t in (is_ok r, snd r))"
| "qn4_call (Qn4Unpause c) t = (let r = qn4_unpause c t in (is_ok r, snd r))"
| "qn4_call (Qn4TransferOwnership c n) t =
    (let r = qn4_transfer_ownership c n t in (is_ok r, snd r))"
| "qn4_call (Qn4AcceptOwnership c) t = (let r = qn4_accept_ownership c t in (is_ok r, snd r))"
| "qn4_call (Qn4SetMaxSupply c m) t = (let r = qn4_set_max_supply c m t in (is_ok r, snd r))"

definition qn4_exec :: "qn4_op \<Rightarrow> qn4_token \<Rightarrow> qn4_token" where
  "qn4_exec x t = snd (qn4_call x t)"

text \<open>A move from an account to itself, which the code does not exclude.\<close>

fun qn4_self_move :: "qn4_op \<Rightarrow> bool" where
  "qn4_self_move (Qn4Transfer c to a) = (c = to)"
| "qn4_self_move (Qn4TransferFrom c from to a) = (from = to)"
| "qn4_self_move _ = False"

fun qn4_caller :: "qn4_op \<Rightarrow> address" where
  "qn4_caller (Qn4Transfer c to a) = c"
| "qn4_caller (Qn4Approve c sp a) = c"
| "qn4_caller (Qn4TransferFrom c from to a) = c"
| "qn4_caller (Qn4IncreaseAllowance c sp a) = c"
| "qn4_caller (Qn4DecreaseAllowance c sp a) = c"
| "qn4_caller (Qn4Mint c to a) = c"
| "qn4_caller (Qn4Burn c a) = c"
| "qn4_caller (Qn4BurnFrom c from a) = c"
| "qn4_caller (Qn4Pause c) = c"
| "qn4_caller (Qn4Unpause c) = c"
| "qn4_caller (Qn4TransferOwnership c n) = c"
| "qn4_caller (Qn4AcceptOwnership c) = c"
| "qn4_caller (Qn4SetMaxSupply c m) = c"

text \<open>What the spender \<open>s\<close> takes out of the account \<open>h\<close> with one call, and with a
  sequence of calls, counting the calls that succeed.\<close>

fun qn4_spent :: "address \<Rightarrow> address \<Rightarrow> qn4_op \<Rightarrow> nat" where
  "qn4_spent h s (Qn4TransferFrom c from to a) = (if c = s \<and> from = h then unat a else 0)"
| "qn4_spent h s (Qn4BurnFrom c from a) = (if c = s \<and> from = h then unat a else 0)"
| "qn4_spent h s _ = 0"

fun qn4_spent_run :: "address \<Rightarrow> address \<Rightarrow> qn4_op list \<Rightarrow> qn4_token \<Rightarrow> nat" where
  "qn4_spent_run h s [] t = 0"
| "qn4_spent_run h s (x # xs) t =
    (if fst (qn4_call x t) then qn4_spent h s x else 0) + qn4_spent_run h s xs (qn4_exec x t)"

text \<open>The calls with which \<open>h\<close> grants \<open>s\<close> an allowance.\<close>

fun qn4_grants :: "address \<Rightarrow> address \<Rightarrow> qn4_op \<Rightarrow> bool" where
  "qn4_grants h s (Qn4Approve c sp a) = (c = h \<and> sp = s)"
| "qn4_grants h s (Qn4IncreaseAllowance c sp a) = (c = h \<and> sp = s)"
| "qn4_grants h s _ = False"

section \<open>The supply invariant\<close>

definition qn4_inv :: "qn4_token \<Rightarrow> bool" where
  "qn4_inv t \<longleftrightarrow>
    finite (dom (qn4_balances t)) \<and>
    val_sum (qn4_balances t) = unat (qn4_total_supply t) \<and>
    qn4_total_supply t \<le> unwrap_or (qn4_max_supply t) max_value"


text \<open>A token of 1000 units, all of them with the deployer \<open>addr 1\<close>.\<close>

definition qn4_sample :: qn4_token where
  "qn4_sample = qn4_new_full ''Sample'' ''SMP'' 8 1000 (addr 1) True True True"

section \<open>Lemmas\<close>

declare qn4_check_not_paused_def [rust_eval] qn4_check_owner_def [rust_eval]

lemma qn4_check_not_paused_eq [rust_simps]:
  "qn4_check_not_paused t = Inr u \<longleftrightarrow> \<not> qn4_paused t"
  "qn4_check_not_paused t = Inl e \<longleftrightarrow> qn4_paused t \<and> e = Unauthorized"
  by (auto simp: qn4_check_not_paused_def)

lemma qn4_check_owner_eq [rust_simps]:
  "qn4_check_owner c t = Inr u \<longleftrightarrow> c = qn4_owner t"
  "qn4_check_owner c t = Inl e \<longleftrightarrow> c \<noteq> qn4_owner t \<and> e = Unauthorized"
  by (auto simp: qn4_check_owner_def)

lemma qn4_lookup_update [simp]:
  "qn4_allowance h s (t\<lparr>qn4_allowances := m\<rparr>) = unwrap_or (m (h, s)) 0"
  "qn4_balance_of h (t\<lparr>qn4_allowances := m\<rparr>) = qn4_balance_of h t"
  "qn4_balance_of h (t\<lparr>qn4_balances := b\<rparr>) = unwrap_or (b h) 0"
  "qn4_balance_of h (t\<lparr>qn4_total_supply := n\<rparr>) = qn4_balance_of h t"
  by (simp_all add: qn4_allowance_def qn4_balance_of_def)

lemma qn4_cleanup_frame [simp]:
  "qn4_total_supply (qn4_cleanup_zero_balance a t) = qn4_total_supply t"
  "qn4_max_supply (qn4_cleanup_zero_balance a t) = qn4_max_supply t"
  "qn4_allowances (qn4_cleanup_zero_balance a t) = qn4_allowances t"
  by (auto simp: qn4_cleanup_zero_balance_def split: option.splits)

lemma qn4_balance_of_cleanup [simp]:
  "qn4_balance_of x (qn4_cleanup_zero_balance a t) = qn4_balance_of x t"
  by (auto simp: qn4_cleanup_zero_balance_def qn4_balance_of_def split: option.splits)

lemma qn4_cleanup_finite:
  "finite (dom (qn4_balances t)) \<Longrightarrow> finite (dom (qn4_balances (qn4_cleanup_zero_balance a t)))"
  by (auto simp: qn4_cleanup_zero_balance_def split: option.splits)

lemma qn4_cleanup_sum:
  "finite (dom (qn4_balances t)) \<Longrightarrow>
   val_sum (qn4_balances (qn4_cleanup_zero_balance a t)) = val_sum (qn4_balances t)"
  using val_sum_del [of "qn4_balances t" a]
  by (auto simp: qn4_cleanup_zero_balance_def split: option.splits)

lemma qn4_inv_cleanup: "qn4_inv t \<Longrightarrow> qn4_inv (qn4_cleanup_zero_balance a t)"
  by (simp add: qn4_inv_def qn4_cleanup_finite qn4_cleanup_sum)

lemma qn4_inv_frame:
  "qn4_inv t \<Longrightarrow> qn4_balances t' = qn4_balances t \<Longrightarrow> qn4_total_supply t' = qn4_total_supply t \<Longrightarrow>
   qn4_max_supply t' = qn4_max_supply t \<Longrightarrow> qn4_inv t'"
  by (simp add: qn4_inv_def)

text \<open>The token is a ledger whose total is the recorded supply.\<close>

interpretation qn4l: ledger
  "\<lambda>t a. unat (qn4_balance_of a t)" "\<lambda>t. dom (qn4_balances t)"
  "\<lambda>t. unat (qn4_total_supply t)" qn4_inv
proof
  fix t a assume "qn4_inv t" then show "finite (dom (qn4_balances t))"
    by (simp add: qn4_inv_def)
next
  fix t a assume "qn4_inv t" "a \<notin> dom (qn4_balances t)" then show "unat (qn4_balance_of a t) = 0"
    by (simp add: qn4_balance_of_def domIff)
next
  fix t assume "qn4_inv t"
  then have "unat (qn4_total_supply t) = val_sum (qn4_balances t)" by (simp add: qn4_inv_def)
  also have "\<dots> = (\<Sum>a\<in>dom (qn4_balances t). unat (qn4_balance_of a t))"
    unfolding val_sum_def by (rule sum.cong) (auto simp: qn4_balance_of_def)
  finally show "unat (qn4_total_supply t) = (\<Sum>a\<in>dom (qn4_balances t). unat (qn4_balance_of a t))" .
qed

lemma qn4_no_overflow:
  assumes "qn4_inv t" "from \<noteq> to" "a \<le> qn4_balance_of from t"
  shows "unat (qn4_balance_of to t) + unat a < 2 ^ 64"
  using qn4l.pair_le_total [OF assms(1,2)] assms(3) unat_u64_less [of "qn4_total_supply t"]
  by (simp add: word_le_nat_alt)

definition qn4_moved :: "address \<Rightarrow> address \<Rightarrow> u64 \<Rightarrow> qn4_token \<Rightarrow> qn4_token" where
  "qn4_moved from to a t =
    qn4_cleanup_zero_balance from
      (t\<lparr>qn4_balances := (qn4_balances t)
           (from \<mapsto> qn4_balance_of from t - a, to \<mapsto> qn4_balance_of to t + a)\<rparr>)"

lemma qn4_moved_frame [simp]:
  "qn4_total_supply (qn4_moved from to a t) = qn4_total_supply t"
  "qn4_allowances (qn4_moved from to a t) = qn4_allowances t"
  by (simp_all add: qn4_moved_def)

lemma qn4_self_moved_sum:
  assumes "finite (dom (qn4_balances t))" "unat (qn4_balance_of a t) + unat v < 2 ^ 64"
  shows "val_sum (qn4_balances (qn4_moved a a v t)) = val_sum (qn4_balances t) + unat v"
  using assms val_sum_upd [of "qn4_balances t" a "qn4_balance_of a t + v"]
  by (simp add: qn4_moved_def qn4_cleanup_sum unat_add_no_overflow flip: qn4_balance_of_def)

lemma qn4_balance_of_moved:
  "qn4_balance_of x (qn4_moved from to a t) =
    (if x = to then qn4_balance_of to t + a
     else if x = from then qn4_balance_of from t - a else qn4_balance_of x t)"
  unfolding qn4_moved_def qn4_balance_of_cleanup by (simp add: qn4_balance_of_def)

lemma qn4_inv_moved:
  assumes inv: "qn4_inv t" and ne: "from \<noteq> to" and le: "a \<le> qn4_balance_of from t"
  shows "qn4_inv (qn4_moved from to a t)"
proof -
  let ?m = "qn4_balances t" and ?f = "qn4_balance_of from t" and ?g = "qn4_balance_of to t"
  have fin: "finite (dom ?m)" using inv by (simp add: qn4_inv_def)
  have f: "unwrap_or (?m from) 0 = ?f" and g: "unwrap_or ((?m(from \<mapsto> ?f - a)) to) 0 = ?g"
    using ne by (simp_all add: qn4_balance_of_def)
  have "val_sum (?m(from \<mapsto> ?f - a)) + unat ?f = val_sum ?m + unat (?f - a)"
    using val_sum_upd [OF fin, of "from" "?f - a"] f by simp
  moreover have "val_sum (?m(from \<mapsto> ?f - a, to \<mapsto> ?g + a)) + unat ?g
      = val_sum (?m(from \<mapsto> ?f - a)) + unat (?g + a)"
    using val_sum_upd [of "?m(from \<mapsto> ?f - a)" to "?g + a"] fin g by simp
  moreover have "unat (?g + a) = unat ?g + unat a"
    using unat_add_no_overflow [of ?g a] qn4_no_overflow [OF inv ne le] by simp
  moreover have "unat (?f - a) = unat ?f - unat a" "unat a \<le> unat ?f"
    using le by (simp_all add: unat_sub_no_underflow word_le_nat_alt)
  ultimately have "val_sum (?m(from \<mapsto> ?f - a, to \<mapsto> ?g + a)) = val_sum ?m" by linarith
  then show ?thesis
    using inv unfolding qn4_moved_def by (intro qn4_inv_cleanup) (simp add: qn4_inv_def)
qed

lemma qn4_transfer_alt:
  "qn4_transfer caller to a t =
    (if qn4_paused t then (Inl Unauthorized, t)
     else if to = ZERO_ADDRESS then (Inl InvalidAddress, t)
     else if a = 0 then (Inl InvalidAmount, t)
     else if qn4_balance_of caller t < a then (Inl InsufficientBalance, t)
     else if 2 ^ 64 \<le> unat (qn4_balance_of to t) + unat a then (Inl Overflow, t)
     else (Inr (Transfer caller to a), qn4_moved caller to a t))"
  by (simp add: qn4_transfer_def qn4_moved_def qn4_balance_of_def Let_def rust_eval)

definition qn4_spend :: "address \<Rightarrow> address \<Rightarrow> u64 \<Rightarrow> qn4_token \<Rightarrow> qn4_token" where
  "qn4_spend from caller a t =
    (if qn4_allowance from caller t = max_value then t
     else t\<lparr>qn4_allowances := (qn4_allowances t)((from, caller) \<mapsto> qn4_allowance from caller t - a)\<rparr>)"

lemma qn4_spend_frame [simp]:
  "qn4_balances (qn4_spend from caller a t) = qn4_balances t"
  "qn4_total_supply (qn4_spend from caller a t) = qn4_total_supply t"
  "qn4_max_supply (qn4_spend from caller a t) = qn4_max_supply t"
  "qn4_balance_of x (qn4_spend from caller a t) = qn4_balance_of x t"
  by (simp_all add: qn4_spend_def qn4_balance_of_def)

lemma qn4_transfer_from_alt:
  "qn4_transfer_from caller from to a t =
    (if qn4_paused t then (Inl Unauthorized, t)
     else if to = ZERO_ADDRESS then (Inl InvalidAddress, t)
     else if a = 0 then (Inl InvalidAmount, t)
     else if qn4_allowance from caller t < a then (Inl InsufficientAllowance, t)
     else if qn4_balance_of from t < a then (Inl InsufficientBalance, t)
     else if 2 ^ 64 \<le> unat (qn4_balance_of to t) + unat a
       then (Inl Overflow, qn4_spend from caller a t)
     else (Inr (Transfer from to a), qn4_moved from to a (qn4_spend from caller a t)))"
  by (simp add: qn4_transfer_from_def qn4_moved_def qn4_spend_def qn4_balance_of_def Let_def
      rust_eval)


lemma qn4_mint_alt:
  "qn4_mint caller to a t =
    (if qn4_paused t \<or> caller \<noteq> qn4_owner t then (Inl Unauthorized, t)
     else if to = ZERO_ADDRESS then (Inl InvalidAddress, t)
     else if \<not> qn4_mintable t then (Inl Unauthorized, t)
     else if qn4_max_supply t \<noteq> None \<and>
             the (qn4_max_supply t) < unwrap_or (checked_add (qn4_total_supply t) a) max_value
       then (Inl MaxSupplyExceeded, t)
     else if 2 ^ 64 \<le> unat (qn4_total_supply t) + unat a then (Inl Overflow, t)
     else if 2 ^ 64 \<le> unat (qn4_balance_of to t) + unat a
       then (Inl Overflow, t\<lparr>qn4_total_supply := qn4_total_supply t + a\<rparr>)
     else (Inr (Transfer ZERO_ADDRESS to a),
           t\<lparr>qn4_total_supply := qn4_total_supply t + a,
             qn4_balances := (qn4_balances t)(to \<mapsto> qn4_balance_of to t + a)\<rparr>))"
  by (cases "qn4_max_supply t") (simp_all add: qn4_mint_def qn4_balance_of_def Let_def rust_eval)

definition qn4_burned :: "address \<Rightarrow> u64 \<Rightarrow> qn4_token \<Rightarrow> qn4_token" where
  "qn4_burned from a t =
    qn4_cleanup_zero_balance from
      (t\<lparr>qn4_total_supply := qn4_total_supply t - a,
         qn4_balances := (qn4_balances t)(from \<mapsto> qn4_balance_of from t - a)\<rparr>)"

lemma qn4_burn_alt:
  "qn4_burn caller a t =
    (if qn4_paused t \<or> \<not> qn4_burnable t then (Inl Unauthorized, t)
     else if qn4_balance_of caller t < a then (Inl InsufficientBalance, t)
     else if qn4_total_supply t < a then (Inl Underflow, t)
     else (Inr (Transfer caller ZERO_ADDRESS a), qn4_burned caller a t))"
  by (simp add: qn4_burn_def qn4_burned_def qn4_balance_of_def Let_def rust_eval)

lemma qn4_burn_from_alt:
  "qn4_burn_from caller from a t =
    (if qn4_paused t \<or> \<not> qn4_burnable t then (Inl Unauthorized, t)
     else if qn4_allowance from caller t < a then (Inl InsufficientAllowance, t)
     else if qn4_balance_of from t < a then (Inl InsufficientBalance, t)
     else if qn4_total_supply t < a then (Inl Underflow, t)
     else (Inr (Transfer from ZERO_ADDRESS a),
           qn4_burned from a (t\<lparr>qn4_allowances :=
             (qn4_allowances t)((from, caller) \<mapsto> qn4_allowance from caller t - a)\<rparr>)))"
  by (cases t) (simp add: qn4_burn_from_def qn4_burned_def qn4_balance_of_def qn4_allowance_def
      Let_def rust_eval)

lemma qn4_balance_of_burned:
  "qn4_balance_of x (qn4_burned from a t) =
    (if x = from then qn4_balance_of from t - a else qn4_balance_of x t)"
  unfolding qn4_burned_def qn4_balance_of_cleanup by (simp add: qn4_balance_of_def)

lemma qn4_inv_minted:
  assumes inv: "qn4_inv t" and s: "unat (qn4_total_supply t) + unat a < 2 ^ 64"
    and cap: "qn4_total_supply t + a \<le> unwrap_or (qn4_max_supply t) max_value"
  shows "qn4_inv (t\<lparr>qn4_total_supply := qn4_total_supply t + a,
                  qn4_balances := (qn4_balances t)(to \<mapsto> qn4_balance_of to t + a)\<rparr>)"
proof -
  have "unat (qn4_balance_of to t) + unat a < 2 ^ 64"
    using qn4l.bal_le_total [OF inv, of to] s by simp
  then have "unat (qn4_balance_of to t + a) = unat (qn4_balance_of to t) + unat a"
    "unat (qn4_total_supply t + a) = unat (qn4_total_supply t) + unat a"
    using s by (simp_all add: unat_add_no_overflow)
  then show ?thesis
    using inv cap val_sum_upd [of "qn4_balances t" to "qn4_balance_of to t + a"]
    by (simp add: qn4_inv_def qn4_balance_of_def)
qed

lemma qn4_inv_burned:
  assumes inv: "qn4_inv t" and le: "a \<le> qn4_balance_of from t"
  shows "qn4_inv (qn4_burned from a t)"
proof -
  have le': "a \<le> qn4_total_supply t"
    using qn4l.bal_le_total [OF inv, of "from"] le by (simp add: word_le_nat_alt)
  then have "unat (qn4_balance_of from t - a) = unat (qn4_balance_of from t) - unat a"
    "unat (qn4_total_supply t - a) = unat (qn4_total_supply t) - unat a"
    "unat a \<le> unat (qn4_balance_of from t)" "unat a \<le> unat (qn4_total_supply t)"
    using le by (simp_all add: unat_sub_no_underflow word_le_nat_alt)
  moreover have "val_sum ((qn4_balances t)(from \<mapsto> qn4_balance_of from t - a)) +
      unat (qn4_balance_of from t) = unat (qn4_total_supply t) + unat (qn4_balance_of from t - a)"
    using inv val_sum_upd [of "qn4_balances t" "from" "qn4_balance_of from t - a"]
    by (simp add: qn4_inv_def qn4_balance_of_def)
  moreover have "qn4_total_supply t - a \<le> unwrap_or (qn4_max_supply t) max_value"
    using inv le' by (auto simp: qn4_inv_def word_le_nat_alt unat_sub_no_underflow)
  ultimately show ?thesis
    using inv unfolding qn4_burned_def by (intro qn4_inv_cleanup) (simp add: qn4_inv_def)
qed

lemma qn4_burn_no_underflow:
  "qn4_inv t \<Longrightarrow> a \<le> qn4_balance_of from t \<Longrightarrow> a \<le> qn4_total_supply t"
  using qn4l.bal_le_total [of t "from"] by (simp add: word_le_nat_alt)

lemma qn4_mint_no_overflow:
  "qn4_inv t \<Longrightarrow> unat (qn4_total_supply t) + unat a < 2 ^ 64 \<Longrightarrow>
   unat (qn4_balance_of to t) + unat a < 2 ^ 64"
  using qn4l.bal_le_total [of t to] by simp


lemma qn4_set_max_supply_inv: "qn4_inv t \<Longrightarrow> qn4_inv (snd (qn4_set_max_supply c m t))"
  by (auto simp: qn4_set_max_supply_def qn4_inv_def rust_simps not_less split: or_return_splits)

lemma qn4_transfer_inv: "qn4_inv t \<Longrightarrow> c \<noteq> to \<Longrightarrow> qn4_inv (snd (qn4_transfer c to a t))"
  by (auto simp: qn4_transfer_alt not_less intro: qn4_inv_moved)

lemma qn4_spend_inv: "qn4_inv t \<Longrightarrow> qn4_inv (qn4_spend from c a t)"
  by (rule qn4_inv_frame) simp_all

lemma qn4_transfer_from_inv:
  "qn4_inv t \<Longrightarrow> from \<noteq> to \<Longrightarrow> qn4_inv (snd (qn4_transfer_from c from to a t))"
  by (auto simp: qn4_transfer_from_alt not_less intro: qn4_inv_moved qn4_spend_inv)

lemma qn4_mint_inv:
  assumes inv: "qn4_inv t"
  shows "qn4_inv (snd (qn4_mint c to a t))"
proof (cases "unat (qn4_total_supply t) + unat a < 2 ^ 64")
  case True
  then have "checked_add (qn4_total_supply t) a = Some (qn4_total_supply t + a)"
    by (simp add: checked_add_def)
  moreover have "qn4_total_supply t + a \<le> unwrap_or (qn4_max_supply t) max_value"
    if "\<not> (qn4_max_supply t \<noteq> None \<and> the (qn4_max_supply t) < qn4_total_supply t + a)"
    using that by (cases "qn4_max_supply t") (auto simp: max_value_def not_less)
  ultimately show ?thesis
    using inv True qn4_inv_minted [OF inv True] qn4_mint_no_overflow [OF inv True, of to]
    by (auto simp: qn4_mint_alt)
qed (use inv in \<open>auto simp: qn4_mint_alt\<close>)

lemma qn4_burn_inv: "qn4_inv t \<Longrightarrow> qn4_inv (snd (qn4_burn c a t))"
  by (auto simp: qn4_burn_alt not_less intro: qn4_inv_burned)

lemma qn4_burn_from_inv: "qn4_inv t \<Longrightarrow> qn4_inv (snd (qn4_burn_from c from a t))"
  by (auto simp: qn4_burn_from_alt not_less qn4_balance_of_def
      intro!: qn4_inv_burned elim: qn4_inv_frame)

lemmas qn4_simple_defs =
  qn4_approve_def qn4_increase_allowance_def qn4_decrease_allowance_def qn4_pause_def
  qn4_unpause_def qn4_transfer_ownership_def qn4_accept_ownership_def

lemma qn4_simple_inv:
  assumes "qn4_inv t"
  shows "qn4_inv (snd (qn4_approve c sp a t))" "qn4_inv (snd (qn4_increase_allowance c sp a t))"
    "qn4_inv (snd (qn4_decrease_allowance c sp a t))" "qn4_inv (snd (qn4_pause c t))"
    "qn4_inv (snd (qn4_unpause c t))" "qn4_inv (snd (qn4_transfer_ownership c n t))"
    "qn4_inv (snd (qn4_accept_ownership c t))"
  using assms by (auto simp: qn4_simple_defs Let_def qn4_inv_def split: or_return_splits)

lemmas qn4_op_invs = qn4_transfer_inv qn4_transfer_from_inv qn4_mint_inv qn4_burn_inv
  qn4_burn_from_inv qn4_simple_inv qn4_set_max_supply_inv

lemma qn4_exec_inv: "qn4_inv t \<Longrightarrow> \<not> qn4_self_move x \<Longrightarrow> qn4_inv (qn4_exec x t)"
  by (cases x) (simp_all add: qn4_exec_def Let_def qn4_op_invs)

interpretation qn4s: op_system qn4_exec "\<lambda>x. \<not> qn4_self_move x" qn4_inv
  by unfold_locales (rule qn4_exec_inv)

lemma qn4_new_inv: "qn4_inv (qn4_new n s d supply0 w)"
  using val_sum_upd [of Map.empty w supply0]
  by (simp add: qn4_inv_def qn4_new_def max_value_def)

lemma qn4_new_full_inv: "qn4_inv (qn4_new_full n s d supply0 w mi bu pa)"
  using qn4_new_inv by (rule qn4_inv_frame) (simp_all add: qn4_new_full_def)

lemma qn4_sample_inv: "qn4_inv qn4_sample"
  unfolding qn4_sample_def by (rule qn4_new_full_inv)

lemma qn4_transfer_from_atomic:
  "qn4_inv t \<Longrightarrow> from \<noteq> to \<Longrightarrow> atomic_at t (qn4_transfer_from c from to a t)"
  using qn4_no_overflow [of t "from" to a] by (auto simp: qn4_transfer_from_alt not_less)

lemma qn4_mint_atomic: "qn4_inv t \<Longrightarrow> atomic_at t (qn4_mint c to a t)"
  using qn4_mint_no_overflow [of t a to] by (auto simp: qn4_mint_alt)

lemma qn4_always_atomic:
  "atomic_at t (qn4_transfer c to a t)" "atomic_at t (qn4_approve c sp a t)"
  "atomic_at t (qn4_increase_allowance c sp a t)" "atomic_at t (qn4_decrease_allowance c sp a t)"
  "atomic_at t (qn4_burn c a t)" "atomic_at t (qn4_burn_from c from a t)"
  "atomic_at t (qn4_pause c t)" "atomic_at t (qn4_unpause c t)"
  "atomic_at t (qn4_transfer_ownership c n t)" "atomic_at t (qn4_accept_ownership c t)"
  "atomic_at t (qn4_set_max_supply c m t)"
  by (simp_all add: qn4_transfer_alt qn4_burn_alt qn4_burn_from_alt qn4_simple_defs
      qn4_set_max_supply_def Let_def rust_eval)

lemmas qn4_atomics = qn4_always_atomic qn4_transfer_from_atomic qn4_mint_atomic

lemma qn4_error_state:
  assumes "qn4_inv t" "\<not> qn4_self_move x" "\<not> fst (qn4_call x t)"
  shows "qn4_exec x t = t"
  using assms by (cases x) (simp_all add: qn4_exec_def Let_def atomic_atD qn4_atomics)


lemma qn4_allowance_cleanup [simp]:
  "qn4_allowance h s (qn4_cleanup_zero_balance a t) = qn4_allowance h s t"
  by (simp add: qn4_allowance_def)

lemma qn4_allowance_moved [simp]: "qn4_allowance h s (qn4_moved f to a t) = qn4_allowance h s t"
  unfolding qn4_moved_def qn4_allowance_cleanup by (simp add: qn4_allowance_def)

lemma qn4_allowance_burned [simp]: "qn4_allowance h s (qn4_burned f a t) = qn4_allowance h s t"
  unfolding qn4_burned_def qn4_allowance_cleanup by (simp add: qn4_allowance_def)

lemma qn4_allowance_spend:
  "qn4_allowance h s (qn4_spend f c a t) =
    (if h = f \<and> s = c \<and> qn4_allowance f c t \<noteq> max_value
     then qn4_allowance f c t - a else qn4_allowance h s t)"
  by (simp add: qn4_spend_def qn4_allowance_def)

lemma qn4_allowance_step:
  assumes "\<not> qn4_grants h s x" "qn4_allowance h s t \<noteq> max_value"
  shows "(if fst (qn4_call x t) then qn4_spent h s x else 0) + unat (qn4_allowance h s (qn4_exec x t))
    \<le> unat (qn4_allowance h s t)"
proof (cases x)
  case (Qn4TransferFrom c f to a)
  then show ?thesis using assms
    by (auto simp: qn4_exec_def Let_def qn4_transfer_from_alt qn4_allowance_spend
        unat_sub_no_underflow word_le_nat_alt not_less)
next
  case (Qn4BurnFrom c f a)
  then show ?thesis using assms
    by (auto simp: qn4_exec_def Let_def qn4_burn_from_alt
        unat_sub_no_underflow word_le_nat_alt not_less simp flip: qn4_allowance_def)
next
  case (Qn4DecreaseAllowance c sp a)
  then show ?thesis
    by (auto simp: qn4_exec_def Let_def qn4_decrease_allowance_def rust_eval
        unat_sub_no_underflow word_le_nat_alt not_less simp flip: qn4_allowance_def)
qed (use assms in \<open>simp_all add: qn4_exec_def Let_def qn4_transfer_alt qn4_mint_alt qn4_burn_alt
  qn4_simple_defs qn4_set_max_supply_def rust_eval, auto simp: qn4_allowance_def\<close>)

lemma qn4_balance_drop:
  assumes "unat (qn4_balance_of h (qn4_exec x t)) < unat (qn4_balance_of h t)"
  shows "h = qn4_caller x \<or>
    unat (qn4_balance_of h t) - unat (qn4_balance_of h (qn4_exec x t))
      \<le> unat (qn4_allowance h (qn4_caller x) t)"
proof (cases x)
  case (Qn4TransferFrom c f to a)
  then show ?thesis using assms
    by (auto simp: qn4_exec_def Let_def qn4_transfer_from_alt qn4_balance_of_moved
        unat_sub_no_underflow word_le_nat_alt not_less unat_add_no_overflow split: if_splits)
next
  case (Qn4BurnFrom c f a)
  then show ?thesis using assms
    by (auto simp: qn4_exec_def Let_def qn4_burn_from_alt qn4_balance_of_burned
        unat_sub_no_underflow word_le_nat_alt not_less split: if_splits)
next
  case (Qn4Transfer c to a)
  then show ?thesis using assms
    by (auto simp: qn4_exec_def Let_def qn4_transfer_alt qn4_balance_of_moved
        unat_add_no_overflow split: if_splits)
next
  case (Qn4Mint c to a)
  then show ?thesis using assms
    by (auto simp: qn4_exec_def Let_def qn4_mint_alt
        unat_add_no_overflow simp flip: qn4_balance_of_def split: if_splits)
next
  case (Qn4Burn c a)
  then show ?thesis using assms
    by (auto simp: qn4_exec_def Let_def qn4_burn_alt qn4_balance_of_burned split: if_splits)
qed (use assms in \<open>simp_all add: qn4_exec_def Let_def qn4_simple_defs qn4_set_max_supply_def rust_eval
  qn4_balance_of_def split: if_splits\<close>)


lemma qn4_spent_run_le:
  assumes "list_all (\<lambda>x. \<not> qn4_grants h s x) xs" "qn4_allowance h s t \<noteq> max_value"
  shows "qn4_spent_run h s xs t + unat (qn4_allowance h s (fold qn4_exec xs t))
    \<le> unat (qn4_allowance h s t)"
  using assms
proof (induction xs arbitrary: t)
  case (Cons x xs)
  note step = qn4_allowance_step [of h s x t]
  have "qn4_allowance h s (qn4_exec x t) \<noteq> max_value"
    using step Cons.prems unat_max_value [where 'w = 64] unat_u64_less [of "qn4_allowance h s t"]
      word_unat_eq_iff [of "qn4_allowance h s t" max_value]
    by (auto split: if_splits)
  with Cons.IH [of "qn4_exec x t"] Cons.prems step show ?case by simp
qed simp

section \<open>Properties\<close>

text \<open>C18: After any sequence of calls that moves no balance from an account to itself, the
  balances of a token created by \<open>new_full\<close> add up to its recorded supply, and the supply
  is within the cap where one was set.\<close>

theorem qn4_supply_conserved:
  assumes "list_all (\<lambda>x. \<not> qn4_self_move x) xs"
    and "t = fold qn4_exec xs (qn4_new_full n s d initial_supply w mi bu pa)"
  shows "(\<Sum>a\<in>dom (qn4_balances t). unat (qn4_balance_of a t)) = unat (qn4_total_supply t) \<and>
    (\<forall>m. qn4_max_supply t = Some m \<longrightarrow> qn4_total_supply t \<le> m)"
proof -
  have inv: "qn4_inv t" using qn4s.run_invar [OF qn4_new_full_inv assms(1)] assms(2) by simp
  then show ?thesis using qn4l.total_sum [OF inv] by (auto simp: qn4_inv_def)
qed

theorem qn4_supply_conserved_witness:
  "let t = fold qn4_exec [Qn4SetMaxSupply (addr 1) 2000, Qn4Mint (addr 1) (addr 2) 500,
             Qn4Mint (addr 1) (addr 2) 600, Qn4Transfer (addr 2) (addr 3) 200, Qn4Burn (addr 3) 50]
             (qn4_new_full ''Sample'' ''SMP'' 8 1000 (addr 1) True True True)
   in (\<Sum>a\<in>dom (qn4_balances t). unat (qn4_balance_of a t)) = 1450 \<and> qn4_balance_of (addr 3) t = 150"
  unfolding Let_def
  by (subst conjunct1 [OF qn4_supply_conserved [OF _ refl]])
     (simp_all add: qn4_exec_def qn4_new_full_def qn4_new_def qn4_set_max_supply_def qn4_check_owner_def
       qn4_mint_alt qn4_transfer_alt qn4_burn_alt qn4_moved_def qn4_burned_def checked_add_def
       qn4_cleanup_zero_balance_def qn4_balance_of_def)

text \<open>A call that returns an error leaves the token as it was, in every state where the
  supply is consistent; the calls that move a balance to itself are excluded.\<close>

theorem qn4_error_no_effect:
  assumes "qn4_inv t" "\<not> qn4_self_move x" "\<not> fst (qn4_call x t)"
  shows "qn4_exec x t = t"
  using assms by (rule qn4_error_state)

theorem qn4_error_no_effect_witness:
  "qn4_exec (Qn4TransferFrom (addr 2) (addr 1) (addr 3) 5) qn4_sample = qn4_sample"
  by (rule qn4_error_no_effect [OF qn4_sample_inv])
     (simp_all add: qn4_sample_def qn4_transfer_from_alt qn4_allowance_def
       qn4_new_full_def qn4_new_def)

text \<open>C21: Between two accounts, \<open>transfer\<close> succeeds exactly when the token is not paused,
  the recipient is not the zero address and the amount is positive and covered; it then does
  to the balances what the abstract ledger does, and keeps the supply and every allowance.
  The overflow branch is never taken.\<close>

theorem qn4_transfer_refines_ledger:
  assumes "qn4_inv t" "caller \<noteq> to" and "qn4_transfer caller to a t = (r, t')"
  shows "(\<exists>ev. r = Inr ev) = (\<not> qn4_paused t \<and> to \<noteq> ZERO_ADDRESS \<and> a \<noteq> 0 \<and> a \<le> qn4_balance_of caller t) \<and>
    (\<lambda>x. unat (qn4_balance_of x t')) =
      (if is_ok (r, t') then ledger_move caller to (unat a) (\<lambda>x. unat (qn4_balance_of x t))
       else (\<lambda>x. unat (qn4_balance_of x t))) \<and>
    qn4_total_supply t' = qn4_total_supply t \<and> qn4_allowances t' = qn4_allowances t"
  using assms(2,3) qn4_no_overflow [OF assms(1,2), of a]
  by (auto simp: qn4_transfer_alt ledger_move_def qn4_balance_of_moved Let_def
      unat_add_no_overflow unat_sub_no_underflow not_less fun_eq_iff split: if_splits)

theorem qn4_transfer_refines_ledger_witness:
  "is_ok (qn4_transfer (addr 1) (addr 2) 300 qn4_sample) \<and>
   (\<lambda>x. unat (qn4_balance_of x (snd (qn4_transfer (addr 1) (addr 2) 300 qn4_sample)))) =
     ledger_move (addr 1) (addr 2) 300 (\<lambda>x. unat (qn4_balance_of x qn4_sample))"
proof -
  have ok: "is_ok (qn4_transfer (addr 1) (addr 2) 300 qn4_sample)"
    by (simp add: qn4_transfer_alt qn4_sample_def qn4_new_full_def qn4_new_def qn4_balance_of_def)
  from qn4_transfer_refines_ledger [OF qn4_sample_inv, of "addr 1" "addr 2" 300
      "fst (qn4_transfer (addr 1) (addr 2) 300 qn4_sample)"
      "snd (qn4_transfer (addr 1) (addr 2) 300 qn4_sample)"]
  show ?thesis using ok by simp
qed

text \<open>An account that sends to itself an amount it holds gains that amount while the
  supply stays the same: \<open>transfer\<close> reads both balances before it writes either, and the
  credit overwrites the debit.\<close>

theorem qn4_self_transfer_inflates:
  assumes "\<not> qn4_paused t" "a \<noteq> ZERO_ADDRESS" "v \<noteq> 0" "v \<le> qn4_balance_of a t"
    and "unat (qn4_balance_of a t) + unat v < 2 ^ 64"
  shows "qn4_balance_of a (snd (qn4_transfer a a v t)) = qn4_balance_of a t + v \<and>
    qn4_total_supply (snd (qn4_transfer a a v t)) = qn4_total_supply t \<and>
    (qn4_inv t \<longrightarrow> \<not> qn4_inv (snd (qn4_transfer a a v t)))"
proof -
  have t': "snd (qn4_transfer a a v t) = qn4_moved a a v t"
    using assms by (simp add: qn4_transfer_alt)
  have "0 < unat v" using assms(3) by (simp add: unat_gt_0)
  then have "\<not> qn4_inv (qn4_moved a a v t)" if "qn4_inv t"
    using that qn4_self_moved_sum [OF _ assms(5)] by (simp add: qn4_inv_def)
  with t' show ?thesis by (simp add: qn4_balance_of_moved)
qed

theorem qn4_self_transfer_inflates_witness:
  "qn4_balance_of (addr 1) (snd (qn4_transfer (addr 1) (addr 1) 400 qn4_sample)) = 1400 \<and>
   qn4_total_supply (snd (qn4_transfer (addr 1) (addr 1) 400 qn4_sample)) = 1000"
  using qn4_self_transfer_inflates [of qn4_sample "addr 1" 400]
  by (simp add: qn4_sample_def qn4_new_full_def qn4_new_def qn4_balance_of_def)

text \<open>C23: No call takes from an account that is not the caller's more than the account had
  allowed the caller.\<close>

theorem qn4_no_theft:
  assumes "unat (qn4_balance_of h (qn4_exec x t)) < unat (qn4_balance_of h t)"
    and "h \<noteq> qn4_caller x"
  shows "unat (qn4_balance_of h t) - unat (qn4_balance_of h (qn4_exec x t))
    \<le> unat (qn4_allowance h (qn4_caller x) t)"
  using qn4_balance_drop [OF assms(1)] assms(2) by blast

theorem qn4_no_theft_witness:
  "let t = qn4_exec (Qn4Approve (addr 1) (addr 2) 70) qn4_sample;
       x = Qn4TransferFrom (addr 2) (addr 1) (addr 3) 30
   in unat (qn4_balance_of (addr 1) t) - unat (qn4_balance_of (addr 1) (qn4_exec x t))
        \<le> unat (qn4_allowance (addr 1) (qn4_caller x) t) \<and>
      unat (qn4_balance_of (addr 1) (qn4_exec x t)) = 970"
  unfolding Let_def
  by (rule conjI, rule qn4_no_theft)
     (simp_all add: qn4_exec_def qn4_sample_def qn4_new_full_def qn4_new_def qn4_approve_def
       qn4_check_not_paused_def check_not_zero_address_def qn4_transfer_from_alt qn4_allowance_def
       qn4_moved_def qn4_spend_def max_value_def qn4_cleanup_zero_balance_def qn4_balance_of_def Let_def)

text \<open>Whatever calls are made, as long as the holder grants nothing new, a spender takes
  out of the holder's account no more in total than the (finite) allowance it started with.\<close>

theorem qn4_spender_bounded:
  assumes "list_all (\<lambda>x. \<not> qn4_grants h s x) xs" "qn4_allowance h s t \<noteq> max_value"
  shows "qn4_spent_run h s xs t + unat (qn4_allowance h s (fold qn4_exec xs t))
    \<le> unat (qn4_allowance h s t)"
  using assms by (rule qn4_spent_run_le)

theorem qn4_spender_bounded_witness:
  "let t = qn4_exec (Qn4Approve (addr 1) (addr 2) 70) qn4_sample;
       xs = [Qn4TransferFrom (addr 2) (addr 1) (addr 3) 30,
             Qn4BurnFrom (addr 2) (addr 1) 20, Qn4TransferFrom (addr 2) (addr 1) (addr 3) 30]
   in qn4_spent_run (addr 1) (addr 2) xs t + unat (qn4_allowance (addr 1) (addr 2) (fold qn4_exec xs t)) \<le> 70 \<and>
      qn4_spent_run (addr 1) (addr 2) xs t = 50"
proof -
  let ?t = "qn4_exec (Qn4Approve (addr 1) (addr 2) 70) qn4_sample"
  let ?xs = "[Qn4TransferFrom (addr 2) (addr 1) (addr 3) 30,
    Qn4BurnFrom (addr 2) (addr 1) 20, Qn4TransferFrom (addr 2) (addr 1) (addr 3) 30]"
  note eval = qn4_exec_def qn4_sample_def qn4_new_full_def qn4_new_def qn4_approve_def
    qn4_check_not_paused_def check_not_zero_address_def qn4_transfer_from_alt qn4_burn_from_alt
    qn4_allowance_def qn4_moved_def qn4_burned_def qn4_spend_def max_value_def
    qn4_cleanup_zero_balance_def qn4_balance_of_def Let_def
  have "qn4_allowance (addr 1) (addr 2) ?t = 70" by (simp add: eval)
  moreover have "qn4_spent_run (addr 1) (addr 2) ?xs ?t = 50" by (simp add: eval)
  moreover have "list_all (\<lambda>x. \<not> qn4_grants (addr 1) (addr 2) x) ?xs" by simp
  ultimately show ?thesis
    using qn4_spender_bounded [of "addr 1" "addr 2" ?xs ?t] by (simp add: Let_def max_value_def)
qed

end
