(* ===== verification/QN8.thy ===== *)
theory QN8
  imports Token_Base
begin

text \<open>
  The non-fungible token QN8 (\<open>standards/qn8.rs\<close>).  Ownership is stored three times, as
  the owner of each token, the token set of each owner and a balance per owner; the
  invariant says that the three agree, and the lemmas say which calls keep it.
\<close>

section \<open>State\<close>

record qn8_token =
  qn8_name :: string
  qn8_symbol :: string
  qn8_owner :: address
  qn8_pending_owner :: "address option"
  qn8_owners :: "u64 \<rightharpoonup> address"
  qn8_owner_tokens :: "address \<rightharpoonup> u64 set"
  qn8_balances :: "address \<rightharpoonup> u64"
  qn8_token_approvals :: "u64 \<rightharpoonup> address"
  qn8_operator_approvals :: "address \<times> address \<rightharpoonup> bool"
  qn8_token_uris :: "u64 \<rightharpoonup> string"
  qn8_next_token_id :: u64
  qn8_base_uri :: string
  qn8_contract_addresses :: "address set"
  qn8_nft_receivers :: "address set"
  qn8_reentrancy_guard :: bool

definition QN8_MAX_BATCH_SIZE :: u64 where
  "QN8_MAX_BATCH_SIZE = 1000"

definition MAX_TOKENS_PER_OWNER :: nat where
  "MAX_TOKENS_PER_OWNER = 100000"

section \<open>Inherent operations and queries\<close>

definition qn8_new :: "string \<Rightarrow> string \<Rightarrow> address \<Rightarrow> string \<Rightarrow> qn8_token" where
  "qn8_new name symbol owner base_uri =
    \<lparr> qn8_name = name, qn8_symbol = symbol, qn8_owner = owner, qn8_pending_owner = None,
      qn8_owners = Map.empty, qn8_owner_tokens = Map.empty, qn8_balances = Map.empty,
      qn8_token_approvals = Map.empty, qn8_operator_approvals = Map.empty,
      qn8_token_uris = Map.empty, qn8_next_token_id = 1, qn8_base_uri = base_uri,
      qn8_contract_addresses = {}, qn8_nft_receivers = {}, qn8_reentrancy_guard = False \<rparr>"

definition qn8_register_contract :: "address \<Rightarrow> qn8_token \<Rightarrow> qn8_token" where
  "qn8_register_contract a t = t\<lparr>qn8_contract_addresses := insert a (qn8_contract_addresses t)\<rparr>"

definition qn8_register_nft_receiver :: "address \<Rightarrow> qn8_token \<Rightarrow> qn8_token" where
  "qn8_register_nft_receiver a t = t\<lparr>qn8_nft_receivers := insert a (qn8_nft_receivers t)\<rparr>"

definition qn8_is_contract :: "address \<Rightarrow> qn8_token \<Rightarrow> bool" where
  "qn8_is_contract a t = (a \<in> qn8_contract_addresses t)"

definition qn8_supports_nft_receive :: "address \<Rightarrow> qn8_token \<Rightarrow> bool" where
  "qn8_supports_nft_receive a t = (a \<in> qn8_nft_receivers t)"

definition qn8_check_owner :: "address \<Rightarrow> qn8_token \<Rightarrow> unit token_result" where
  "qn8_check_owner caller t = (if caller \<noteq> qn8_owner t then Inl Unauthorized else Inr ())"

definition qn8_owner_of :: "u64 \<Rightarrow> qn8_token \<Rightarrow> address token_result" where
  "qn8_owner_of token_id t = ok_or (qn8_owners t token_id) TokenNotFound"

definition qn8_get_approved :: "u64 \<Rightarrow> qn8_token \<Rightarrow> address option" where
  "qn8_get_approved token_id t = qn8_token_approvals t token_id"

definition qn8_is_approved_for_all :: "address \<Rightarrow> address \<Rightarrow> qn8_token \<Rightarrow> bool" where
  "qn8_is_approved_for_all owner operator t =
    unwrap_or (qn8_operator_approvals t (owner, operator)) False"

definition qn8_is_approved_or_owner :: "address \<Rightarrow> u64 \<Rightarrow> qn8_token \<Rightarrow> bool token_result" where
  "qn8_is_approved_or_owner spender token_id t =
    (case qn8_owner_of token_id t of
       Inl e \<Rightarrow> Inl e
     | Inr owner \<Rightarrow>
         Inr (spender = owner
              \<or> unwrap_or (map_option (\<lambda>a. a = spender) (qn8_get_approved token_id t)) False
              \<or> qn8_is_approved_for_all owner spender t))"

definition qn8_exists :: "u64 \<Rightarrow> qn8_token \<Rightarrow> bool" where
  "qn8_exists token_id t = (qn8_owners t token_id \<noteq> None)"

definition qn8_transfer_ownership ::
  "address \<Rightarrow> address \<Rightarrow> qn8_token \<Rightarrow> unit token_result \<times> qn8_token" where
  "qn8_transfer_ownership caller new_owner t =
    or_return (qn8_check_owner caller t) t (\<lambda>_.
    or_return (check_not_zero_address new_owner) t (\<lambda>_.
    (Inr (), t\<lparr>qn8_pending_owner := Some new_owner\<rparr>)))"

definition qn8_accept_ownership :: "address \<Rightarrow> qn8_token \<Rightarrow> unit token_result \<times> qn8_token" where
  "qn8_accept_ownership caller t =
    (if qn8_pending_owner t \<noteq> Some caller then (Inl Unauthorized, t)
     else (Inr (), t\<lparr>qn8_owner := caller, qn8_pending_owner := None\<rparr>))"

definition qn8_total_supply :: "qn8_token \<Rightarrow> u64" where
  "qn8_total_supply t = of_nat (card (dom (qn8_owners t)))"

definition qn8_balance_of :: "address \<Rightarrow> qn8_token \<Rightarrow> u64" where
  "qn8_balance_of owner t = unwrap_or (qn8_balances t owner) 0"

definition qn8_token_uri :: "u64 \<Rightarrow> qn8_token \<Rightarrow> string token_result" where
  "qn8_token_uri token_id t =
    (if \<not> qn8_exists token_id t then Inl TokenNotFound
     else case qn8_token_uris t token_id of
       Some uri \<Rightarrow> Inr uri
     | None \<Rightarrow> Inr (qn8_base_uri t @ decimal (unat token_id)))"

section \<open>Approvals and transfers\<close>

definition qn8_approve ::
  "address \<Rightarrow> address \<Rightarrow> u64 \<Rightarrow> qn8_token \<Rightarrow> token_event token_result \<times> qn8_token" where
  "qn8_approve caller to token_id t =
    or_return (qn8_owner_of token_id t) t (\<lambda>owner.
    if caller \<noteq> owner \<and> \<not> qn8_is_approved_for_all owner caller t then (Inl Unauthorized, t)
    else (Inr (ApprovalNFT owner to token_id),
          t\<lparr>qn8_token_approvals := (qn8_token_approvals t)(token_id \<mapsto> to)\<rparr>))"

definition qn8_set_approval_for_all ::
  "address \<Rightarrow> address \<Rightarrow> bool \<Rightarrow> qn8_token \<Rightarrow> token_event token_result \<times> qn8_token" where
  "qn8_set_approval_for_all caller operator approved t =
    (if caller = operator then (Inl InvalidAddress, t)
     else (Inr (ApprovalForAll caller operator approved),
           t\<lparr>qn8_operator_approvals :=
              (qn8_operator_approvals t)((caller, operator) \<mapsto> approved)\<rparr>))"

text \<open>\<open>tokens.remove(&token_id)\<close> on the set of an owner, with the empty set dropped from the
  map, and \<open>entry(owner).or_insert_with(HashSet::new).insert(token_id)\<close>.\<close>

definition owner_tokens_remove ::
  "address \<Rightarrow> u64 \<Rightarrow> (address \<rightharpoonup> u64 set) \<Rightarrow> (address \<rightharpoonup> u64 set)" where
  "owner_tokens_remove from token_id m =
    (case m from of
       Some tokens \<Rightarrow>
         let tokens' = tokens - {token_id} in
         if tokens' = {} then m(from := None) else m(from \<mapsto> tokens')
     | None \<Rightarrow> m)"

definition owner_tokens_insert ::
  "address \<Rightarrow> u64 \<Rightarrow> (address \<rightharpoonup> u64 set) \<Rightarrow> (address \<rightharpoonup> u64 set)" where
  "owner_tokens_insert to token_id m = m(to \<mapsto> insert token_id (unwrap_or (m to) {}))"

definition qn8_transfer_from ::
  "address \<Rightarrow> address \<Rightarrow> address \<Rightarrow> u64 \<Rightarrow> qn8_token \<Rightarrow> token_event token_result \<times> qn8_token" where
  "qn8_transfer_from caller from to token_id t =
    or_return (check_not_zero_address to) t (\<lambda>_.
    or_return (qn8_is_approved_or_owner caller token_id t) t (\<lambda>approved.
    if \<not> approved then (Inl NotApproved, t) else
    or_return (qn8_owner_of token_id t) t (\<lambda>owner.
    if owner \<noteq> from then (Inl NotOwner, t) else
    let t = t\<lparr>qn8_token_approvals := (qn8_token_approvals t)(token_id := None)\<rparr>;
        t = t\<lparr>qn8_owners := (qn8_owners t)(token_id \<mapsto> to)\<rparr>;
        t = t\<lparr>qn8_owner_tokens := owner_tokens_remove from token_id (qn8_owner_tokens t)\<rparr>;
        to_token_count = unwrap_or (map_option card (qn8_owner_tokens t to)) 0 in
    if to_token_count \<ge> MAX_TOKENS_PER_OWNER then (Inl MaxTokensPerOwnerReached, t) else
    let t = t\<lparr>qn8_owner_tokens := owner_tokens_insert to token_id (qn8_owner_tokens t)\<rparr>;
        from_balance = qn8_balance_of from t;
        to_balance = qn8_balance_of to t in
    or_return (ok_or (checked_sub from_balance 1) Underflow) t (\<lambda>new_from.
    or_return (ok_or (checked_add to_balance 1) Overflow) t (\<lambda>new_to.
    let t = t\<lparr>qn8_balances := (qn8_balances t)(from \<mapsto> new_from)\<rparr>;
        t = t\<lparr>qn8_balances := (qn8_balances t)(to \<mapsto> new_to)\<rparr>
    in (Inr (TransferNFT from to token_id), t))))))"

definition qn8_safe_transfer_from ::
  "address \<Rightarrow> address \<Rightarrow> address \<Rightarrow> u64 \<Rightarrow> bytes \<Rightarrow> qn8_token \<Rightarrow>
    token_event token_result \<times> qn8_token" where
  "qn8_safe_transfer_from caller from to token_id data t =
    (if qn8_reentrancy_guard t then (Inl ReentrancyDetected, t) else
     let t = t\<lparr>qn8_reentrancy_guard := True\<rparr> in
     or_return (check_not_zero_address to) t (\<lambda>_.
     if qn8_is_contract to t \<and> \<not> qn8_supports_nft_receive to t
     then (Inl Unauthorized, t\<lparr>qn8_reentrancy_guard := False\<rparr>)
     else
       let (result, t) = qn8_transfer_from caller from to token_id t
       in (result, t\<lparr>qn8_reentrancy_guard := False\<rparr>)))"

section \<open>Mint and burn\<close>

definition qn8_mint ::
  "address \<Rightarrow> address \<Rightarrow> string option \<Rightarrow> qn8_token \<Rightarrow>
    (u64 \<times> token_event) token_result \<times> qn8_token" where
  "qn8_mint caller to uri t =
    or_return (qn8_check_owner caller t) t (\<lambda>_.
    or_return (check_not_zero_address to) t (\<lambda>_.
    let token_id = qn8_next_token_id t in
    or_return (ok_or (checked_add (qn8_next_token_id t) 1) Overflow) t (\<lambda>next_id.
    let t = t\<lparr>qn8_next_token_id := next_id\<rparr>;
        t = t\<lparr>qn8_owners := (qn8_owners t)(token_id \<mapsto> to)\<rparr>;
        to_token_count = unwrap_or (map_option card (qn8_owner_tokens t to)) 0 in
    if to_token_count \<ge> MAX_TOKENS_PER_OWNER then (Inl MaxTokensPerOwnerReached, t) else
    let t = t\<lparr>qn8_owner_tokens := owner_tokens_insert to token_id (qn8_owner_tokens t)\<rparr>;
        current_balance = qn8_balance_of to t in
    or_return (ok_or (checked_add current_balance 1) Overflow) t (\<lambda>new_balance.
    let t = t\<lparr>qn8_balances := (qn8_balances t)(to \<mapsto> new_balance)\<rparr>;
        t = (case uri of
               Some u \<Rightarrow> t\<lparr>qn8_token_uris := (qn8_token_uris t)(token_id \<mapsto> u)\<rparr>
             | None \<Rightarrow> t)
    in (Inr (token_id, TransferNFT ZERO_ADDRESS to token_id), t)))))"

text \<open>The loop \<open>for i in 0..count\<close> of \<open>mint_batch\<close>, with the token ids pushed so far.\<close>

fun qn8_mint_loop ::
  "nat \<Rightarrow> nat \<Rightarrow> address \<Rightarrow> address \<Rightarrow> string list \<Rightarrow> u64 list \<Rightarrow> qn8_token \<Rightarrow>
    u64 list token_result \<times> qn8_token" where
  "qn8_mint_loop i 0 caller to uris token_ids t = (Inr token_ids, t)"
| "qn8_mint_loop i (Suc n) caller to uris token_ids t =
    (let uri = (if i < length uris then Some (uris ! i) else None) in
     case qn8_mint caller to uri t of
       (Inl e, t) \<Rightarrow> (Inl e, t)
     | (Inr (token_id, _), t) \<Rightarrow>
         qn8_mint_loop (Suc i) n caller to uris (token_ids @ [token_id]) t)"

definition qn8_mint_batch ::
  "address \<Rightarrow> address \<Rightarrow> u64 \<Rightarrow> string list \<Rightarrow> qn8_token \<Rightarrow> u64 list token_result \<times> qn8_token" where
  "qn8_mint_batch caller to count uris t =
    or_return (qn8_check_owner caller t) t (\<lambda>_.
    if count > QN8_MAX_BATCH_SIZE then (Inl BatchSizeTooLarge, t)
    else qn8_mint_loop 0 (unat count) caller to uris [] t)"

definition qn8_burn ::
  "address \<Rightarrow> u64 \<Rightarrow> qn8_token \<Rightarrow> token_event token_result \<times> qn8_token" where
  "qn8_burn caller token_id t =
    or_return (qn8_owner_of token_id t) t (\<lambda>owner.
    or_return (qn8_is_approved_or_owner caller token_id t) t (\<lambda>approved.
    if \<not> approved then (Inl NotApproved, t) else
    let t = t\<lparr>qn8_token_approvals := (qn8_token_approvals t)(token_id := None)\<rparr>;
        t = t\<lparr>qn8_owners := (qn8_owners t)(token_id := None)\<rparr>;
        t = t\<lparr>qn8_token_uris := (qn8_token_uris t)(token_id := None)\<rparr>;
        t = (case qn8_owner_tokens t owner of
               Some tokens \<Rightarrow>
                 t\<lparr>qn8_owner_tokens := (qn8_owner_tokens t)(owner \<mapsto> tokens - {token_id})\<rparr>
             | None \<Rightarrow> t);
        current_balance = qn8_balance_of owner t in
    or_return (ok_or (checked_sub current_balance 1) Underflow) t (\<lambda>new_balance.
    (Inr (TransferNFT owner ZERO_ADDRESS token_id),
     t\<lparr>qn8_balances := (qn8_balances t)(owner \<mapsto> new_balance)\<rparr>))))"

section \<open>Enumeration\<close>

definition qn8_token_by_index ::
  "(u64 set \<Rightarrow> u64 list) \<Rightarrow> u64 \<Rightarrow> qn8_token \<Rightarrow> u64 token_result" where
  "qn8_token_by_index iter index t =
    (let keys = iter (dom (qn8_owners t)) in
     if unat index < length keys then Inr (keys ! unat index) else Inl TokenNotFound)"

definition qn8_all_tokens :: "(u64 set \<Rightarrow> u64 list) \<Rightarrow> qn8_token \<Rightarrow> u64 list" where
  "qn8_all_tokens iter t = iter (dom (qn8_owners t))"

definition qn8_tokens_of_owner ::
  "(u64 set \<Rightarrow> u64 list) \<Rightarrow> address \<Rightarrow> qn8_token \<Rightarrow> u64 list" where
  "qn8_tokens_of_owner iter owner t =
    unwrap_or (map_option iter (qn8_owner_tokens t owner)) []"

definition qn8_token_of_owner_by_index ::
  "(u64 set \<Rightarrow> u64 list) \<Rightarrow> address \<Rightarrow> u64 \<Rightarrow> qn8_token \<Rightarrow> u64 token_result" where
  "qn8_token_of_owner_by_index iter owner index t =
    (let tokens = qn8_tokens_of_owner iter owner t in
     if unat index < length tokens then Inr (tokens ! unat index) else Inl TokenNotFound)"

section \<open>Calls\<close>

datatype qn8_op =
    Qn8Approve address address u64
  | Qn8SetApprovalForAll address address bool
  | Qn8TransferFrom address address address u64
  | Qn8SafeTransferFrom address address address u64 bytes
  | Qn8Mint address address "string option"
  | Qn8MintBatch address address u64 "string list"
  | Qn8Burn address u64
  | Qn8RegisterContract address
  | Qn8RegisterNftReceiver address
  | Qn8TransferOwnership address address
  | Qn8AcceptOwnership address

fun qn8_call :: "qn8_op \<Rightarrow> qn8_token \<Rightarrow> bool \<times> qn8_token" where
  "qn8_call (Qn8Approve c to i) t = (let r = qn8_approve c to i t in (is_ok r, snd r))"
| "qn8_call (Qn8SetApprovalForAll c opr b) t =
    (let r = qn8_set_approval_for_all c opr b t in (is_ok r, snd r))"
| "qn8_call (Qn8TransferFrom c from to i) t =
    (let r = qn8_transfer_from c from to i t in (is_ok r, snd r))"
| "qn8_call (Qn8SafeTransferFrom c from to i d) t =
    (let r = qn8_safe_transfer_from c from to i d t in (is_ok r, snd r))"
| "qn8_call (Qn8Mint c to uri) t = (let r = qn8_mint c to uri t in (is_ok r, snd r))"
| "qn8_call (Qn8MintBatch c to n uris) t =
    (let r = qn8_mint_batch c to n uris t in (is_ok r, snd r))"
| "qn8_call (Qn8Burn c i) t = (let r = qn8_burn c i t in (is_ok r, snd r))"
| "qn8_call (Qn8RegisterContract a) t = (True, qn8_register_contract a t)"
| "qn8_call (Qn8RegisterNftReceiver a) t = (True, qn8_register_nft_receiver a t)"
| "qn8_call (Qn8TransferOwnership c n) t =
    (let r = qn8_transfer_ownership c n t in (is_ok r, snd r))"
| "qn8_call (Qn8AcceptOwnership c) t = (let r = qn8_accept_ownership c t in (is_ok r, snd r))"

definition qn8_exec :: "qn8_op \<Rightarrow> qn8_token \<Rightarrow> qn8_token" where
  "qn8_exec x t = snd (qn8_call x t)"

fun qn8_caller :: "qn8_op \<Rightarrow> address option" where
  "qn8_caller (Qn8Approve c to i) = Some c"
| "qn8_caller (Qn8SetApprovalForAll c opr b) = Some c"
| "qn8_caller (Qn8TransferFrom c from to i) = Some c"
| "qn8_caller (Qn8SafeTransferFrom c from to i d) = Some c"
| "qn8_caller (Qn8Mint c to uri) = Some c"
| "qn8_caller (Qn8MintBatch c to n uris) = Some c"
| "qn8_caller (Qn8Burn c i) = Some c"
| "qn8_caller (Qn8RegisterContract a) = None"
| "qn8_caller (Qn8RegisterNftReceiver a) = None"
| "qn8_caller (Qn8TransferOwnership c n) = Some c"
| "qn8_caller (Qn8AcceptOwnership c) = Some c"

fun qn8_self_move :: "qn8_op \<Rightarrow> bool" where
  "qn8_self_move (Qn8TransferFrom c from to i) = (from = to)"
| "qn8_self_move (Qn8SafeTransferFrom c from to i d) = (from = to)"
| "qn8_self_move _ = False"

text \<open>The states that successful calls reach from a new collection, moves of a token from its
  owner to the same owner excluded.\<close>

inductive qn8_reachable :: "qn8_token \<Rightarrow> bool" where
  new: "qn8_reachable (qn8_new n s w u)"
| step: "qn8_reachable t \<Longrightarrow> \<not> qn8_self_move x \<Longrightarrow> qn8_call x t = (True, t') \<Longrightarrow> qn8_reachable t'"

section \<open>The ownership invariant\<close>

definition qn8_tokens :: "address \<Rightarrow> qn8_token \<Rightarrow> u64 set" where
  "qn8_tokens a t = {i. qn8_owners t i = Some a}"

definition qn8_inv :: "qn8_token \<Rightarrow> bool" where
  "qn8_inv t \<longleftrightarrow>
    (\<forall>a. unwrap_or (qn8_owner_tokens t a) {} = qn8_tokens a t) \<and>
    (\<forall>a. unat (qn8_balance_of a t) = card (qn8_tokens a t)) \<and>
    (\<forall>a. card (qn8_tokens a t) \<le> MAX_TOKENS_PER_OWNER) \<and>
    (\<forall>i a. qn8_owners t i = Some a \<longrightarrow> i < qn8_next_token_id t \<and> a \<noteq> ZERO_ADDRESS) \<and>
    dom (qn8_token_approvals t) \<subseteq> dom (qn8_owners t) \<and>
    dom (qn8_token_uris t) \<subseteq> dom (qn8_owners t)"

definition qn8_moved :: "u64 \<Rightarrow> address \<Rightarrow> address \<Rightarrow> qn8_token \<Rightarrow> qn8_token" where
  "qn8_moved i from to t =
    t\<lparr>qn8_token_approvals := (qn8_token_approvals t)(i := None),
      qn8_owners := (qn8_owners t)(i \<mapsto> to),
      qn8_owner_tokens :=
        owner_tokens_insert to i (owner_tokens_remove from i (qn8_owner_tokens t)),
      qn8_balances := (qn8_balances t)
        (from \<mapsto> qn8_balance_of from t - 1, to \<mapsto> qn8_balance_of to t + 1)\<rparr>"

definition qn8_minted :: "address \<Rightarrow> string option \<Rightarrow> qn8_token \<Rightarrow> qn8_token" where
  "qn8_minted to uri t =
    (let i = qn8_next_token_id t in
     t\<lparr>qn8_next_token_id := i + 1,
       qn8_owners := (qn8_owners t)(i \<mapsto> to),
       qn8_owner_tokens := owner_tokens_insert to i (qn8_owner_tokens t),
       qn8_balances := (qn8_balances t)(to \<mapsto> qn8_balance_of to t + 1),
       qn8_token_uris := (case uri of Some u \<Rightarrow> (qn8_token_uris t)(i \<mapsto> u) | None \<Rightarrow> qn8_token_uris t)\<rparr>)"

definition qn8_burned :: "u64 \<Rightarrow> address \<Rightarrow> qn8_token \<Rightarrow> qn8_token" where
  "qn8_burned i owner t =
    t\<lparr>qn8_token_approvals := (qn8_token_approvals t)(i := None),
      qn8_owners := (qn8_owners t)(i := None),
      qn8_token_uris := (qn8_token_uris t)(i := None),
      qn8_owner_tokens :=
        (case qn8_owner_tokens t owner of
           Some tokens \<Rightarrow> (qn8_owner_tokens t)(owner \<mapsto> tokens - {i}) | None \<Rightarrow> qn8_owner_tokens t),
      qn8_balances := (qn8_balances t)(owner \<mapsto> qn8_balance_of owner t - 1)\<rparr>"

text \<open>A collection with one token, minted by \<open>addr 1\<close> to \<open>addr 2\<close>.\<close>

definition qn8_sample :: qn8_token where
  "qn8_sample = qn8_exec (Qn8Mint (addr 1) (addr 2) None) (qn8_new ''Art'' ''ART'' (addr 1) ''ipfs://'')"

text \<open>A collection in which \<open>addr 2\<close> holds the maximum number of tokens.\<close>

definition qn8_sample_full :: qn8_token where
  "qn8_sample_full = (qn8_new ''Art'' ''ART'' (addr 1) ''ipfs://'')
     \<lparr>qn8_owners := (\<lambda>i. if 0 < i \<and> i \<le> 100000 then Some (addr 2) else None),
      qn8_owner_tokens := [addr 2 \<mapsto> {i. 0 < i \<and> i \<le> 100000}],
      qn8_balances := [addr 2 \<mapsto> 100000], qn8_next_token_id := 100001\<rparr>"

section \<open>Lemmas\<close>

declare qn8_check_owner_def [rust_eval]

lemma owner_tokens_remove_lookup [simp]:
  "unwrap_or (owner_tokens_remove from i m a) {} =
    (if a = from then unwrap_or (m a) {} - {i} else unwrap_or (m a) {})"
  by (auto simp: owner_tokens_remove_def Let_def split: option.splits)

lemma owner_tokens_insert_lookup [simp]:
  "unwrap_or (owner_tokens_insert to i m a) {} =
    (if a = to then insert i (unwrap_or (m a) {}) else unwrap_or (m a) {})"
  by (auto simp: owner_tokens_insert_def)

lemma owner_tokens_shrink_lookup:
  "unwrap_or ((case m w of Some ts \<Rightarrow> m(w \<mapsto> ts - {i}) | None \<Rightarrow> m) a) {} =
    (if a = w then unwrap_or (m a) {} - {i} else unwrap_or (m a) {})"
  by (cases "m w") auto

lemma token_count_eq: "unwrap_or (map_option card x) 0 = card (unwrap_or x {})"
  by (cases x) simp_all

lemma qn8_invD:
  assumes "qn8_inv t"
  shows "unwrap_or (qn8_owner_tokens t a) {} = qn8_tokens a t"
    and "unat (qn8_balance_of a t) = card (qn8_tokens a t)"
    and "card (qn8_tokens a t) \<le> MAX_TOKENS_PER_OWNER"
    and "qn8_owners t i = Some b \<Longrightarrow> i < qn8_next_token_id t"
    and "qn8_owners t i = Some b \<Longrightarrow> b \<noteq> ZERO_ADDRESS"
    and "dom (qn8_token_approvals t) \<subseteq> dom (qn8_owners t)"
    and "dom (qn8_token_uris t) \<subseteq> dom (qn8_owners t)"
  using assms by (auto simp: qn8_inv_def)

lemma qn8_balance_no_overflow:
  "qn8_inv t \<Longrightarrow> unat (qn8_balance_of a t) + unat (1 :: u64) < 2 ^ 64"
  using qn8_invD(2,3) [of t a] by (simp add: MAX_TOKENS_PER_OWNER_def)

lemma qn8_unat_balance_succ:
  "qn8_inv t \<Longrightarrow> unat (qn8_balance_of a t + 1) = Suc (card (qn8_tokens a t))"
  using qn8_balance_no_overflow [of t a] qn8_invD(2) [of t a]
  by (simp add: unat_add_no_overflow)

lemma qn8_owner_balance:
  assumes "qn8_inv t" "qn8_owners t i = Some a"
  shows "1 \<le> qn8_balance_of a t" "unat (qn8_balance_of a t - 1) = card (qn8_tokens a t - {i})"
proof -
  have i: "i \<in> qn8_tokens a t" using assms(2) by (simp add: qn8_tokens_def)
  then have "0 < unat (qn8_balance_of a t)"
    using qn8_invD(2) [OF assms(1)] by (auto simp: card_gt_0_iff)
  then show le: "1 \<le> qn8_balance_of a t" by (simp add: word_le_nat_alt)
  show "unat (qn8_balance_of a t - 1) = card (qn8_tokens a t - {i})"
    using unat_sub_no_underflow [OF le] qn8_invD(2) [OF assms(1), of a] i
    by (simp add: card_Diff_singleton)
qed


lemma qn8_tokens_moved:
  "qn8_owners t i = Some from \<Longrightarrow> qn8_tokens a (qn8_moved i from to t) =
    (if a = to then insert i (qn8_tokens a t)
     else if a = from then qn8_tokens a t - {i} else qn8_tokens a t)"
  by (auto simp: qn8_tokens_def qn8_moved_def)

lemma qn8_inv_moved:
  assumes inv: "qn8_inv t" and own: "qn8_owners t i = Some from" and ne: "from \<noteq> to"
    and nz: "to \<noteq> ZERO_ADDRESS" and room: "card (qn8_tokens to t) < MAX_TOKENS_PER_OWNER"
  shows "qn8_inv (qn8_moved i from to t)"
proof -
  have notin: "i \<notin> qn8_tokens to t" and isin: "i \<in> qn8_tokens from t"
    using own ne by (auto simp: qn8_tokens_def)
  have "unwrap_or (qn8_owner_tokens (qn8_moved i from to t) a) {} = qn8_tokens a (qn8_moved i from to t)" for a
    using qn8_invD(1) [OF inv] ne notin
    by (simp add: qn8_tokens_moved [OF own]) (simp add: qn8_moved_def)
  moreover have "unat (qn8_balance_of a (qn8_moved i from to t)) = card (qn8_tokens a (qn8_moved i from to t))" for a
    using qn8_invD(2) [OF inv, of a] notin qn8_unat_balance_succ [OF inv, of to]
      qn8_owner_balance(2) [OF inv own]
    by (simp add: qn8_tokens_moved [OF own]) (simp add: qn8_moved_def qn8_balance_of_def)
  moreover have "card (qn8_tokens a (qn8_moved i from to t)) \<le> MAX_TOKENS_PER_OWNER" for a
    using qn8_invD(3) [OF inv, of a] notin room card_Diff1_le [of "qn8_tokens from t" i]
    by (auto simp: qn8_tokens_moved [OF own])
  ultimately show ?thesis
    using inv own nz unfolding qn8_inv_def by (auto simp: qn8_moved_def)
qed

lemma qn8_next_fresh: "qn8_inv t \<Longrightarrow> qn8_owners t (qn8_next_token_id t) = None"
  using qn8_invD(4) [of t "qn8_next_token_id t"] by (cases "qn8_owners t (qn8_next_token_id t)") auto

lemma qn8_tokens_minted:
  "qn8_inv t \<Longrightarrow> qn8_tokens a (qn8_minted to uri t) =
    (if a = to then insert (qn8_next_token_id t) (qn8_tokens a t) else qn8_tokens a t)"
  using qn8_next_fresh [of t] by (auto simp: qn8_tokens_def qn8_minted_def Let_def)

lemma qn8_inv_minted:
  assumes inv: "qn8_inv t" and nz: "to \<noteq> ZERO_ADDRESS"
    and room: "card (qn8_tokens to t) < MAX_TOKENS_PER_OWNER"
    and next_ok: "unat (qn8_next_token_id t) + unat (1 :: u64) < 2 ^ 64"
  shows "qn8_inv (qn8_minted to uri t)"
proof -
  let ?i = "qn8_next_token_id t" and ?t' = "qn8_minted to uri t"
  have notin: "?i \<notin> qn8_tokens to t" using qn8_next_fresh [OF inv] by (simp add: qn8_tokens_def)
  have "unwrap_or (qn8_owner_tokens ?t' a) {} = qn8_tokens a ?t'" for a
    using qn8_invD(1) [OF inv]
    by (simp add: qn8_tokens_minted [OF inv]) (simp add: qn8_minted_def Let_def)
  moreover have "unat (qn8_balance_of a ?t') = card (qn8_tokens a ?t')" for a
    using qn8_invD(2) [OF inv, of a] notin qn8_unat_balance_succ [OF inv, of to]
    by (simp add: qn8_tokens_minted [OF inv]) (simp add: qn8_minted_def qn8_balance_of_def Let_def)
  moreover have "card (qn8_tokens a ?t') \<le> MAX_TOKENS_PER_OWNER" for a
    using qn8_invD(3) [OF inv, of a] notin room by (simp add: qn8_tokens_minted [OF inv])
  moreover have "j < ?i + 1" if "j \<le> ?i" for j
    using that next_ok by (simp add: word_less_nat_alt word_le_nat_alt unat_add_no_overflow)
  ultimately show ?thesis
    using inv nz unfolding qn8_inv_def
    by (auto simp: qn8_minted_def Let_def less_imp_le split: option.splits)
qed

lemma qn8_tokens_burned:
  "qn8_owners t i = Some w \<Longrightarrow> qn8_tokens a (qn8_burned i w t) =
    (if a = w then qn8_tokens a t - {i} else qn8_tokens a t)"
  by (auto simp: qn8_tokens_def qn8_burned_def)

lemma qn8_inv_burned:
  assumes inv: "qn8_inv t" and own: "qn8_owners t i = Some w"
  shows "qn8_inv (qn8_burned i w t)"
proof -
  have "unwrap_or (qn8_owner_tokens (qn8_burned i w t) a) {} = qn8_tokens a (qn8_burned i w t)" for a
    using qn8_invD(1) [OF inv]
    by (simp add: qn8_tokens_burned [OF own]) (simp add: qn8_burned_def owner_tokens_shrink_lookup)
  moreover have "unat (qn8_balance_of a (qn8_burned i w t)) = card (qn8_tokens a (qn8_burned i w t))" for a
    using qn8_invD(2) [OF inv, of a] qn8_owner_balance(2) [OF inv own]
    by (simp add: qn8_tokens_burned [OF own]) (simp add: qn8_burned_def qn8_balance_of_def)
  moreover have "card (qn8_tokens a (qn8_burned i w t)) \<le> MAX_TOKENS_PER_OWNER" for a
    using qn8_invD(3) [OF inv, of a] card_Diff1_le [of "qn8_tokens w t" i]
    by (auto simp: qn8_tokens_burned [OF own])
  ultimately show ?thesis
    using inv unfolding qn8_inv_def by (auto simp: qn8_burned_def split: if_splits)
qed

definition qn8_authorised :: "address \<Rightarrow> u64 \<Rightarrow> qn8_token \<Rightarrow> bool" where
  "qn8_authorised caller i t \<longleftrightarrow> qn8_is_approved_or_owner caller i t = Inr True"

lemma qn8_authorised_iff:
  "qn8_authorised caller i t \<longleftrightarrow>
    (\<exists>w. qn8_owners t i = Some w \<and>
      (caller = w \<or> qn8_token_approvals t i = Some caller \<or> qn8_operator_approvals t (w, caller) = Some True))"
  by (cases "qn8_owners t i"; cases "qn8_token_approvals t i")
     (auto simp: qn8_authorised_def qn8_is_approved_or_owner_def qn8_owner_of_def qn8_get_approved_def
      qn8_is_approved_for_all_def unwrap_or_def split: option.splits)

lemma qn8_owner_of_Some: "qn8_owners t i = Some w \<Longrightarrow> qn8_owner_of i t = Inr w"
  by (simp add: qn8_owner_of_def)

lemma qn8_is_approved_or_owner_Some:
  "qn8_owners t i = Some w \<Longrightarrow> qn8_is_approved_or_owner caller i t = Inr (qn8_authorised caller i t)"
  by (simp add: qn8_authorised_def qn8_is_approved_or_owner_def qn8_owner_of_Some)

lemma qn8_missing:
  "qn8_owners t i = None \<Longrightarrow> qn8_owner_of i t = Inl TokenNotFound"
  "qn8_owners t i = None \<Longrightarrow> qn8_is_approved_or_owner caller i t = Inl TokenNotFound"
  by (simp_all add: qn8_is_approved_or_owner_def qn8_owner_of_def)

lemma qn8_transfer_from_missing:
  "qn8_owners t i = None \<Longrightarrow> \<exists>e. qn8_transfer_from caller from to i t = (Inl e, t)"
  by (simp add: qn8_transfer_from_def rust_eval qn8_missing)

text \<open>The state \<open>transfer_from\<close> leaves when the recipient is full.\<close>

definition qn8_lost :: "u64 \<Rightarrow> address \<Rightarrow> address \<Rightarrow> qn8_token \<Rightarrow> qn8_token" where
  "qn8_lost i from to t =
    t\<lparr>qn8_token_approvals := (qn8_token_approvals t)(i := None),
      qn8_owners := (qn8_owners t)(i \<mapsto> to),
      qn8_owner_tokens := owner_tokens_remove from i (qn8_owner_tokens t)\<rparr>"

lemma qn8_transfer_from_owned:
  assumes inv: "qn8_inv t" and ne: "from \<noteq> to" and own: "qn8_owners t i = Some w"
  shows "qn8_transfer_from caller from to i t =
      (if to = ZERO_ADDRESS then (Inl InvalidAddress, t)
       else if \<not> qn8_authorised caller i t then (Inl NotApproved, t)
       else if w \<noteq> from then (Inl NotOwner, t)
       else if MAX_TOKENS_PER_OWNER \<le> card (qn8_tokens to t)
         then (Inl MaxTokensPerOwnerReached, qn8_lost i from to t)
       else (Inr (TransferNFT from to i), qn8_moved i from to t))"
proof (cases "w = from \<and> to \<noteq> ZERO_ADDRESS \<and> qn8_authorised caller i t")
  case True
  then have bal: "\<not> qn8_balance_of from t < 1"
    using qn8_owner_balance(1) [OF inv own] by (simp only: not_less)
  have "\<not> 2 ^ 64 \<le> unat (qn8_balance_of to t) + unat (1 :: u64)"
    using qn8_balance_no_overflow [OF inv, of to] by simp
  with True bal ne own qn8_invD(1) [OF inv] show ?thesis
    by (simp add: qn8_transfer_from_def rust_eval qn8_is_approved_or_owner_Some qn8_owner_of_Some
        token_count_eq Let_def qn8_balance_of_def qn8_moved_def qn8_lost_def)
next
  case False
  with own show ?thesis
    by (auto simp: qn8_transfer_from_def rust_eval qn8_is_approved_or_owner_Some qn8_owner_of_Some)
qed


lemma qn8_transfer_from_ok:
  assumes inv: "qn8_inv t" and ne: "from \<noteq> to" and ok: "is_ok (qn8_transfer_from caller from to i t)"
  shows "to \<noteq> ZERO_ADDRESS" "qn8_owners t i = Some from" "qn8_authorised caller i t"
    "card (qn8_tokens to t) < MAX_TOKENS_PER_OWNER"
    "snd (qn8_transfer_from caller from to i t) = qn8_moved i from to t"
proof -
  obtain w where own: "qn8_owners t i = Some w"
    using ok qn8_transfer_from_missing [of t i caller "from" to] by (cases "qn8_owners t i") auto
  show "to \<noteq> ZERO_ADDRESS" "qn8_owners t i = Some from" "qn8_authorised caller i t"
    "card (qn8_tokens to t) < MAX_TOKENS_PER_OWNER"
    "snd (qn8_transfer_from caller from to i t) = qn8_moved i from to t"
    using ok own by (auto simp: qn8_transfer_from_owned [OF inv ne own] split: if_splits)
qed

lemma qn8_transfer_from_inv:
  "qn8_inv t \<Longrightarrow> from \<noteq> to \<Longrightarrow> is_ok (qn8_transfer_from caller from to i t) \<Longrightarrow>
   qn8_inv (snd (qn8_transfer_from caller from to i t))"
  by (simp add: qn8_transfer_from_ok qn8_inv_moved)

lemma qn8_inv_guard [simp]: "qn8_inv (t\<lparr>qn8_reentrancy_guard := b\<rparr>) = qn8_inv t"
  by (simp add: qn8_inv_def qn8_tokens_def qn8_balance_of_def)

lemma qn8_safe_transfer_from_ok:
  assumes "is_ok (qn8_safe_transfer_from caller from to i d t)"
  shows "is_ok (qn8_transfer_from caller from to i (t\<lparr>qn8_reentrancy_guard := True\<rparr>))"
    "snd (qn8_safe_transfer_from caller from to i d t) =
      (snd (qn8_transfer_from caller from to i (t\<lparr>qn8_reentrancy_guard := True\<rparr>)))
        \<lparr>qn8_reentrancy_guard := False\<rparr>"
  using assms
  by (auto simp: qn8_safe_transfer_from_def rust_eval Let_def is_ok_def split: if_splits prod.splits)

lemma qn8_safe_transfer_from_inv:
  "qn8_inv t \<Longrightarrow> from \<noteq> to \<Longrightarrow> is_ok (qn8_safe_transfer_from caller from to i d t) \<Longrightarrow>
   qn8_inv (snd (qn8_safe_transfer_from caller from to i d t))"
  using qn8_transfer_from_inv [of "t\<lparr>qn8_reentrancy_guard := True\<rparr>"]
  by (simp add: qn8_safe_transfer_from_ok)

text \<open>The state \<open>mint\<close> leaves when the recipient is full.\<close>

definition qn8_stray :: "address \<Rightarrow> qn8_token \<Rightarrow> qn8_token" where
  "qn8_stray to t =
    t\<lparr>qn8_next_token_id := qn8_next_token_id t + 1,
      qn8_owners := (qn8_owners t)(qn8_next_token_id t \<mapsto> to)\<rparr>"

lemma qn8_mint_alt:
  assumes inv: "qn8_inv t"
  shows "qn8_mint caller to uri t =
    (if caller \<noteq> qn8_owner t then (Inl Unauthorized, t)
     else if to = ZERO_ADDRESS then (Inl InvalidAddress, t)
     else if 2 ^ 64 \<le> unat (qn8_next_token_id t) + unat (1 :: u64) then (Inl Overflow, t)
     else if MAX_TOKENS_PER_OWNER \<le> card (qn8_tokens to t)
       then (Inl MaxTokensPerOwnerReached, qn8_stray to t)
     else (Inr (qn8_next_token_id t, TransferNFT ZERO_ADDRESS to (qn8_next_token_id t)),
           qn8_minted to uri t))"
proof -
  have "\<not> 2 ^ 64 \<le> unat (qn8_balance_of to t) + unat (1 :: u64)"
    using qn8_balance_no_overflow [OF inv, of to] by simp
  with qn8_invD(1) [OF inv] show ?thesis
    by (cases uri) (simp_all add: qn8_mint_def rust_eval Let_def token_count_eq qn8_balance_of_def
        qn8_minted_def qn8_stray_def)
qed

lemma qn8_mint_inv:
  "qn8_inv t \<Longrightarrow> is_ok (qn8_mint caller to uri t) \<Longrightarrow> qn8_inv (snd (qn8_mint caller to uri t))"
  by (auto simp: qn8_mint_alt not_le intro!: qn8_inv_minted split: if_splits)

lemma qn8_mint_loop_inv:
  "qn8_inv t \<Longrightarrow> is_ok (qn8_mint_loop i n caller to uris ids t) \<Longrightarrow>
   qn8_inv (snd (qn8_mint_loop i n caller to uris ids t))"
proof (induction n arbitrary: i ids t)
  case (Suc n)
  let ?u = "if i < length uris then Some (uris ! i) else None"
  obtain r t' where m: "qn8_mint caller to ?u t = (r, t')" by fastforce
  then show ?case
    using Suc.prems Suc.IH [of t'] qn8_mint_inv [of t caller to ?u]
    by (cases r) (auto simp del: if_split)
qed simp

lemma qn8_mint_loop_owners:
  "qn8_inv t \<Longrightarrow> is_ok (qn8_mint_loop k n caller to uris ids t) \<Longrightarrow> qn8_owners t i = Some w \<Longrightarrow>
   qn8_owners (snd (qn8_mint_loop k n caller to uris ids t)) i = Some w"
proof (induction n arbitrary: k ids t)
  case (Suc n)
  let ?u = "if k < length uris then Some (uris ! k) else None"
  obtain r t' where m: "qn8_mint caller to ?u t = (r, t')" by fastforce
  have "qn8_owners (qn8_minted to u t) i = Some w" for u
    using Suc.prems(3) qn8_next_fresh [OF Suc.prems(1)] by (auto simp: qn8_minted_def Let_def)
  with m have t': "is_ok (r, t') \<Longrightarrow> qn8_inv t' \<and> qn8_owners t' i = Some w"
    using qn8_mint_inv [OF Suc.prems(1), of caller to ?u]
    by (auto simp: qn8_mint_alt [OF Suc.prems(1)] simp del: if_split split: if_split_asm)
  from m Suc.prems show ?case
    using Suc.IH [of t'] t' by (cases r) (auto simp del: if_split)
qed simp

lemma qn8_burn_alt:
  assumes inv: "qn8_inv t" and own: "qn8_owners t i = Some w"
  shows "qn8_burn caller i t =
    (if \<not> qn8_authorised caller i t then (Inl NotApproved, t)
     else (Inr (TransferNFT w ZERO_ADDRESS i), qn8_burned i w t))"
proof -
  have "\<not> qn8_balance_of w t < 1"
    using qn8_owner_balance(1) [OF inv own] by (simp only: not_less)
  then show ?thesis
    using own by (cases "qn8_owner_tokens t w") (simp_all add: qn8_burn_def rust_eval Let_def
        qn8_owner_of_Some qn8_is_approved_or_owner_Some qn8_balance_of_def qn8_burned_def)
qed

lemma qn8_burn_missing: "qn8_owners t i = None \<Longrightarrow> qn8_burn caller i t = (Inl TokenNotFound, t)"
  by (simp add: qn8_burn_def qn8_missing)

lemma qn8_burn_inv:
  "qn8_inv t \<Longrightarrow> qn8_inv (snd (qn8_burn caller i t))"
  by (cases "qn8_owners t i") (auto simp: qn8_burn_alt qn8_burn_missing qn8_inv_burned)


lemmas qn8_simple_defs =
  qn8_approve_def qn8_set_approval_for_all_def qn8_register_contract_def
  qn8_register_nft_receiver_def qn8_transfer_ownership_def qn8_accept_ownership_def

lemma qn8_inv_frame:
  "qn8_inv t \<Longrightarrow> qn8_owners t' = qn8_owners t \<Longrightarrow> qn8_owner_tokens t' = qn8_owner_tokens t \<Longrightarrow>
   qn8_balances t' = qn8_balances t \<Longrightarrow> qn8_next_token_id t' = qn8_next_token_id t \<Longrightarrow>
   dom (qn8_token_approvals t') \<subseteq> dom (qn8_owners t) \<Longrightarrow> qn8_token_uris t' = qn8_token_uris t \<Longrightarrow>
   qn8_inv t'"
  by (simp add: qn8_inv_def qn8_tokens_def qn8_balance_of_def)

lemma qn8_approval_exists:
  "qn8_inv t \<Longrightarrow> qn8_token_approvals t i = Some y \<Longrightarrow> \<exists>w. qn8_owners t i = Some w"
  using qn8_invD(6) [of t] by blast

lemma qn8_approve_inv:
  assumes inv: "qn8_inv t"
  shows "qn8_inv (snd (qn8_approve c to i t))"
  using inv
  by (cases "qn8_owners t i") (auto simp: qn8_approve_def qn8_owner_of_Some qn8_missing
      elim!: qn8_inv_frame dest: qn8_approval_exists [OF inv] split: if_splits)

lemma qn8_simple_inv:
  assumes inv: "qn8_inv t"
  shows "qn8_inv (snd (qn8_set_approval_for_all c opr b t))" "qn8_inv (qn8_register_contract a t)"
    "qn8_inv (qn8_register_nft_receiver a t)" "qn8_inv (snd (qn8_transfer_ownership c n t))"
    "qn8_inv (snd (qn8_accept_ownership c t))"
  using inv
  by (auto simp: qn8_simple_defs rust_eval elim!: qn8_inv_frame dest: qn8_approval_exists [OF inv])

lemma qn8_mint_batch_inv:
  "qn8_inv t \<Longrightarrow> is_ok (qn8_mint_batch c to n uris t) \<Longrightarrow> qn8_inv (snd (qn8_mint_batch c to n uris t))"
  by (auto simp: qn8_mint_batch_def rust_eval intro: qn8_mint_loop_inv split: if_splits)

lemmas qn8_op_invs = qn8_transfer_from_inv qn8_safe_transfer_from_inv qn8_mint_inv
  qn8_mint_batch_inv qn8_burn_inv qn8_approve_inv qn8_simple_inv

lemma qn8_call_inv:
  "qn8_inv t \<Longrightarrow> \<not> qn8_self_move x \<Longrightarrow> qn8_call x t = (True, t') \<Longrightarrow> qn8_inv t'"
  by (cases x) (auto simp: Let_def qn8_op_invs)

lemma qn8_new_inv: "qn8_inv (qn8_new n s w u)"
  by (simp add: qn8_inv_def qn8_new_def qn8_tokens_def qn8_balance_of_def)

lemma qn8_reachable_inv: "qn8_reachable t \<Longrightarrow> qn8_inv t"
  by (induction rule: qn8_reachable.induct) (auto simp: qn8_new_inv dest: qn8_call_inv)

lemma qn8_guard_frame [simp]:
  "qn8_reentrancy_guard (snd (qn8_transfer_from c f to i t)) = qn8_reentrancy_guard t"
  "qn8_reentrancy_guard (snd (qn8_mint c to uri t)) = qn8_reentrancy_guard t"
  "qn8_reentrancy_guard (snd (qn8_burn c i t)) = qn8_reentrancy_guard t"
  "qn8_reentrancy_guard (snd (qn8_approve c a i t)) = qn8_reentrancy_guard t"
  by (cases "qn8_owners t i"; cases uri; simp add: qn8_transfer_from_def qn8_mint_def qn8_burn_def
      qn8_approve_def rust_eval Let_def qn8_missing qn8_is_approved_or_owner_Some qn8_owner_of_Some
      split: option.splits)+

lemma qn8_guard_mint_loop [simp]:
  "qn8_reentrancy_guard (snd (qn8_mint_loop i n c to uris ids t)) = qn8_reentrancy_guard t"
proof (induction n arbitrary: i ids t)
  case (Suc n)
  let ?u = "if i < length uris then Some (uris ! i) else None"
  obtain r t' where m: "qn8_mint c to ?u t = (r, t')" by fastforce
  then show ?case
    using Suc.IH qn8_guard_frame(2) [of c to ?u t] by (cases r) (auto simp del: if_split)
qed simp

lemma qn8_guard_stays: "qn8_reentrancy_guard t \<Longrightarrow> qn8_reentrancy_guard (qn8_exec x t)"
  by (cases x) (simp_all add: qn8_exec_def Let_def qn8_set_approval_for_all_def
      qn8_register_contract_def qn8_register_nft_receiver_def qn8_transfer_ownership_def
      qn8_accept_ownership_def qn8_mint_batch_def rust_eval qn8_safe_transfer_from_def)

interpretation qn8_guarded: op_system qn8_exec "\<lambda>_. True" qn8_reentrancy_guard
  by unfold_locales (rule qn8_guard_stays)

lemma qn8_guard_released:
  "\<not> qn8_reentrancy_guard t \<Longrightarrow> qn8_call x t = (True, t') \<Longrightarrow> \<not> qn8_reentrancy_guard t'"
  by (cases x) (auto simp: Let_def qn8_set_approval_for_all_def
      qn8_register_contract_def qn8_register_nft_receiver_def qn8_transfer_ownership_def
      qn8_accept_ownership_def qn8_mint_batch_def rust_eval qn8_safe_transfer_from_def
      split: if_splits prod.splits)

lemma qn8_reachable_guard: "qn8_reachable t \<Longrightarrow> \<not> qn8_reentrancy_guard t"
  by (induction rule: qn8_reachable.induct) (auto simp: qn8_new_def dest: qn8_guard_released)


lemma qn8_card_owners: "card (dom (qn8_owners t)) = (\<Sum>a\<in>ran (qn8_owners t). card (qn8_tokens a t))"
proof -
  have "dom (qn8_owners t) = (\<Union>a\<in>ran (qn8_owners t). qn8_tokens a t)"
    by (auto simp: qn8_tokens_def ran_def)
  moreover have "finite (ran (qn8_owners t))" by (rule finite_ran) (rule finite)
  ultimately show ?thesis
    by (simp only:) (rule card_UN_disjoint, auto simp: qn8_tokens_def)
qed

lemma qn8_reachable_step_owner:
  assumes inv: "qn8_inv t" and call: "qn8_call x t = (True, t')" and nself: "\<not> qn8_self_move x"
    and own: "qn8_owners t i = Some w" and chg: "qn8_owners t' i \<noteq> Some w"
  shows "\<exists>c. qn8_caller x = Some c \<and> qn8_authorised c i t"
proof (cases x)
  case (Qn8TransferFrom c f to j)
  with call nself have "is_ok (qn8_transfer_from c f to j t)" "f \<noteq> to"
    "t' = snd (qn8_transfer_from c f to j t)" by (auto simp: Let_def)
  with Qn8TransferFrom chg own qn8_transfer_from_ok [OF inv, of f to c j] show ?thesis
    by (auto simp: qn8_moved_def split: if_splits)
next
  case (Qn8SafeTransferFrom c f to j d)
  let ?t = "t\<lparr>qn8_reentrancy_guard := True\<rparr>"
  from Qn8SafeTransferFrom call nself have ok: "is_ok (qn8_safe_transfer_from c f to j d t)"
    "f \<noteq> to" "t' = snd (qn8_safe_transfer_from c f to j d t)" by (auto simp: Let_def)
  have "qn8_owners t' = qn8_owners (qn8_moved j f to ?t)" "qn8_authorised c j ?t"
    using ok inv qn8_safe_transfer_from_ok [OF ok(1)] qn8_transfer_from_ok(3,5) [of ?t f to c j] by simp_all
  with Qn8SafeTransferFrom chg own show ?thesis
    by (auto simp: qn8_moved_def qn8_authorised_iff split: if_splits)
next
  case (Qn8Mint c to uri)
  with call have "t' = qn8_minted to uri t" by (auto simp: Let_def qn8_mint_alt [OF inv] split: if_splits)
  with chg own qn8_next_fresh [OF inv] show ?thesis by (auto simp: qn8_minted_def Let_def split: if_splits)
next
  case (Qn8MintBatch c to n uris)
  with call have "is_ok (qn8_mint_batch c to n uris t)" "t' = snd (qn8_mint_batch c to n uris t)"
    by (auto simp: Let_def)
  with qn8_mint_loop_owners [OF inv _ own] chg show ?thesis
    by (auto simp: qn8_mint_batch_def rust_eval split: if_splits)
next
  case (Qn8Burn c j)
  then show ?thesis using call chg own
    by (cases "qn8_owners t j") (auto simp: Let_def qn8_burn_missing qn8_burn_alt [OF inv]
        qn8_burned_def split: if_splits)
qed (use call chg own in \<open>auto simp: Let_def qn8_simple_defs rust_eval qn8_owner_of_Some
  split: if_splits or_return_splits\<close>)

lemma card_ids: "card {i :: u64. 0 < i \<and> i \<le> 100000} = 100000"
proof -
  have "{i :: u64. 0 < i \<and> i \<le> 100000} = of_nat ` {0<..100000}"
  proof (intro set_eqI iffI)
    fix i :: u64 assume "i \<in> {i. 0 < i \<and> i \<le> 100000}"
    then have "unat i \<in> {0<..100000}" by (auto simp: word_le_nat_alt word_less_nat_alt)
    then show "i \<in> of_nat ` {0<..100000}" by (intro image_eqI [of _ _ "unat i"]) simp_all
  qed (auto simp: word_le_nat_alt word_less_nat_alt unat_of_nat)
  moreover have "inj_on (of_nat :: nat \<Rightarrow> u64) {0<..100000}"
    by (rule inj_on_inverseI [of _ unat]) (simp add: unat_of_nat)
  ultimately show ?thesis by (simp add: card_image)
qed

lemma qn8_sample_full_inv: "qn8_inv qn8_sample_full"
proof -
  have tokens: "qn8_tokens a qn8_sample_full = (if a = addr 2 then {i. 0 < i \<and> i \<le> 100000} else {})" for a
    by (auto simp: qn8_tokens_def qn8_sample_full_def)
  then have card: "card (qn8_tokens a qn8_sample_full) = (if a = addr 2 then 100000 else 0)" for a
    by (simp add: card_ids)
  show ?thesis
    unfolding qn8_inv_def unfolding card unfolding tokens
    by (auto simp: MAX_TOKENS_PER_OWNER_def qn8_sample_full_def qn8_new_def qn8_balance_of_def
        word_le_nat_alt word_less_nat_alt)
qed

lemmas qn8_eval = qn8_call.simps Let_def qn8_mint_def qn8_new_def rust_eval token_count_eq
  MAX_TOKENS_PER_OWNER_def owner_tokens_insert_def qn8_balance_of_def qn8_exec_def

lemma qn8_sample_eq:
  "qn8_sample = (qn8_new ''Art'' ''ART'' (addr 1) ''ipfs://'')\<lparr>qn8_owners := [1 \<mapsto> addr 2],
     qn8_owner_tokens := [addr 2 \<mapsto> {1}], qn8_balances := [addr 2 \<mapsto> 1], qn8_next_token_id := 2\<rparr>"
  by (simp add: qn8_sample_def qn8_eval)

lemma qn8_sample_reachable: "qn8_reachable qn8_sample"
  by (rule qn8_reachable.step [OF qn8_reachable.new,
        of "Qn8Mint (addr 1) (addr 2) None" "''Art''" "''ART''" "addr 1" "''ipfs://''"])
     (simp, simp add: qn8_sample_eq, simp add: qn8_eval)

lemma qn8_transfer_from_full:
  assumes "qn8_reachable t" "from \<noteq> to" "qn8_transfer_from caller from to i t = (r, t')"
  shows "is_ok (r, t') \<longleftrightarrow> to \<noteq> ZERO_ADDRESS \<and> qn8_owners t i = Some from \<and>
      (caller = from \<or> qn8_get_approved i t = Some caller \<or> qn8_is_approved_for_all from caller t) \<and>
      card {j. qn8_owners t j = Some to} < MAX_TOKENS_PER_OWNER"
    and "is_ok (r, t') \<Longrightarrow> qn8_owners t' = (qn8_owners t)(i \<mapsto> to) \<and>
      qn8_token_approvals t' = (qn8_token_approvals t)(i := None) \<and>
      qn8_balance_of from t' = qn8_balance_of from t - 1 \<and>
      qn8_balance_of to t' = qn8_balance_of to t + 1 \<and>
      (\<forall>a. a \<noteq> from \<and> a \<noteq> to \<longrightarrow> qn8_balance_of a t' = qn8_balance_of a t)"
proof -
  note inv = qn8_reachable_inv [OF assms(1)]
  show "is_ok (r, t') \<longleftrightarrow> to \<noteq> ZERO_ADDRESS \<and> qn8_owners t i = Some from \<and>
      (caller = from \<or> qn8_get_approved i t = Some caller \<or> qn8_is_approved_for_all from caller t) \<and>
      card {j. qn8_owners t j = Some to} < MAX_TOKENS_PER_OWNER"
  proof (cases "qn8_owners t i")
    case None
    then show ?thesis using qn8_transfer_from_missing [OF None, of caller "from" to] assms(3) by auto
  next
    case (Some w)
    have "qn8_is_approved_for_all w caller t = (qn8_operator_approvals t (w, caller) = Some True)"
      by (cases "qn8_operator_approvals t (w, caller)") (simp_all add: qn8_is_approved_for_all_def)
    then show ?thesis
      using assms(3) qn8_transfer_from_owned [OF inv assms(2) Some, of caller] Some
      by (auto simp: qn8_authorised_iff qn8_get_approved_def qn8_tokens_def split: if_splits)
  qed
  show "is_ok (r, t') \<Longrightarrow> qn8_owners t' = (qn8_owners t)(i \<mapsto> to) \<and>
      qn8_token_approvals t' = (qn8_token_approvals t)(i := None) \<and>
      qn8_balance_of from t' = qn8_balance_of from t - 1 \<and>
      qn8_balance_of to t' = qn8_balance_of to t + 1 \<and>
      (\<forall>a. a \<noteq> from \<and> a \<noteq> to \<longrightarrow> qn8_balance_of a t' = qn8_balance_of a t)"
    using qn8_transfer_from_ok(5) [OF inv assms(2), of caller i] assms(2,3)
    by (auto simp: qn8_moved_def qn8_balance_of_def)
qed

section \<open>Properties\<close>





text \<open>C22: A safe transfer to the zero address is refused but leaves the reentrancy guard
  closed: whatever calls follow, every later safe transfer of any token is refused.\<close>

theorem qn8_zero_address_locks_safe_transfers:
  assumes "qn8_reachable t"
  shows "fst (qn8_safe_transfer_from c from to i d
    (fold qn8_exec xs (snd (qn8_safe_transfer_from c0 from0 ZERO_ADDRESS i0 d0 t)))) = Inl ReentrancyDetected"
proof -
  have "qn8_reentrancy_guard (snd (qn8_safe_transfer_from c0 from0 ZERO_ADDRESS i0 d0 t))"
    using qn8_reachable_guard [OF assms] by (simp add: qn8_safe_transfer_from_def rust_eval Let_def)
  then have "qn8_reentrancy_guard
      (fold qn8_exec xs (snd (qn8_safe_transfer_from c0 from0 ZERO_ADDRESS i0 d0 t)))"
    by (rule qn8_guarded.run_invar) (simp add: list_all_iff)
  then show ?thesis by (simp add: qn8_safe_transfer_from_def)
qed

theorem qn8_zero_address_locks_safe_transfers_witness:
  "fst (qn8_safe_transfer_from (addr 2) (addr 2) (addr 3) 1 []
     (snd (qn8_safe_transfer_from (addr 9) (addr 9) ZERO_ADDRESS 7 [] qn8_sample))) = Inl ReentrancyDetected \<and>
   is_ok (qn8_safe_transfer_from (addr 2) (addr 2) (addr 3) 1 [] qn8_sample)"
proof
  show "fst (qn8_safe_transfer_from (addr 2) (addr 2) (addr 3) 1 []
     (snd (qn8_safe_transfer_from (addr 9) (addr 9) ZERO_ADDRESS 7 [] qn8_sample))) = Inl ReentrancyDetected"
    using qn8_zero_address_locks_safe_transfers [OF qn8_sample_reachable, where xs = "[]"] by simp
  show "is_ok (qn8_safe_transfer_from (addr 2) (addr 2) (addr 3) 1 [] qn8_sample)"
    by (simp add: qn8_safe_transfer_from_def qn8_transfer_from_def qn8_sample_eq qn8_new_def
        rust_eval qn8_is_contract_def qn8_is_approved_or_owner_def qn8_owner_of_def
        owner_tokens_remove_def owner_tokens_insert_def qn8_balance_of_def MAX_TOKENS_PER_OWNER_def Let_def)
qed

text \<open>Between two owners, a transfer hands over exactly one token: it clears the token's
  approval, moves the token from the set and the balance of the old owner to those of the new
  one, and touches no other token; it fails exactly when the recipient is the zero address,
  the token does not exist or is not the sender's, the caller is not authorised or the
  recipient holds the maximum.\<close>

theorem qn8_transfer_from_spec:
  assumes "qn8_reachable t" "from \<noteq> to" "qn8_transfer_from caller from to i t = (r, t')"
  shows "(is_ok (r, t') \<longleftrightarrow> to \<noteq> ZERO_ADDRESS \<and> qn8_owners t i = Some from \<and>
      (caller = from \<or> qn8_get_approved i t = Some caller \<or> qn8_is_approved_for_all from caller t) \<and>
      card {j. qn8_owners t j = Some to} < MAX_TOKENS_PER_OWNER) \<and>
    (is_ok (r, t') \<longrightarrow> qn8_owners t' = (qn8_owners t)(i \<mapsto> to) \<and>
      qn8_token_approvals t' = (qn8_token_approvals t)(i := None) \<and>
      qn8_balance_of from t' = qn8_balance_of from t - 1 \<and>
      qn8_balance_of to t' = qn8_balance_of to t + 1 \<and>
      (\<forall>a. a \<noteq> from \<and> a \<noteq> to \<longrightarrow> qn8_balance_of a t' = qn8_balance_of a t))"
  using qn8_transfer_from_full [OF assms] by blast

theorem qn8_transfer_from_spec_witness:
  "let (r, t') = qn8_transfer_from (addr 2) (addr 2) (addr 3) 1 qn8_sample
   in is_ok (r, t') \<and> qn8_owners t' = [1 \<mapsto> addr 3] \<and> qn8_balance_of (addr 3) t' = 1"
proof -
  obtain r t' where rt: "qn8_transfer_from (addr 2) (addr 2) (addr 3) 1 qn8_sample = (r, t')" by fastforce
  note spec = qn8_transfer_from_spec [OF qn8_sample_reachable _ rt]
  have "is_ok (r, t')" using spec
    by (simp add: qn8_sample_eq MAX_TOKENS_PER_OWNER_def)
  with spec rt show ?thesis by (simp add: qn8_sample_eq qn8_balance_of_def)
qed

text \<open>In a reachable state the tokens listed for an owner are exactly the tokens it owns,
  each listed once, as many as its balance, whatever order the hash set is iterated in.\<close>

theorem qn8_enumeration_complete:
  assumes "hash_iter iter" "qn8_reachable t"
  shows "set (qn8_tokens_of_owner iter a t) = {i. qn8_owner_of i t = Inr a} \<and>
    distinct (qn8_tokens_of_owner iter a t) \<and>
    length (qn8_tokens_of_owner iter a t) = unat (qn8_balance_of a t) \<and>
    set (qn8_all_tokens iter t) = {i. qn8_exists i t}"
proof -
  have iter: "set (iter S) = S \<and> distinct (iter S)" for S :: "u64 set"
    using assms(1) by (simp add: hash_iter_def)
  have inv: "qn8_inv t" using assms(2) by (rule qn8_reachable_inv)
  have "qn8_tokens a t = {i. qn8_owner_of i t = Inr a}"
    by (simp add: qn8_tokens_def qn8_owner_of_def ok_or_eq_Inr)
  then show ?thesis
    using iter [of "dom (qn8_owners t)"] iter [of "qn8_tokens a t"] distinct_card [of "iter (qn8_tokens a t)"]
      qn8_invD(1,2) [OF inv, of a]
    by (cases "qn8_owner_tokens t a")
       (auto simp: qn8_tokens_of_owner_def qn8_all_tokens_def qn8_exists_def)
qed

theorem qn8_enumeration_complete_witness:
  "set (qn8_tokens_of_owner sorted_list_of_set (addr 2) qn8_sample) = {1} \<and>
   hash_iter (sorted_list_of_set :: u64 set \<Rightarrow> u64 list)"
proof -
  have iter: "hash_iter (sorted_list_of_set :: u64 set \<Rightarrow> u64 list)" by (simp add: hash_iter_def)
  show ?thesis
    using qn8_enumeration_complete [OF iter qn8_sample_reachable, of "addr 2"] iter
    by (auto simp: qn8_sample_eq qn8_owner_of_def ok_or_eq_Inr split: if_splits)
qed

text \<open>When the recipient already holds the maximum, \<open>mint\<close> returns an error but the
  token exists: the recipient is its recorded owner while its balance and token set are
  unchanged, so the records of ownership no longer agree.\<close>

theorem qn8_mint_error_leaves_token:
  assumes "qn8_inv t" "fst (qn8_mint c to uri t) = Inl MaxTokensPerOwnerReached"
  shows "qn8_owner_of (qn8_next_token_id t) (snd (qn8_mint c to uri t)) = Inr to \<and>
    qn8_balance_of to (snd (qn8_mint c to uri t)) = qn8_balance_of to t \<and>
    \<not> qn8_inv (snd (qn8_mint c to uri t))"
proof -
  let ?i = "qn8_next_token_id t"
  have t': "snd (qn8_mint c to uri t) = qn8_stray to t"
    using assms(2) by (auto simp: qn8_mint_alt [OF assms(1)] split: if_splits)
  have "unwrap_or (qn8_owner_tokens (qn8_stray to t) to) {} = qn8_tokens to t"
    using qn8_invD(1) [OF assms(1), of to] by (simp add: qn8_stray_def)
  moreover have "?i \<notin> qn8_tokens to t" "?i \<in> qn8_tokens to (qn8_stray to t)"
    using qn8_next_fresh [OF assms(1)] by (simp_all add: qn8_stray_def qn8_tokens_def)
  ultimately have "\<not> qn8_inv (qn8_stray to t)"
    using qn8_invD(1) [of "qn8_stray to t" to] by metis
  then show ?thesis
    unfolding t' by (simp add: qn8_stray_def qn8_owner_of_def qn8_balance_of_def)
qed

theorem qn8_mint_error_leaves_token_witness:
  "fst (qn8_mint (addr 1) (addr 2) None qn8_sample_full) = Inl MaxTokensPerOwnerReached \<and>
   \<not> qn8_inv (snd (qn8_mint (addr 1) (addr 2) None qn8_sample_full))"
proof -
  have "fst (qn8_mint (addr 1) (addr 2) None qn8_sample_full) = Inl MaxTokensPerOwnerReached"
    by (simp add: qn8_mint_def qn8_sample_full_def qn8_new_def rust_eval Let_def card_ids MAX_TOKENS_PER_OWNER_def)
  with qn8_mint_error_leaves_token [OF qn8_sample_full_inv this] show ?thesis by blast
qed

end
