(* ===== verification/QN12.thy ===== *)
theory QN12
  imports Token_Base
begin

text \<open>
  The multi-token QN12 (\<open>standards/qn12.rs\<close>): single and batch transfers, mints and burns
  over balances keyed by token id and account, with a recorded supply per token id.
\<close>

section \<open>State\<close>

record qn12_token =
  qn12_name :: string
  qn12_owner :: address
  qn12_pending_owner :: "address option"
  qn12_balances :: "u64 \<times> address \<rightharpoonup> u64"
  qn12_operator_approvals :: "address \<times> address \<rightharpoonup> bool"
  qn12_token_uris :: "u64 \<rightharpoonup> string"
  qn12_token_supplies :: "u64 \<rightharpoonup> u64"
  qn12_base_uri :: string
  qn12_next_token_id :: u64

definition QN12_MAX_BATCH_SIZE :: nat where
  "QN12_MAX_BATCH_SIZE = 1000"

section \<open>Inherent operations and queries\<close>

definition qn12_new :: "string \<Rightarrow> address \<Rightarrow> string \<Rightarrow> qn12_token" where
  "qn12_new name owner base_uri =
    \<lparr> qn12_name = name, qn12_owner = owner, qn12_pending_owner = None, qn12_balances = Map.empty,
      qn12_operator_approvals = Map.empty, qn12_token_uris = Map.empty,
      qn12_token_supplies = Map.empty, qn12_base_uri = base_uri, qn12_next_token_id = 1 \<rparr>"

definition qn12_check_owner :: "address \<Rightarrow> qn12_token \<Rightarrow> unit token_result" where
  "qn12_check_owner caller t = (if caller \<noteq> qn12_owner t then Inl Unauthorized else Inr ())"

definition qn12_is_approved_for_all :: "address \<Rightarrow> address \<Rightarrow> qn12_token \<Rightarrow> bool" where
  "qn12_is_approved_for_all account operator t =
    unwrap_or (qn12_operator_approvals t (account, operator)) False"

definition qn12_is_approved_or_owner :: "address \<Rightarrow> address \<Rightarrow> qn12_token \<Rightarrow> bool" where
  "qn12_is_approved_or_owner caller from t \<longleftrightarrow>
    caller = from \<or> qn12_is_approved_for_all from caller t"

definition qn12_transfer_ownership ::
  "address \<Rightarrow> address \<Rightarrow> qn12_token \<Rightarrow> unit token_result \<times> qn12_token" where
  "qn12_transfer_ownership caller new_owner t =
    or_return (qn12_check_owner caller t) t (\<lambda>_.
    or_return (check_not_zero_address new_owner) t (\<lambda>_.
    (Inr (), t\<lparr>qn12_pending_owner := Some new_owner\<rparr>)))"

definition qn12_accept_ownership :: "address \<Rightarrow> qn12_token \<Rightarrow> unit token_result \<times> qn12_token" where
  "qn12_accept_ownership caller t =
    (if qn12_pending_owner t \<noteq> Some caller then (Inl Unauthorized, t)
     else (Inr (), t\<lparr>qn12_owner := caller, qn12_pending_owner := None\<rparr>))"

definition qn12_uri :: "u64 \<Rightarrow> qn12_token \<Rightarrow> string" where
  "qn12_uri token_id t =
    (case qn12_token_uris t token_id of
       Some uri \<Rightarrow> uri
     | None \<Rightarrow> qn12_base_uri t @ decimal (unat token_id) @ ''.json'')"

definition qn12_balance_of :: "address \<Rightarrow> u64 \<Rightarrow> qn12_token \<Rightarrow> u64" where
  "qn12_balance_of account token_id t = unwrap_or (qn12_balances t (token_id, account)) 0"

definition qn12_balance_of_batch ::
  "address list \<Rightarrow> u64 list \<Rightarrow> qn12_token \<Rightarrow> u64 list token_result" where
  "qn12_balance_of_batch accounts token_ids t =
    (if length accounts \<noteq> length token_ids then Inl ArrayLengthMismatch
     else Inr (map (\<lambda>(account, token_id). qn12_balance_of account token_id t) (zip accounts token_ids)))"

definition qn12_set_approval_for_all ::
  "address \<Rightarrow> address \<Rightarrow> bool \<Rightarrow> qn12_token \<Rightarrow> token_event token_result \<times> qn12_token" where
  "qn12_set_approval_for_all caller operator approved t =
    (if caller = operator then (Inl InvalidAddress, t)
     else (Inr (ApprovalForAll caller operator approved),
           t\<lparr>qn12_operator_approvals :=
              (qn12_operator_approvals t)((caller, operator) \<mapsto> approved)\<rparr>))"

definition qn12_total_supply :: "u64 \<Rightarrow> qn12_token \<Rightarrow> u64" where
  "qn12_total_supply token_id t = unwrap_or (qn12_token_supplies t token_id) 0"

definition qn12_exists :: "u64 \<Rightarrow> qn12_token \<Rightarrow> bool" where
  "qn12_exists token_id t = (qn12_token_supplies t token_id \<noteq> None)"

section \<open>Transfers\<close>

definition qn12_safe_transfer_from ::
  "address \<Rightarrow> address \<Rightarrow> address \<Rightarrow> u64 \<Rightarrow> u64 \<Rightarrow> bytes \<Rightarrow> qn12_token \<Rightarrow>
    token_event token_result \<times> qn12_token" where
  "qn12_safe_transfer_from caller from to token_id amount data t =
    or_return (check_not_zero_address to) t (\<lambda>_.
    if \<not> qn12_is_approved_or_owner caller from t then (Inl NotApproved, t) else
    let from_balance = qn12_balance_of from token_id t in
    if from_balance < amount then (Inl InsufficientBalance, t) else
    let to_balance = qn12_balance_of to token_id t in
    or_return (ok_or (checked_sub from_balance amount) Underflow) t (\<lambda>new_from.
    or_return (ok_or (checked_add to_balance amount) Overflow) t (\<lambda>new_to.
    let t = t\<lparr>qn12_balances := (qn12_balances t)((token_id, from) \<mapsto> new_from)\<rparr>;
        t = t\<lparr>qn12_balances := (qn12_balances t)((token_id, to) \<mapsto> new_to)\<rparr>
    in (Inr (TransferSingle caller from to token_id amount), t))))"

text \<open>The two loops of the batch operations: the check of all balances, then the updates,
  each of which may return early with the updates made so far.\<close>

fun qn12_check_balances :: "address \<Rightarrow> (u64 \<times> u64) list \<Rightarrow> qn12_token \<Rightarrow> unit token_result" where
  "qn12_check_balances from [] t = Inr ()"
| "qn12_check_balances from ((token_id, amount) # rest) t =
    (if qn12_balance_of from token_id t < amount then Inl InsufficientBalance
     else qn12_check_balances from rest t)"

fun qn12_transfer_loop ::
  "address \<Rightarrow> address \<Rightarrow> (u64 \<times> u64) list \<Rightarrow> qn12_token \<Rightarrow> unit token_result \<times> qn12_token" where
  "qn12_transfer_loop from to [] t = (Inr (), t)"
| "qn12_transfer_loop from to ((token_id, amount) # rest) t =
    (let from_bal = qn12_balance_of from token_id t;
         to_bal = qn12_balance_of to token_id t in
     or_return (ok_or (checked_sub from_bal amount) Underflow) t (\<lambda>new_from.
     or_return (ok_or (checked_add to_bal amount) Overflow) t (\<lambda>new_to.
     let t = t\<lparr>qn12_balances := (qn12_balances t)((token_id, from) \<mapsto> new_from)\<rparr>;
         t = t\<lparr>qn12_balances := (qn12_balances t)((token_id, to) \<mapsto> new_to)\<rparr>
     in qn12_transfer_loop from to rest t)))"

definition qn12_safe_batch_transfer_from ::
  "address \<Rightarrow> address \<Rightarrow> address \<Rightarrow> u64 list \<Rightarrow> u64 list \<Rightarrow> bytes \<Rightarrow> qn12_token \<Rightarrow>
    token_event token_result \<times> qn12_token" where
  "qn12_safe_batch_transfer_from caller from to token_ids amounts data t =
    or_return (check_not_zero_address to) t (\<lambda>_.
    if length token_ids > QN12_MAX_BATCH_SIZE then (Inl BatchSizeTooLarge, t) else
    if length token_ids \<noteq> length amounts then (Inl ArrayLengthMismatch, t) else
    if \<not> qn12_is_approved_or_owner caller from t then (Inl NotApproved, t) else
    or_return (qn12_check_balances from (zip token_ids amounts) t) t (\<lambda>_.
    let (r, t) = qn12_transfer_loop from to (zip token_ids amounts) t in
    or_return r t (\<lambda>_. (Inr (TransferBatch caller from to token_ids amounts), t))))"

section \<open>Mint\<close>

text \<open>The two updates that \<open>mint\<close> and \<open>mint_batch\<close> make for one token id.\<close>

definition qn12_credit ::
  "address \<Rightarrow> u64 \<Rightarrow> u64 \<Rightarrow> qn12_token \<Rightarrow> unit token_result \<times> qn12_token" where
  "qn12_credit to token_id amount t =
    or_return (ok_or (checked_add (unwrap_or (qn12_balances t (token_id, to)) 0) amount) Overflow) t
      (\<lambda>new_balance.
    let t = t\<lparr>qn12_balances := (qn12_balances t)((token_id, to) \<mapsto> new_balance)\<rparr> in
    or_return (ok_or (checked_add (unwrap_or (qn12_token_supplies t token_id) 0) amount) Overflow) t
      (\<lambda>new_supply.
    (Inr (), t\<lparr>qn12_token_supplies := (qn12_token_supplies t)(token_id \<mapsto> new_supply)\<rparr>)))"

definition qn12_mint ::
  "address \<Rightarrow> address \<Rightarrow> u64 \<Rightarrow> u64 \<Rightarrow> string option \<Rightarrow> qn12_token \<Rightarrow>
    token_event token_result \<times> qn12_token" where
  "qn12_mint caller to token_id amount uri t =
    or_return (qn12_check_owner caller t) t (\<lambda>_.
    or_return (check_not_zero_address to) t (\<lambda>_.
    let (r, t) = qn12_credit to token_id amount t in
    or_return r t (\<lambda>_.
    let t = (case uri of
               Some u \<Rightarrow> t\<lparr>qn12_token_uris := (qn12_token_uris t)(token_id \<mapsto> u)\<rparr>
             | None \<Rightarrow> t)
    in (Inr (TransferSingle caller ZERO_ADDRESS to token_id amount), t))))"

fun qn12_check_duplicates :: "u64 set \<Rightarrow> u64 list \<Rightarrow> unit token_result" where
  "qn12_check_duplicates seen [] = Inr ()"
| "qn12_check_duplicates seen (i # ids) =
    (if i \<in> seen then Inl DuplicateTokenId else qn12_check_duplicates (insert i seen) ids)"

fun qn12_credit_loop ::
  "address \<Rightarrow> (u64 \<times> u64) list \<Rightarrow> qn12_token \<Rightarrow> unit token_result \<times> qn12_token" where
  "qn12_credit_loop to [] t = (Inr (), t)"
| "qn12_credit_loop to ((token_id, amount) # rest) t =
    (let (r, t) = qn12_credit to token_id amount t
     in or_return r t (\<lambda>_. qn12_credit_loop to rest t))"

definition qn12_mint_batch ::
  "address \<Rightarrow> address \<Rightarrow> u64 list \<Rightarrow> u64 list \<Rightarrow> qn12_token \<Rightarrow>
    token_event token_result \<times> qn12_token" where
  "qn12_mint_batch caller to token_ids amounts t =
    or_return (qn12_check_owner caller t) t (\<lambda>_.
    or_return (check_not_zero_address to) t (\<lambda>_.
    if length token_ids \<noteq> length amounts then (Inl ArrayLengthMismatch, t) else
    if length token_ids > QN12_MAX_BATCH_SIZE then (Inl BatchSizeTooLarge, t) else
    or_return (qn12_check_duplicates {} token_ids) t (\<lambda>_.
    let (r, t) = qn12_credit_loop to (zip token_ids amounts) t in
    or_return r t (\<lambda>_.
    (Inr (TransferBatch caller ZERO_ADDRESS to token_ids amounts), t)))))"

definition qn12_create_token ::
  "address \<Rightarrow> u64 \<Rightarrow> string \<Rightarrow> qn12_token \<Rightarrow> u64 token_result \<times> qn12_token" where
  "qn12_create_token caller initial_supply uri t =
    or_return (qn12_check_owner caller t) t (\<lambda>_.
    let token_id = qn12_next_token_id t in
    or_return (ok_or (checked_add (qn12_next_token_id t) 1) Overflow) t (\<lambda>next_id.
    let t = t\<lparr>qn12_next_token_id := next_id\<rparr>;
        t = t\<lparr>qn12_token_uris := (qn12_token_uris t)(token_id \<mapsto> uri)\<rparr>;
        t = (if initial_supply > 0
             then t\<lparr>qn12_balances := (qn12_balances t)((token_id, caller) \<mapsto> initial_supply),
                    qn12_token_supplies := (qn12_token_supplies t)(token_id \<mapsto> initial_supply)\<rparr>
             else t)
    in (Inr token_id, t)))"

section \<open>Burn\<close>

definition qn12_burn ::
  "address \<Rightarrow> address \<Rightarrow> u64 \<Rightarrow> u64 \<Rightarrow> qn12_token \<Rightarrow> token_event token_result \<times> qn12_token" where
  "qn12_burn caller from token_id amount t =
    (if \<not> qn12_is_approved_or_owner caller from t then (Inl NotApproved, t) else
     let from_balance = qn12_balance_of from token_id t in
     if from_balance < amount then (Inl InsufficientBalance, t) else
     or_return (ok_or (checked_sub from_balance amount) Underflow) t (\<lambda>new_balance.
     let current_supply = unwrap_or (qn12_token_supplies t token_id) 0 in
     or_return (ok_or (checked_sub current_supply amount) Underflow) t (\<lambda>new_supply.
     let t = t\<lparr>qn12_balances := (qn12_balances t)((token_id, from) \<mapsto> new_balance)\<rparr>;
         t = t\<lparr>qn12_token_supplies := (qn12_token_supplies t)(token_id \<mapsto> new_supply)\<rparr>
     in (Inr (TransferSingle caller from ZERO_ADDRESS token_id amount), t))))"

fun qn12_burn_loop ::
  "address \<Rightarrow> (u64 \<times> u64) list \<Rightarrow> qn12_token \<Rightarrow> unit token_result \<times> qn12_token" where
  "qn12_burn_loop from [] t = (Inr (), t)"
| "qn12_burn_loop from ((token_id, amount) # rest) t =
    (let balance = unwrap_or (qn12_balances t (token_id, from)) 0 in
     or_return (ok_or (checked_sub balance amount) Underflow) t (\<lambda>new_balance.
     let t = t\<lparr>qn12_balances := (qn12_balances t)((token_id, from) \<mapsto> new_balance)\<rparr>;
         supply = unwrap_or (qn12_token_supplies t token_id) 0 in
     or_return (ok_or (checked_sub supply amount) Underflow) t (\<lambda>new_supply.
     let t = t\<lparr>qn12_token_supplies := (qn12_token_supplies t)(token_id \<mapsto> new_supply)\<rparr>
     in qn12_burn_loop from rest t)))"

definition qn12_burn_batch ::
  "address \<Rightarrow> address \<Rightarrow> u64 list \<Rightarrow> u64 list \<Rightarrow> qn12_token \<Rightarrow>
    token_event token_result \<times> qn12_token" where
  "qn12_burn_batch caller from token_ids amounts t =
    (if length token_ids > QN12_MAX_BATCH_SIZE then (Inl BatchSizeTooLarge, t) else
     if length token_ids \<noteq> length amounts then (Inl ArrayLengthMismatch, t) else
     if \<not> qn12_is_approved_or_owner caller from t then (Inl NotApproved, t) else
     or_return (qn12_check_balances from (zip token_ids amounts) t) t (\<lambda>_.
     let (r, t) = qn12_burn_loop from (zip token_ids amounts) t in
     or_return r t (\<lambda>_.
     (Inr (TransferBatch caller from ZERO_ADDRESS token_ids amounts), t))))"

section \<open>Calls\<close>

datatype qn12_op =
    Qn12SetApprovalForAll address address bool
  | Qn12SafeTransferFrom address address address u64 u64 bytes
  | Qn12SafeBatchTransferFrom address address address "u64 list" "u64 list" bytes
  | Qn12Mint address address u64 u64 "string option"
  | Qn12MintBatch address address "u64 list" "u64 list"
  | Qn12CreateToken address u64 string
  | Qn12Burn address address u64 u64
  | Qn12BurnBatch address address "u64 list" "u64 list"
  | Qn12TransferOwnership address address
  | Qn12AcceptOwnership address

fun qn12_call :: "qn12_op \<Rightarrow> qn12_token \<Rightarrow> bool \<times> qn12_token" where
  "qn12_call (Qn12SetApprovalForAll c opr b) t =
    (let r = qn12_set_approval_for_all c opr b t in (is_ok r, snd r))"
| "qn12_call (Qn12SafeTransferFrom c from to i v d) t =
    (let r = qn12_safe_transfer_from c from to i v d t in (is_ok r, snd r))"
| "qn12_call (Qn12SafeBatchTransferFrom c from to ids vs d) t =
    (let r = qn12_safe_batch_transfer_from c from to ids vs d t in (is_ok r, snd r))"
| "qn12_call (Qn12Mint c to i v uri) t = (let r = qn12_mint c to i v uri t in (is_ok r, snd r))"
| "qn12_call (Qn12MintBatch c to ids vs) t = (let r = qn12_mint_batch c to ids vs t in (is_ok r, snd r))"
| "qn12_call (Qn12CreateToken c v uri) t = (let r = qn12_create_token c v uri t in (is_ok r, snd r))"
| "qn12_call (Qn12Burn c from i v) t = (let r = qn12_burn c from i v t in (is_ok r, snd r))"
| "qn12_call (Qn12BurnBatch c from ids vs) t =
    (let r = qn12_burn_batch c from ids vs t in (is_ok r, snd r))"
| "qn12_call (Qn12TransferOwnership c n) t =
    (let r = qn12_transfer_ownership c n t in (is_ok r, snd r))"
| "qn12_call (Qn12AcceptOwnership c) t = (let r = qn12_accept_ownership c t in (is_ok r, snd r))"

text \<open>The discipline the code does not enforce: no account sends to itself, and \<open>mint\<close>
  names only token ids that \<open>create_token\<close> has handed out.\<close>

fun qn12_disciplined :: "qn12_op \<Rightarrow> qn12_token \<Rightarrow> bool" where
  "qn12_disciplined (Qn12SafeTransferFrom c from to i v d) t = (from \<noteq> to)"
| "qn12_disciplined (Qn12SafeBatchTransferFrom c from to ids vs d) t = (from \<noteq> to)"
| "qn12_disciplined (Qn12Mint c to i v uri) t = (i < qn12_next_token_id t)"
| "qn12_disciplined (Qn12MintBatch c to ids vs) t = list_all (\<lambda>i. i < qn12_next_token_id t) ids"
| "qn12_disciplined _ t = True"

inductive qn12_reachable :: "qn12_token \<Rightarrow> bool" where
  new: "qn12_reachable (qn12_new n w u)"
| step: "qn12_reachable t \<Longrightarrow> qn12_disciplined x t \<Longrightarrow> qn12_call x t = (True, t') \<Longrightarrow> qn12_reachable t'"

section \<open>The supply invariant\<close>

definition qn12_row :: "u64 \<Rightarrow> qn12_token \<Rightarrow> address \<rightharpoonup> u64" where
  "qn12_row i t = (\<lambda>a. qn12_balances t (i, a))"

definition qn12_inv :: "qn12_token \<Rightarrow> bool" where
  "qn12_inv t \<longleftrightarrow>
    (\<forall>i. finite (dom (qn12_row i t)) \<and> val_sum (qn12_row i t) = unat (qn12_total_supply i t)) \<and>
    (\<forall>i. qn12_next_token_id t \<le> i \<longrightarrow> qn12_total_supply i t = 0)"

definition qn12_moved :: "address \<Rightarrow> address \<Rightarrow> u64 \<Rightarrow> u64 \<Rightarrow> qn12_token \<Rightarrow> qn12_token" where
  "qn12_moved from to i v t =
    t\<lparr>qn12_balances := (qn12_balances t)((i, from) \<mapsto> qn12_balance_of from i t - v,
                                         (i, to) \<mapsto> qn12_balance_of to i t + v)\<rparr>"

definition qn12_credited :: "address \<Rightarrow> u64 \<Rightarrow> u64 \<Rightarrow> qn12_token \<Rightarrow> qn12_token" where
  "qn12_credited to i v t =
    t\<lparr>qn12_balances := (qn12_balances t)((i, to) \<mapsto> qn12_balance_of to i t + v),
      qn12_token_supplies := (qn12_token_supplies t)(i \<mapsto> qn12_total_supply i t + v)\<rparr>"

definition qn12_debited :: "address \<Rightarrow> u64 \<Rightarrow> u64 \<Rightarrow> qn12_token \<Rightarrow> qn12_token" where
  "qn12_debited from i v t =
    t\<lparr>qn12_balances := (qn12_balances t)((i, from) \<mapsto> qn12_balance_of from i t - v),
      qn12_token_supplies := (qn12_token_supplies t)(i \<mapsto> qn12_total_supply i t - v)\<rparr>"

text \<open>A contract in which \<open>addr 1\<close> created token 1 with 100 units.\<close>

definition qn12_sample :: qn12_token where
  "qn12_sample = (qn12_new ''Items'' (addr 1) ''u/'')
     \<lparr>qn12_balances := [(1, addr 1) \<mapsto> 100], qn12_token_supplies := [1 \<mapsto> 100],
      qn12_token_uris := [1 \<mapsto> ''gold''], qn12_next_token_id := 2\<rparr>"

text \<open>A contract in which token 1 was created with the largest supply.\<close>

definition qn12_sample_max :: qn12_token where
  "qn12_sample_max = (qn12_new ''Items'' (addr 1) ''u/'')
     \<lparr>qn12_balances := [(1, addr 1) \<mapsto> max_value], qn12_token_supplies := [1 \<mapsto> max_value],
      qn12_token_uris := [1 \<mapsto> ''gold''], qn12_next_token_id := 2\<rparr>"

section \<open>Lemmas\<close>

declare qn12_check_owner_def [rust_eval]

lemma qn12_invD:
  assumes "qn12_inv t"
  shows "finite (dom (qn12_row i t))"
    and "val_sum (qn12_row i t) = unat (qn12_total_supply i t)"
    and "qn12_next_token_id t \<le> i \<Longrightarrow> qn12_total_supply i t = 0"
  using assms by (auto simp: qn12_inv_def)

lemma qn12_balance_row: "qn12_balance_of a i t = unwrap_or (qn12_row i t a) 0"
  by (simp add: qn12_balance_of_def qn12_row_def)

lemma qn12_row_update [simp]:
  "qn12_row j (t\<lparr>qn12_balances := (qn12_balances t)((i, a) \<mapsto> v)\<rparr>) =
    (if j = i then (qn12_row i t)(a \<mapsto> v) else qn12_row j t)"
  by (auto simp: qn12_row_def)

lemma qn12_inv_update:
  assumes "qn12_inv t" "\<And>j. j \<noteq> i \<Longrightarrow> qn12_row j t' = qn12_row j t"
    and "\<And>j. j \<noteq> i \<Longrightarrow> qn12_total_supply j t' = qn12_total_supply j t"
    and "finite (dom (qn12_row i t'))" "val_sum (qn12_row i t') = unat (qn12_total_supply i t')"
    and "qn12_next_token_id t \<le> qn12_next_token_id t'"
    and "qn12_next_token_id t' \<le> i \<Longrightarrow> qn12_total_supply i t' = 0"
  shows "qn12_inv t'"
  unfolding qn12_inv_def
proof (intro conjI allI impI)
  fix j
  show "finite (dom (qn12_row j t'))" "val_sum (qn12_row j t') = unat (qn12_total_supply j t')"
    using assms(2,3) [of j] assms(4,5) qn12_invD(1,2) [OF assms(1), of j] by (cases "j = i"; simp)+
  show "qn12_total_supply j t' = 0" if "qn12_next_token_id t' \<le> j"
    using that assms(3) [of j] assms(6,7) qn12_invD(3) [OF assms(1), of j] by (cases "j = i") auto
qed

lemma qn12_inv_frame:
  "qn12_inv t \<Longrightarrow> qn12_balances t' = qn12_balances t \<Longrightarrow>
   qn12_token_supplies t' = qn12_token_supplies t \<Longrightarrow>
   qn12_next_token_id t \<le> qn12_next_token_id t' \<Longrightarrow> qn12_inv t'"
  by (auto simp: qn12_inv_def qn12_row_def qn12_total_supply_def)

text \<open>The balances of one token id are a ledger whose total is the supply of that id.\<close>

interpretation qn12l: ledger
  "\<lambda>(t, i) a. unat (qn12_balance_of a i t)" "\<lambda>(t, i). dom (qn12_row i t)"
  "\<lambda>(t, i). unat (qn12_total_supply i t)" "\<lambda>(t, i). qn12_inv t"
proof (unfold_locales, goal_cases)
  case (1 s)
  then show ?case by (auto simp: qn12_invD)
next
  case (2 s a)
  then show ?case by (cases s) (simp add: qn12_balance_row domIff)
next
  case (3 s)
  obtain t i where s: "s = (t, i)" by fastforce
  have "(\<Sum>a\<in>dom (qn12_row i t). unat (qn12_balance_of a i t)) = val_sum (qn12_row i t)"
    unfolding val_sum_def by (rule sum.cong) (auto simp: qn12_balance_row)
  with 3 s show ?case by (simp add: qn12_invD(2))
qed

lemmas qn12_bal_le = qn12l.bal_le_total [where s = "(t, i)" for t i, simplified]
lemmas qn12_pair_le = qn12l.pair_le_total [where s = "(t, i)" for t i, simplified]

lemma qn12_no_overflow:
  assumes "qn12_inv t" "from \<noteq> to" "v \<le> qn12_balance_of from i t"
  shows "unat (qn12_balance_of to i t) + unat v < 2 ^ 64"
  using qn12_pair_le [OF assms(1,2), of i] assms(3) unat_u64_less [of "qn12_total_supply i t"]
  by (simp add: word_le_nat_alt)

lemma qn12_inv_moved:
  assumes inv: "qn12_inv t" and ne: "from \<noteq> to" and le: "v \<le> qn12_balance_of from i t"
  shows "qn12_inv (qn12_moved from to i v t)"
proof -
  let ?m = "qn12_row i t" and ?f = "qn12_balance_of from i t" and ?g = "qn12_balance_of to i t"
  have fin: "finite (dom ?m)" using inv by (rule qn12_invD)
  have row: "qn12_row j (qn12_moved from to i v t) =
      (if j = i then ?m(from \<mapsto> ?f - v, to \<mapsto> ?g + v) else qn12_row j t)" for j
    by (auto simp: qn12_row_def qn12_moved_def)
  have "val_sum (?m(from \<mapsto> ?f - v)) + unat ?f = val_sum ?m + unat (?f - v)"
    using val_sum_upd [OF fin, of "from" "?f - v"] by (simp add: qn12_balance_row)
  moreover have "val_sum (?m(from \<mapsto> ?f - v, to \<mapsto> ?g + v)) + unat ?g
      = val_sum (?m(from \<mapsto> ?f - v)) + unat (?g + v)"
    using val_sum_upd [of "?m(from \<mapsto> ?f - v)" to "?g + v"] fin ne by (simp add: qn12_balance_row)
  moreover have "unat (?g + v) = unat ?g + unat v"
    using unat_add_no_overflow [of ?g v] qn12_no_overflow [OF inv ne le] by simp
  moreover have "unat (?f - v) = unat ?f - unat v" "unat v \<le> unat ?f"
    using le by (simp_all add: unat_sub_no_underflow word_le_nat_alt)
  ultimately have sum: "val_sum (?m(from \<mapsto> ?f - v, to \<mapsto> ?g + v)) = val_sum ?m" by linarith
  have "qn12_total_supply j (qn12_moved from to i v t) = qn12_total_supply j t"
    "qn12_next_token_id (qn12_moved from to i v t) = qn12_next_token_id t" for j
    by (simp_all add: qn12_moved_def qn12_total_supply_def)
  then show ?thesis
    using inv fin sum by (intro qn12_inv_update [OF inv, of i]) (simp_all add: row qn12_invD)
qed

lemma qn12_inv_credited:
  assumes inv: "qn12_inv t" and s: "unat (qn12_total_supply i t) + unat v < 2 ^ 64"
    and id: "i < qn12_next_token_id t"
  shows "qn12_inv (qn12_credited to i v t)"
proof -
  let ?m = "qn12_row i t" and ?g = "qn12_balance_of to i t"
  have "unat ?g + unat v < 2 ^ 64" using qn12_bal_le [OF inv, of to i] s by simp
  then have u: "unat (?g + v) = unat ?g + unat v"
    "unat (qn12_total_supply i t + v) = unat (qn12_total_supply i t) + unat v"
    using s by (simp_all add: unat_add_no_overflow)
  have row: "qn12_row j (qn12_credited to i v t) = (if j = i then ?m(to \<mapsto> ?g + v) else qn12_row j t)"
    "qn12_total_supply j (qn12_credited to i v t) =
      (if j = i then qn12_total_supply i t + v else qn12_total_supply j t)"
    "qn12_next_token_id (qn12_credited to i v t) = qn12_next_token_id t" for j
    by (auto simp: qn12_row_def qn12_credited_def qn12_total_supply_def)
  show ?thesis
    using val_sum_upd [OF qn12_invD(1) [OF inv], of i to "?g + v"] u qn12_invD(1,2) [OF inv, of i] id
    by (intro qn12_inv_update [OF inv, of i]) (simp_all add: row qn12_balance_row)
qed

lemma qn12_inv_debited:
  assumes inv: "qn12_inv t" and le: "v \<le> qn12_balance_of from i t"
  shows "qn12_inv (qn12_debited from i v t)"
proof -
  let ?m = "qn12_row i t" and ?f = "qn12_balance_of from i t"
  have le': "v \<le> qn12_total_supply i t"
    using qn12_bal_le [OF inv, of "from" i] le by (simp add: word_le_nat_alt)
  have u: "unat (?f - v) = unat ?f - unat v" "unat v \<le> unat ?f"
    "unat (qn12_total_supply i t - v) = unat (qn12_total_supply i t) - unat v"
    "unat v \<le> unat (qn12_total_supply i t)"
    using le le' by (simp_all add: unat_sub_no_underflow word_le_nat_alt)
  have row: "qn12_row j (qn12_debited from i v t) = (if j = i then ?m(from \<mapsto> ?f - v) else qn12_row j t)"
    "qn12_total_supply j (qn12_debited from i v t) =
      (if j = i then qn12_total_supply i t - v else qn12_total_supply j t)"
    "qn12_next_token_id (qn12_debited from i v t) = qn12_next_token_id t" for j
    by (auto simp: qn12_row_def qn12_debited_def qn12_total_supply_def)
  have z: "qn12_next_token_id t \<le> i \<Longrightarrow> qn12_total_supply i t - v = 0"
    using qn12_invD(3) [OF inv, of i] le' by simp
  show ?thesis
    using val_sum_upd [OF qn12_invD(1) [OF inv], of i "from" "?f - v"] u qn12_invD(1,2) [OF inv, of i] z
    by (intro qn12_inv_update [OF inv, of i]) (simp_all add: row qn12_balance_row)
qed


lemma qn12_safe_transfer_from_alt:
  "qn12_safe_transfer_from caller from to i v d t =
    (if to = ZERO_ADDRESS then (Inl InvalidAddress, t)
     else if \<not> qn12_is_approved_or_owner caller from t then (Inl NotApproved, t)
     else if qn12_balance_of from i t < v then (Inl InsufficientBalance, t)
     else if 2 ^ 64 \<le> unat (qn12_balance_of to i t) + unat v then (Inl Overflow, t)
     else (Inr (TransferSingle caller from to i v), qn12_moved from to i v t))"
  by (simp add: qn12_safe_transfer_from_def rust_eval Let_def qn12_moved_def)

lemma qn12_transfer_loop_Cons:
  "qn12_transfer_loop from to ((i, v) # ps) t =
    (if qn12_balance_of from i t < v then (Inl Underflow, t)
     else if 2 ^ 64 \<le> unat (qn12_balance_of to i t) + unat v then (Inl Overflow, t)
     else qn12_transfer_loop from to ps (qn12_moved from to i v t))"
  by (simp add: rust_eval Let_def qn12_moved_def)

lemma qn12_credit_alt:
  "qn12_credit to i v t =
    (if 2 ^ 64 \<le> unat (qn12_balance_of to i t) + unat v then (Inl Overflow, t)
     else if 2 ^ 64 \<le> unat (qn12_total_supply i t) + unat v
       then (Inl Overflow, t\<lparr>qn12_balances := (qn12_balances t)((i, to) \<mapsto> qn12_balance_of to i t + v)\<rparr>)
     else (Inr (), qn12_credited to i v t))"
  by (simp add: qn12_credit_def rust_eval Let_def qn12_credited_def qn12_balance_of_def qn12_total_supply_def)

lemma qn12_burn_alt:
  "qn12_burn caller from i v t =
    (if \<not> qn12_is_approved_or_owner caller from t then (Inl NotApproved, t)
     else if qn12_balance_of from i t < v then (Inl InsufficientBalance, t)
     else if qn12_total_supply i t < v then (Inl Underflow, t)
     else (Inr (TransferSingle caller from ZERO_ADDRESS i v), qn12_debited from i v t))"
  by (simp add: qn12_burn_def rust_eval Let_def qn12_debited_def qn12_total_supply_def)

lemma qn12_burn_loop_Cons:
  "qn12_burn_loop from ((i, v) # ps) t =
    (if qn12_balance_of from i t < v then (Inl Underflow, t)
     else if qn12_total_supply i t < v
       then (Inl Underflow, t\<lparr>qn12_balances := (qn12_balances t)((i, from) \<mapsto> qn12_balance_of from i t - v)\<rparr>)
     else qn12_burn_loop from ps (qn12_debited from i v t))"
  by (simp add: rust_eval Let_def qn12_debited_def qn12_total_supply_def qn12_balance_of_def)

lemma qn12_transfer_loop_inv:
  "qn12_inv t \<Longrightarrow> from \<noteq> to \<Longrightarrow> qn12_inv (snd (qn12_transfer_loop from to ps t))"
proof (induction ps arbitrary: t)
  case (Cons p ps)
  then show ?case
    by (cases p) (simp add: qn12_transfer_loop_Cons qn12_inv_moved not_less del: qn12_transfer_loop.simps)
qed simp

lemma qn12_credit_inv:
  "qn12_inv t \<Longrightarrow> i < qn12_next_token_id t \<Longrightarrow> is_ok (qn12_credit to i v t) \<Longrightarrow>
   qn12_inv (snd (qn12_credit to i v t)) \<and> qn12_next_token_id (snd (qn12_credit to i v t)) = qn12_next_token_id t"
  using qn12_inv_credited [of t i v to]
  by (auto simp: qn12_credit_alt qn12_credited_def not_le split: if_splits)

lemma qn12_credit_loop_inv:
  "qn12_inv t \<Longrightarrow> list_all (\<lambda>(i, v). i < qn12_next_token_id t) ps \<Longrightarrow> is_ok (qn12_credit_loop to ps t) \<Longrightarrow>
   qn12_inv (snd (qn12_credit_loop to ps t))"
proof (induction ps arbitrary: t)
  case (Cons p ps)
  obtain i v where p: "p = (i, v)" by fastforce
  obtain r t' where c: "qn12_credit to i v t = (r, t')" by fastforce
  then show ?case
    using Cons.prems Cons.IH [of t'] qn12_credit_inv [of t i to v] by (cases r) (auto simp: p)
qed simp

lemma qn12_burn_loop_inv:
  "qn12_inv t \<Longrightarrow> is_ok (qn12_burn_loop from ps t) \<Longrightarrow> qn12_inv (snd (qn12_burn_loop from ps t))"
proof (induction ps arbitrary: t)
  case (Cons p ps)
  then show ?case
    by (cases p) (auto simp: qn12_burn_loop_Cons not_less qn12_inv_debited simp del: qn12_burn_loop.simps
        split: if_splits)
qed simp

lemma qn12_batch_ok:
  assumes "is_ok (qn12_safe_batch_transfer_from c from to ids vs d t)"
  shows "to \<noteq> ZERO_ADDRESS \<and> qn12_is_approved_or_owner c from t \<and>
    is_ok (qn12_transfer_loop from to (zip ids vs) t) \<and>
    snd (qn12_safe_batch_transfer_from c from to ids vs d t) = snd (qn12_transfer_loop from to (zip ids vs) t)"
proof -
  obtain r t' where l: "qn12_transfer_loop from to (zip ids vs) t = (r, t')" by fastforce
  show ?thesis
    using assms unfolding qn12_safe_batch_transfer_from_def l
    by (cases r; cases "qn12_check_balances from (zip ids vs) t") (auto simp: rust_eval split: if_splits)
qed

lemma qn12_mint_ok:
  assumes "is_ok (qn12_mint c to i v uri t)"
  shows "is_ok (qn12_credit to i v t) \<and>
    qn12_balances (snd (qn12_mint c to i v uri t)) = qn12_balances (snd (qn12_credit to i v t)) \<and>
    qn12_token_supplies (snd (qn12_mint c to i v uri t)) = qn12_token_supplies (snd (qn12_credit to i v t)) \<and>
    qn12_next_token_id (snd (qn12_mint c to i v uri t)) = qn12_next_token_id (snd (qn12_credit to i v t))"
proof -
  obtain r t' where l: "qn12_credit to i v t = (r, t')" by fastforce
  show ?thesis
    using assms unfolding qn12_mint_def l
    by (cases r; cases uri) (auto simp: rust_eval split: if_splits)
qed

lemma qn12_mint_batch_ok:
  assumes "is_ok (qn12_mint_batch c to ids vs t)"
  shows "is_ok (qn12_credit_loop to (zip ids vs) t) \<and>
    snd (qn12_mint_batch c to ids vs t) = snd (qn12_credit_loop to (zip ids vs) t)"
proof -
  obtain r t' where l: "qn12_credit_loop to (zip ids vs) t = (r, t')" by fastforce
  show ?thesis
    using assms unfolding qn12_mint_batch_def l
    by (cases r; cases "qn12_check_duplicates {} ids") (auto simp: rust_eval split: if_splits)
qed

lemma qn12_burn_batch_ok:
  assumes "is_ok (qn12_burn_batch c from ids vs t)"
  shows "is_ok (qn12_burn_loop from (zip ids vs) t) \<and>
    snd (qn12_burn_batch c from ids vs t) = snd (qn12_burn_loop from (zip ids vs) t)"
proof -
  obtain r t' where l: "qn12_burn_loop from (zip ids vs) t = (r, t')" by fastforce
  show ?thesis
    using assms unfolding qn12_burn_batch_def l
    by (cases r; cases "qn12_check_balances from (zip ids vs) t") (auto simp: rust_eval split: if_splits)
qed

lemma val_sum_zero: "finite (dom m) \<Longrightarrow> val_sum m = 0 \<Longrightarrow> val_sum (m(k \<mapsto> v)) = unat v"
  using val_sum_upd [of m k v] le_val_sum [of m k] by simp

lemma qn12_create_token_inv:
  assumes inv: "qn12_inv t" and ok: "is_ok (qn12_create_token c v uri t)"
  shows "qn12_inv (snd (qn12_create_token c v uri t))"
proof -
  let ?i = "qn12_next_token_id t" and ?t' = "snd (qn12_create_token c v uri t)"
  have no: "unat ?i + unat (1 :: u64) < 2 ^ 64"
    using ok by (simp add: qn12_create_token_def rust_eval Let_def split: if_splits)
  then have lt: "?i < ?i + 1" by (simp add: word_less_nat_alt unat_add_no_overflow)
  have t': "qn12_next_token_id ?t' = ?i + 1"
    "qn12_row j ?t' = (if j = ?i \<and> 0 < v then (qn12_row ?i t)(c \<mapsto> v) else qn12_row j t)"
    "qn12_total_supply j ?t' = (if j = ?i \<and> 0 < v then v else qn12_total_supply j t)" for j
    using ok by (auto simp: qn12_create_token_def rust_eval Let_def qn12_row_def qn12_total_supply_def
        split: if_splits)
  have "qn12_total_supply ?i t = 0" using qn12_invD(3) [OF inv, of ?i] by simp
  then have "val_sum (qn12_row ?i t) = 0" using qn12_invD(2) [OF inv, of ?i] by simp
  then have sum: "val_sum ((qn12_row ?i t)(c \<mapsto> v)) = unat v"
    using val_sum_zero [OF qn12_invD(1) [OF inv]] by blast
  show ?thesis
    using qn12_invD(1,2) [OF inv, of ?i] lt sum
    by (intro qn12_inv_update [OF inv, of ?i]) (auto simp: t' not_le [symmetric])
qed

lemma qn12_simple_inv:
  assumes "qn12_inv t"
  shows "qn12_inv (snd (qn12_set_approval_for_all c opr b t))"
    "qn12_inv (snd (qn12_transfer_ownership c n t))" "qn12_inv (snd (qn12_accept_ownership c t))"
  using assms
  by (auto simp: qn12_set_approval_for_all_def qn12_transfer_ownership_def qn12_accept_ownership_def
      rust_eval elim: qn12_inv_frame)

lemma qn12_single_inv:
  "qn12_inv t \<Longrightarrow> from \<noteq> to \<Longrightarrow> qn12_inv (snd (qn12_safe_transfer_from c from to i v d t))"
  "qn12_inv t \<Longrightarrow> qn12_inv (snd (qn12_burn c from i v t))"
  by (auto simp: qn12_safe_transfer_from_alt qn12_burn_alt not_less intro: qn12_inv_moved qn12_inv_debited)

lemma qn12_mint_inv:
  assumes "qn12_inv t" "i < qn12_next_token_id t" "is_ok (qn12_mint c to i v uri t)"
  shows "qn12_inv (snd (qn12_mint c to i v uri t))"
  using qn12_mint_ok [OF assms(3)] qn12_credit_inv [OF assms(1,2), of to v]
  by (elim conjE) (rule qn12_inv_frame [of "snd (qn12_credit to i v t)"], simp_all)

lemma qn12_batch_inv:
  "qn12_inv t \<Longrightarrow> from \<noteq> to \<Longrightarrow> is_ok (qn12_safe_batch_transfer_from c from to ids vs d t) \<Longrightarrow>
    qn12_inv (snd (qn12_safe_batch_transfer_from c from to ids vs d t))"
  "qn12_inv t \<Longrightarrow> is_ok (qn12_burn_batch c from ids vs t) \<Longrightarrow> qn12_inv (snd (qn12_burn_batch c from ids vs t))"
  using qn12_batch_ok qn12_burn_batch_ok qn12_transfer_loop_inv qn12_burn_loop_inv by metis+

lemma list_all_zip_fst: "list_all P ids \<Longrightarrow> list_all (\<lambda>(i, v). P i) (zip ids vs)"
  by (auto simp: list_all_iff dest: set_zip_leftD)

lemma qn12_mint_batch_inv:
  "qn12_inv t \<Longrightarrow> list_all (\<lambda>i. i < qn12_next_token_id t) ids \<Longrightarrow> is_ok (qn12_mint_batch c to ids vs t) \<Longrightarrow>
   qn12_inv (snd (qn12_mint_batch c to ids vs t))"
  using qn12_mint_batch_ok qn12_credit_loop_inv list_all_zip_fst by metis

lemmas qn12_op_invs = qn12_single_inv qn12_batch_inv qn12_mint_inv qn12_mint_batch_inv
  qn12_create_token_inv qn12_simple_inv

lemma qn12_call_inv:
  "qn12_inv t \<Longrightarrow> qn12_disciplined x t \<Longrightarrow> qn12_call x t = (True, t') \<Longrightarrow> qn12_inv t'"
  by (cases x) (auto simp: Let_def qn12_op_invs)

lemma qn12_new_inv: "qn12_inv (qn12_new n w u)"
  by (auto simp: qn12_inv_def qn12_new_def qn12_row_def qn12_total_supply_def)

lemma qn12_reachable_inv: "qn12_reachable t \<Longrightarrow> qn12_inv t"
  by (induction rule: qn12_reachable.induct) (auto simp: qn12_new_inv dest: qn12_call_inv)

lemma qn12_sample_reachable: "qn12_reachable qn12_sample"
  by (rule qn12_reachable.step [OF qn12_reachable.new,
        of "Qn12CreateToken (addr 1) 100 ''gold''" "''Items''" "addr 1" "''u/''"])
     (simp_all add: qn12_create_token_def qn12_new_def rust_eval Let_def qn12_sample_def)

lemma qn12_sample_max_reachable: "qn12_reachable qn12_sample_max"
  by (rule qn12_reachable.step [OF qn12_reachable.new,
        of "Qn12CreateToken (addr 1) max_value ''gold''" "''Items''" "addr 1" "''u/''"])
     (simp_all add: qn12_create_token_def qn12_new_def rust_eval Let_def qn12_sample_max_def max_value_gt_0)

lemma qn12_approved_moved [simp]:
  "qn12_is_approved_or_owner c f (qn12_moved from to i v t) = qn12_is_approved_or_owner c f t"
  by (simp add: qn12_is_approved_or_owner_def qn12_is_approved_for_all_def qn12_moved_def)

lemma qn12_transfer_loop_singles:
  assumes "to \<noteq> ZERO_ADDRESS" "qn12_is_approved_or_owner c from t" "is_ok (qn12_transfer_loop from to ps t)"
  shows "snd (qn12_transfer_loop from to ps t) =
    fold (\<lambda>(i, v) t. snd (qn12_safe_transfer_from c from to i v d t)) ps t"
  using assms
proof (induction ps arbitrary: t)
  case (Cons p ps)
  obtain i v where p: "p = (i, v)" by fastforce
  show ?case
    using Cons.prems Cons.IH [of "qn12_moved from to i v t"]
    by (auto simp: p qn12_transfer_loop_Cons qn12_safe_transfer_from_alt simp del: qn12_transfer_loop.simps
        split: if_splits)
qed simp

section \<open>Properties\<close>

text \<open>C20: In every state that disciplined successful calls reach, and for every token id, the
  balances add up to the recorded supply, and an id not handed out yet has no supply.\<close>

theorem qn12_supply_conserved:
  assumes "qn12_reachable t"
  shows "(\<Sum>a\<in>{a. qn12_balances t (i, a) \<noteq> None}. unat (qn12_balance_of a i t)) = unat (qn12_total_supply i t) \<and>
    (qn12_next_token_id t \<le> i \<longrightarrow> qn12_total_supply i t = 0)"
  using qn12l.total_sum [of "(t, i)"] qn12_reachable_inv [OF assms] qn12_invD(3) [of t i]
  by (simp add: qn12_row_def dom_def)

theorem qn12_supply_conserved_witness:
  "(\<Sum>a\<in>{a. qn12_balances qn12_sample (1, a) \<noteq> None}. unat (qn12_balance_of a 1 qn12_sample)) = 100"
  using qn12_supply_conserved [OF qn12_sample_reachable, of 1]
  by (simp add: qn12_sample_def qn12_total_supply_def)

text \<open>A batch transfer that succeeds leaves the state that the corresponding single
  transfers leave, made one after the other in the order of the batch.\<close>

theorem qn12_batch_equals_singles:
  assumes "is_ok (qn12_safe_batch_transfer_from c from to ids vs d t)"
  shows "snd (qn12_safe_batch_transfer_from c from to ids vs d t) =
    fold (\<lambda>(i, v) t. snd (qn12_safe_transfer_from c from to i v d t)) (zip ids vs) t"
  using qn12_batch_ok [OF assms] qn12_transfer_loop_singles by metis

theorem qn12_batch_equals_singles_witness:
  "let t' = snd (qn12_safe_batch_transfer_from (addr 1) (addr 1) (addr 2) [1, 1] [30, 50] [] qn12_sample)
   in t' = fold (\<lambda>(i, v) t. snd (qn12_safe_transfer_from (addr 1) (addr 1) (addr 2) i v [] t))
        [(1, 30), (1, 50)] qn12_sample \<and> qn12_balance_of (addr 2) 1 t' = 80"
proof -
  note eval = qn12_safe_batch_transfer_from_def rust_eval QN12_MAX_BATCH_SIZE_def qn12_is_approved_or_owner_def
    qn12_sample_def qn12_balance_of_def Let_def
  have "is_ok (qn12_safe_batch_transfer_from (addr 1) (addr 1) (addr 2) [1, 1] [30, 50] [] qn12_sample)"
    by (simp add: eval)
  note eq = qn12_batch_equals_singles [OF this]
  have "qn12_balance_of (addr 2) 1
      (snd (qn12_safe_batch_transfer_from (addr 1) (addr 1) (addr 2) [1, 1] [30, 50] [] qn12_sample)) = 80"
    by (simp add: eval)
  with eq show ?thesis unfolding Let_def by simp
qed

text \<open>When the supply of a token id would overflow, \<open>mint\<close> returns an error after the
  recipient's balance has been credited: the balances then exceed the recorded supply.\<close>

theorem qn12_mint_error_credits:
  assumes "qn12_inv t" "c = qn12_owner t" "to \<noteq> ZERO_ADDRESS" "v \<noteq> 0"
    and "unat (qn12_balance_of to i t) + unat v < 2 ^ 64" "2 ^ 64 \<le> unat (qn12_total_supply i t) + unat v"
  shows "fst (qn12_mint c to i v uri t) = Inl Overflow \<and>
    qn12_balance_of to i (snd (qn12_mint c to i v uri t)) = qn12_balance_of to i t + v \<and>
    qn12_total_supply i (snd (qn12_mint c to i v uri t)) = qn12_total_supply i t \<and>
    \<not> qn12_inv (snd (qn12_mint c to i v uri t))"
proof -
  let ?t' = "t\<lparr>qn12_balances := (qn12_balances t)((i, to) \<mapsto> qn12_balance_of to i t + v)\<rparr>"
  have m: "qn12_mint c to i v uri t = (Inl Overflow, ?t')"
    using assms by (simp add: qn12_mint_def rust_eval qn12_credit_alt)
  have "val_sum (qn12_row i ?t') = val_sum (qn12_row i t) + unat v"
    using val_sum_upd [OF qn12_invD(1) [OF assms(1)], of i to "qn12_balance_of to i t + v"] assms(5)
    by (simp add: qn12_balance_row unat_add_no_overflow)
  moreover have "qn12_total_supply i ?t' = qn12_total_supply i t" by (simp add: qn12_total_supply_def)
  ultimately have "\<not> qn12_inv ?t'"
    using qn12_invD(2) [OF assms(1), of i] qn12_invD(2) [of ?t' i] assms(4) by (auto simp: unat_eq_zero)
  then show ?thesis by (simp add: m qn12_balance_of_def qn12_total_supply_def)
qed

theorem qn12_mint_error_credits_witness:
  "fst (qn12_mint (addr 1) (addr 2) 1 5 None qn12_sample_max) = Inl Overflow \<and>
   qn12_balance_of (addr 2) 1 (snd (qn12_mint (addr 1) (addr 2) 1 5 None qn12_sample_max)) = 5"
  using qn12_mint_error_credits [OF qn12_reachable_inv [OF qn12_sample_max_reachable], of "addr 1" "addr 2" 5 1 None]
  by (simp add: qn12_sample_max_def qn12_new_def qn12_balance_of_def qn12_total_supply_def unat_max_value)

text \<open>\<open>create_token\<close> takes no account of units already minted under the next id: where
  somebody else than the owner holds some, the recorded supply afterwards is below the sum of
  the balances.\<close>

theorem qn12_create_token_forgets_minted:
  assumes "is_ok (qn12_create_token c v uri t)" "0 < v" "a \<noteq> c"
    and "qn12_balance_of a (qn12_next_token_id t) t \<noteq> 0"
  shows "\<not> qn12_inv (snd (qn12_create_token c v uri t))"
proof
  let ?i = "qn12_next_token_id t" and ?t' = "snd (qn12_create_token c v uri t)"
  assume inv: "qn12_inv ?t'"
  have "qn12_balance_of c ?i ?t' = v" "qn12_balance_of a ?i ?t' = qn12_balance_of a ?i t"
    "qn12_total_supply ?i ?t' = v"
    using assms by (auto simp: qn12_create_token_def rust_eval Let_def qn12_balance_of_def
        qn12_total_supply_def split: if_splits)
  with qn12_pair_le [OF inv, of c a ?i] assms(3,4) show False by (simp add: unat_eq_zero)
qed

theorem qn12_create_token_forgets_minted_witness:
  "let t = snd (qn12_mint (addr 1) (addr 2) 1 7 None (qn12_new ''Items'' (addr 1) ''u/''))
   in \<not> qn12_inv (snd (qn12_create_token (addr 1) 10 ''gold'' t))"
  unfolding Let_def
  by (rule qn12_create_token_forgets_minted [where a = "addr 2"])
     (simp_all add: qn12_mint_def qn12_credit_def qn12_create_token_def qn12_new_def rust_eval Let_def
       qn12_balance_of_def)

end
