(* ===== verification/Bytes.thy ===== *)
theory Bytes
  imports Prelude
begin

text \<open>
  Fixed-width little- and big-endian byte encodings (\<open>to_le_bytes\<close>, \<open>from_le_bytes\<close> and
  their big-endian versions of Rust's integer types), with their round trips.
\<close>

unbundle bit_operations_syntax

definition to_le_bytes :: "'w::len word \<Rightarrow> bytes" where
  "to_le_bytes w = map (\<lambda>i. ucast (drop_bit (8 * i) w)) [0..<LENGTH('w) div 8]"

definition to_be_bytes :: "'w::len word \<Rightarrow> bytes" where
  "to_be_bytes w = rev (to_le_bytes w)"

fun from_le_bytes :: "bytes \<Rightarrow> 'w::len word" where
  "from_le_bytes [] = 0"
| "from_le_bytes (b # bs) = ucast b OR push_bit 8 (from_le_bytes bs)"

definition from_be_bytes :: "bytes \<Rightarrow> 'w::len word" where
  "from_be_bytes bs = from_le_bytes (rev bs)"

lemma length_to_le_bytes [simp]: "length (to_le_bytes (w :: 'w::len word)) = LENGTH('w) div 8"
  by (simp add: to_le_bytes_def)

lemma length_to_be_bytes [simp]: "length (to_be_bytes (w :: 'w::len word)) = LENGTH('w) div 8"
  by (simp add: to_be_bytes_def)

lemma bit_from_le_bytes:
  "bit (from_le_bytes bs :: 'w::len word) n \<longleftrightarrow>
    n < LENGTH('w) \<and> n div 8 < length bs \<and> bit (bs ! (n div 8)) (n mod 8)"
proof (induction bs arbitrary: n)
  case (Cons b bs)
  show ?case
  proof (cases "n < 8")
    case True
    then show ?thesis by (auto simp: bit_or_iff bit_push_bit_iff bit_ucast_iff)
  next
    case False
    then have "n div 8 = Suc ((n - 8) div 8)" "(n - 8) mod 8 = n mod 8"
      using le_div_geq [of 8 n] le_mod_geq [of 8 n] by simp_all
    moreover have "\<not> bit b n" using False by (auto dest: bit_imp_le_length)
    ultimately show ?thesis
      using False Cons.IH [of "n - 8"] by (auto simp: bit_or_iff bit_push_bit_iff bit_ucast_iff)
  qed
qed simp

lemma from_to_le_bytes:
  assumes "8 dvd LENGTH('w)"
  shows "from_le_bytes (to_le_bytes w) = (w :: 'w::len word)"
proof (rule bit_word_eqI)
  fix n assume n: "n < LENGTH('w)"
  then have "n div 8 < LENGTH('w) div 8"
    using assms by (auto elim!: dvdE simp: less_mult_imp_div_less)
  moreover have "n mod 8 < LENGTH(8)" "8 * (n div 8) + n mod 8 = n" by simp_all
  ultimately show "bit (from_le_bytes (to_le_bytes w) :: 'w word) n \<longleftrightarrow> bit w n"
    using n by (simp add: bit_from_le_bytes to_le_bytes_def bit_ucast_iff bit_drop_bit_eq add.commute
        del: len_bit0 len_num1)
qed

lemma from_to_be_bytes: "8 dvd LENGTH('w) \<Longrightarrow> from_be_bytes (to_be_bytes w) = (w :: 'w::len word)"
  by (simp add: from_be_bytes_def to_be_bytes_def from_to_le_bytes)

lemma to_le_bytes_inject:
  "8 dvd LENGTH('w) \<Longrightarrow> to_le_bytes (v :: 'w::len word) = to_le_bytes w \<longleftrightarrow> v = w"
  by (metis from_to_le_bytes)

lemma to_be_bytes_inject:
  "8 dvd LENGTH('w) \<Longrightarrow> to_be_bytes (v :: 'w::len word) = to_be_bytes w \<longleftrightarrow> v = w"
  by (metis from_to_be_bytes)

lemma from_le_bytes_zeros [simp]: "from_le_bytes (replicate n 0) = (0 :: 'w::len word)"
  by (induction n) simp_all

end
