(* ===== verification/Account.thy ===== *)
theory Account
  imports Bytes
begin

text \<open>
  Accounts, validators and validator sets (\<open>types/account.rs\<close>) with the amount type of
  \<open>types/mod.rs\<close>: balances and stakes, slashing, and the byte string an account is hashed from.
  SHA3-256 is a parameter of the definitions that hash.
\<close>

section \<open>Accounts\<close>

type_synonym amount = u128

record account =
  acc_address :: address
  acc_balance :: amount
  acc_nonce :: u64
  acc_code_hash :: "hash option"
  acc_storage_root :: hash
  acc_stake :: amount
  acc_is_validator :: bool

datatype account_error =
    NonceOverflow
  | InvalidVrfKeySize nat
  | VrfKeyAllZeros
  | SlashPercentageTooLarge u16
  | CommissionRateTooLarge u16
  | ValidatorSetFull
  | ValidatorAlreadyExists
  | TotalStakeOverflow
  | ValidatorNotFound

definition account_new :: "address \<Rightarrow> account" where
  "account_new a = \<lparr> acc_address = a, acc_balance = 0, acc_nonce = 0, acc_code_hash = None,
     acc_storage_root = replicate 32 0, acc_stake = 0, acc_is_validator = False \<rparr>"

definition account_with_balance :: "address \<Rightarrow> amount \<Rightarrow> account" where
  "account_with_balance a b = \<lparr> acc_address = a, acc_balance = b, acc_nonce = 0, acc_code_hash = None,
     acc_storage_root = replicate 32 0, acc_stake = 0, acc_is_validator = False \<rparr>"

definition account_preimage :: "account \<Rightarrow> bytes" where
  "account_preimage x =
    acc_address x @ to_le_bytes (acc_balance x) @ to_le_bytes (acc_nonce x) @
    (case acc_code_hash x of Some code_hash \<Rightarrow> code_hash | None \<Rightarrow> []) @
    acc_storage_root x @ to_le_bytes (acc_stake x) @ [if acc_is_validator x then 1 else 0]"

definition account_hash :: "(bytes \<Rightarrow> hash) \<Rightarrow> account \<Rightarrow> hash" where
  "account_hash hash_data x = hash_data (account_preimage x)"

definition increment_nonce :: "account \<Rightarrow> (account_error + unit) \<times> account" where
  "increment_nonce x =
    or_return (ok_or (checked_add (acc_nonce x) 1) NonceOverflow) x (\<lambda>n.
    (Inr (), x\<lparr>acc_nonce := n\<rparr>))"

definition add_balance :: "amount \<Rightarrow> account \<Rightarrow> bool \<times> account" where
  "add_balance a x =
    (case checked_add (acc_balance x) a of
       Some new_balance \<Rightarrow> (True, x\<lparr>acc_balance := new_balance\<rparr>)
     | None \<Rightarrow> (False, x))"

definition sub_balance :: "amount \<Rightarrow> account \<Rightarrow> bool \<times> account" where
  "sub_balance a x =
    (case checked_sub (acc_balance x) a of
       Some new_balance \<Rightarrow> (True, x\<lparr>acc_balance := new_balance\<rparr>)
     | None \<Rightarrow> (False, x))"

definition add_stake :: "amount \<Rightarrow> account \<Rightarrow> bool \<times> account" where
  "add_stake a x =
    (case checked_add (acc_stake x) a of
       None \<Rightarrow> (False, x)
     | Some new_stake \<Rightarrow>
         (case checked_sub (acc_balance x) a of
            None \<Rightarrow> (False, x)
          | Some new_balance \<Rightarrow> (True, x\<lparr>acc_stake := new_stake, acc_balance := new_balance\<rparr>)))"

definition remove_stake :: "amount \<Rightarrow> account \<Rightarrow> bool \<times> account" where
  "remove_stake a x =
    (case checked_sub (acc_stake x) a of
       Some new_stake \<Rightarrow> add_balance a (x\<lparr>acc_stake := new_stake\<rparr>)
     | None \<Rightarrow> (False, x))"

definition subtract_stake :: "amount \<Rightarrow> account \<Rightarrow> bool \<times> account" where
  "subtract_stake a x =
    (case checked_sub (acc_stake x) a of
       Some new_stake \<Rightarrow> (True, x\<lparr>acc_stake := new_stake\<rparr>)
     | None \<Rightarrow> (False, x))"

definition add_stake_direct :: "amount \<Rightarrow> account \<Rightarrow> account" where
  "add_stake_direct a x =
    (case checked_add (acc_stake x) a of
       Some new_stake \<Rightarrow> x\<lparr>acc_stake := new_stake\<rparr>
     | None \<Rightarrow> x)"

section \<open>Validators\<close>

definition MAX_COMMISSION_RATE :: u16 where "MAX_COMMISSION_RATE = 10000"
definition MAX_VALIDATORS :: nat where "MAX_VALIDATORS = 1000"
definition MIN_VRF_KEY_SIZE :: nat where "MIN_VRF_KEY_SIZE = 32"
definition MAX_VRF_KEY_SIZE :: nat where "MAX_VRF_KEY_SIZE = 256"

record validator =
  val_address :: address
  val_public_key :: bytes
  val_finality_public_key :: bytes
  val_stake :: amount
  val_commission_rate :: u16
  val_active :: bool
  val_jailed :: bool
  val_slash_count :: u32
  val_last_active_slot :: u64
  val_vrf_public_key :: bytes

definition validator_new ::
  "address \<Rightarrow> bytes \<Rightarrow> amount \<Rightarrow> bytes \<Rightarrow> account_error + validator" where
  "validator_new a public_key stake vrf_public_key =
    (if length vrf_public_key < MIN_VRF_KEY_SIZE \<or> length vrf_public_key > MAX_VRF_KEY_SIZE
     then Inl (InvalidVrfKeySize (length vrf_public_key))
     else if list_all (\<lambda>b. b = 0) vrf_public_key then Inl VrfKeyAllZeros
     else Inr \<lparr> val_address = a, val_public_key = public_key, val_finality_public_key = [],
       val_stake = stake, val_commission_rate = 500, val_active = True, val_jailed = False,
       val_slash_count = 0, val_last_active_slot = 0, val_vrf_public_key = vrf_public_key \<rparr>)"

definition slash_amount_of :: "amount \<Rightarrow> u16 \<Rightarrow> amount" where
  "slash_amount_of stake percentage =
    unwrap_or (Option.bind (checked_mul stake (ucast percentage)) (\<lambda>v. checked_div v 10000)) 0"

definition validator_slash :: "u16 \<Rightarrow> validator \<Rightarrow> (account_error + amount) \<times> validator" where
  "validator_slash percentage v =
    (if percentage > MAX_COMMISSION_RATE then (Inl (SlashPercentageTooLarge percentage), v) else
     let slash_amount = slash_amount_of (val_stake v) percentage in
     case checked_sub (val_stake v) slash_amount of
       Some new_stake \<Rightarrow>
         let v = v\<lparr>val_stake := new_stake, val_slash_count := saturating_add (val_slash_count v) 1\<rparr>;
             v = (if val_slash_count v \<ge> 3 then v\<lparr>val_jailed := True, val_active := False\<rparr> else v)
         in (Inr slash_amount, v)
     | None \<Rightarrow> (Inr 0, v))"

definition set_commission_rate :: "u16 \<Rightarrow> validator \<Rightarrow> (account_error + unit) \<times> validator" where
  "set_commission_rate rate v =
    (if rate > MAX_COMMISSION_RATE then (Inl (CommissionRateTooLarge rate), v)
     else (Inr (), v\<lparr>val_commission_rate := rate\<rparr>))"

definition effective_stake :: "validator \<Rightarrow> u128" where
  "effective_stake v = (if val_active v \<and> \<not> val_jailed v then val_stake v else 0)"

section \<open>Validator sets\<close>

record validator_set =
  vs_validators :: "validator list"
  vs_total_stake :: amount
  vs_epoch :: u64

definition validator_set_new :: validator_set where
  "validator_set_new = \<lparr> vs_validators = [], vs_total_stake = 0, vs_epoch = 0 \<rparr>"

definition add_validator :: "validator \<Rightarrow> validator_set \<Rightarrow> (account_error + unit) \<times> validator_set" where
  "add_validator v s =
    (if length (vs_validators s) \<ge> MAX_VALIDATORS then (Inl ValidatorSetFull, s) else
     if list_ex (\<lambda>u. val_address u = val_address v) (vs_validators s)
     then (Inl ValidatorAlreadyExists, s) else
     or_return (ok_or (checked_add (vs_total_stake s) (val_stake v)) TotalStakeOverflow) s (\<lambda>total.
     (Inr (), s\<lparr>vs_total_stake := total, vs_validators := vs_validators s @ [v]\<rparr>)))"

text \<open>\<open>slash\<close> applied through \<open>iter_mut().find(...)\<close>: to the first validator with the address.\<close>

fun slash_first ::
  "address \<Rightarrow> u16 \<Rightarrow> validator list \<Rightarrow> (account_error + amount) \<times> validator list" where
  "slash_first a percentage [] = (Inl ValidatorNotFound, [])"
| "slash_first a percentage (v # vs) =
    (if val_address v = a
     then (let (r, v) = validator_slash percentage v in (r, v # vs))
     else (let (r, vs) = slash_first a percentage vs in (r, v # vs)))"

definition slash_validator ::
  "address \<Rightarrow> u16 \<Rightarrow> validator_set \<Rightarrow> (account_error + amount) \<times> validator_set" where
  "slash_validator a percentage s =
    (let (r, vs) = slash_first a percentage (vs_validators s);
         s = s\<lparr>vs_validators := vs\<rparr> in
     or_return r s (\<lambda>slashed_amount.
     (Inr slashed_amount,
      s\<lparr>vs_total_stake := unwrap_or (checked_sub (vs_total_stake s) slashed_amount) 0\<rparr>)))"

definition get_validator :: "address \<Rightarrow> validator_set \<Rightarrow> validator option" where
  "get_validator a s = find (\<lambda>v. val_address v = a) (vs_validators s)"

definition active_validators :: "validator_set \<Rightarrow> validator list" where
  "active_validators s = filter (\<lambda>v. val_active v \<and> \<not> val_jailed v) (vs_validators s)"

definition total_active_stake :: "validator_set \<Rightarrow> u128" where
  "total_active_stake s = sum_list (map effective_stake (vs_validators s))"

section \<open>Operations and invariant of a validator set\<close>

datatype vs_op = VsAdd validator | VsSlash address u16

fun vs_exec :: "vs_op \<Rightarrow> validator_set \<Rightarrow> validator_set" where
  "vs_exec (VsAdd v) s = snd (add_validator v s)"
| "vs_exec (VsSlash a p) s = snd (slash_validator a p s)"

definition vs_inv :: "validator_set \<Rightarrow> bool" where
  "vs_inv s \<longleftrightarrow>
    unat (vs_total_stake s) = sum_list (map (\<lambda>v. unat (val_stake v)) (vs_validators s)) \<and>
    distinct (map val_address (vs_validators s)) \<and> length (vs_validators s) \<le> MAX_VALIDATORS"

definition account_wf :: "account \<Rightarrow> bool" where
  "account_wf x \<longleftrightarrow> length (acc_address x) = 32 \<and> length (acc_storage_root x) = 32 \<and>
    (case acc_code_hash x of Some h \<Rightarrow> length h = 32 | None \<Rightarrow> True)"


section \<open>Lemmas\<close>

lemma unat_ucast_u16: "unat (ucast (p :: u16) :: u128) = unat p"
  by (rule unat_ucast_widen) simp

lemma unat_slash_amount:
  "unat (slash_amount_of st p) =
    (if unat st * unat p < 2 ^ 128 then unat st * unat p div 10000 else 0)"
  by (simp add: slash_amount_of_def checked_mul_def checked_div_def unat_ucast_u16 unat_div
      unat_word_ariths)

lemma slash_amount_le: "p \<le> MAX_COMMISSION_RATE \<Longrightarrow> slash_amount_of st p \<le> st"
proof -
  assume "p \<le> MAX_COMMISSION_RATE"
  then have "unat p \<le> 10000" by (simp add: MAX_COMMISSION_RATE_def word_le_nat_alt)
  then have "unat st * unat p \<le> unat st * 10000" by simp
  then have "unat st * unat p div 10000 \<le> unat st"
    using div_le_mono [of "unat st * unat p" "unat st * 10000" 10000] by simp
  then show ?thesis by (simp add: word_le_nat_alt unat_slash_amount)
qed

lemma validator_slash_stake:
  assumes "p \<le> MAX_COMMISSION_RATE" "validator_slash p v = (r, v')"
  shows "r = Inr (slash_amount_of (val_stake v) p)"
    "val_stake v' = val_stake v - slash_amount_of (val_stake v) p"
    "val_address v' = val_address v"
  using assms slash_amount_le [OF assms(1), of "val_stake v"]
  by (auto simp: validator_slash_def checked_sub_def Let_def not_less split: if_splits)

lemma validator_slash_refused:
  "\<not> p \<le> MAX_COMMISSION_RATE \<Longrightarrow> validator_slash p v = (Inl (SlashPercentageTooLarge p), v)"
  by (simp add: validator_slash_def not_le)

lemma slash_first_refused:
  "\<not> p \<le> MAX_COMMISSION_RATE \<Longrightarrow> \<exists>e. slash_first a p vs = (Inl e, vs)"
  by (induction vs) (auto simp: validator_slash_refused)

lemma slash_first_missing:
  "a \<notin> set (map val_address vs) \<Longrightarrow> slash_first a p vs = (Inl ValidatorNotFound, vs)"
  by (induction vs) auto

lemma slash_first_found:
  assumes "p \<le> MAX_COMMISSION_RATE" "a \<in> set (map val_address vs)"
  obtains amt vs' where "slash_first a p vs = (Inr amt, vs')"
    "map val_address vs' = map val_address vs"
    "sum_list (map (\<lambda>v. unat (val_stake v)) vs) = sum_list (map (\<lambda>v. unat (val_stake v)) vs') + unat amt"
  using assms
proof (induction vs arbitrary: thesis)
  case (Cons v vs)
  show ?case
  proof (cases "val_address v = a")
    case True
    obtain r v' where s: "validator_slash p v = (r, v')" by fastforce
    note st = validator_slash_stake [OF Cons.prems(2) s]
    have "unat (val_stake v') = unat (val_stake v) - unat (slash_amount_of (val_stake v) p)"
      "unat (slash_amount_of (val_stake v) p) \<le> unat (val_stake v)"
      using st(2) slash_amount_le [OF Cons.prems(2), of "val_stake v"]
      by (simp_all add: unat_sub_no_underflow word_le_nat_alt)
    then show ?thesis
      using Cons.prems(1) [of "slash_amount_of (val_stake v) p" "v' # vs"] True s st by simp
  next
    case False
    with Cons.prems have "a \<in> set (map val_address vs)" by auto
    then obtain amt vs' where "slash_first a p vs = (Inr amt, vs')"
      "map val_address vs' = map val_address vs"
      "sum_list (map (\<lambda>v. unat (val_stake v)) vs) = sum_list (map (\<lambda>v. unat (val_stake v)) vs') + unat amt"
      using Cons.IH [OF _ Cons.prems(2)] by blast
    then show ?thesis using Cons.prems(1) [of amt "v # vs'"] False by simp
  qed
qed simp

lemma vs_inv_add: "vs_inv s \<Longrightarrow> vs_inv (snd (add_validator v s))"
  by (auto simp: vs_inv_def add_validator_def rust_eval unat_add_no_overflow list_ex_iff)

lemma vs_inv_slash:
  assumes inv: "vs_inv s"
  shows "vs_inv (snd (slash_validator a p s))"
proof -
  let ?vs = "vs_validators s"
  consider e where "slash_first a p ?vs = (Inl e, ?vs)"
    | "p \<le> MAX_COMMISSION_RATE" "a \<in> set (map val_address ?vs)"
    using slash_first_refused slash_first_missing by blast
  then show ?thesis
  proof cases
    case 1
    then show ?thesis using inv by (simp add: slash_validator_def)
  next
    case 2
    then obtain amt vs' where f: "slash_first a p ?vs = (Inr amt, vs')"
      "map val_address vs' = map val_address ?vs"
      "sum_list (map (\<lambda>v. unat (val_stake v)) ?vs) = sum_list (map (\<lambda>v. unat (val_stake v)) vs') + unat amt"
      by (rule slash_first_found)
    have len: "length vs' = length ?vs" using f(2) by (metis length_map)
    have "amt \<le> vs_total_stake s" using f(3) inv by (simp add: vs_inv_def word_le_nat_alt)
    then have "unat (vs_total_stake s - amt) = sum_list (map (\<lambda>v. unat (val_stake v)) vs')"
      "checked_sub (vs_total_stake s) amt = Some (vs_total_stake s - amt)"
      using f(3) inv by (simp_all add: vs_inv_def unat_sub_no_underflow checked_sub_def)
    then show ?thesis using inv f(1,2) len by (simp add: slash_validator_def vs_inv_def)
  qed
qed

interpretation vss: op_system vs_exec "\<lambda>_. True" vs_inv
proof
  fix s x assume "vs_inv s" then show "vs_inv (vs_exec x s)"
    by (cases x) (simp_all add: vs_inv_add vs_inv_slash)
qed

lemma vs_new_inv: "vs_inv validator_set_new"
  by (simp add: vs_inv_def validator_set_new_def)

lemma account_preimage_inject:
  assumes "account_wf x" "account_wf y" "account_preimage x = account_preimage y"
  shows "x = y"
proof -
  let ?c = "\<lambda>z. case acc_code_hash z of Some h \<Rightarrow> h | None \<Rightarrow> []"
  note lens = assms(1,2) [unfolded account_wf_def]
  have len: "length (account_preimage z) = length (acc_address z) + 24 + length (?c z) + length (acc_storage_root z) + 17" for z
    by (simp add: account_preimage_def)
  have c: "length (?c x) = length (?c y)"
    using arg_cong [OF assms(3), of length] lens unfolding len by simp
  have eqs: "acc_address x = acc_address y" "to_le_bytes (acc_balance x) = to_le_bytes (acc_balance y)"
    "to_le_bytes (acc_nonce x) = to_le_bytes (acc_nonce y)" "?c x = ?c y"
    "acc_storage_root x = acc_storage_root y" "to_le_bytes (acc_stake x) = to_le_bytes (acc_stake y)"
    "(if acc_is_validator x then 1 else 0 :: u8) = (if acc_is_validator y then 1 else 0)"
    using assms(3) lens c unfolding account_preimage_def by simp_all
  have "acc_code_hash x = acc_code_hash y"
    using eqs(4) c lens by (auto split: option.splits)
  with eqs show ?thesis
    by (auto simp: to_le_bytes_inject intro!: account.equality split: if_splits)
qed

section \<open>Properties\<close>

text \<open>After any sequence of registrations and slashings, successful or refused, the recorded
  total stake of a validator set is the sum of the stakes, no two validators share an address,
  and there are at most a thousand of them.\<close>

theorem validator_set_total_stake:
  "let s = fold vs_exec xs validator_set_new
   in unat (vs_total_stake s) = sum_list (map (\<lambda>v. unat (val_stake v)) (vs_validators s)) \<and>
      distinct (map val_address (vs_validators s)) \<and> length (vs_validators s) \<le> MAX_VALIDATORS"
  using vss.run_invar [OF vs_new_inv, of xs] by (simp add: vs_inv_def list_all_iff Let_def)

text \<open>A slash of at most 100 per cent takes exactly the stated share, rounded down, as long as
  the product fits 128 bits, and takes nothing where it does not; the rest of the stake stays, one
  more slash is counted up to the width of the counter, and the third slash jails the validator.\<close>

theorem validator_slash_exact:
  assumes "p \<le> MAX_COMMISSION_RATE" "validator_slash p v = (r, v')"
  shows "\<exists>amt. r = Inr amt \<and> unat amt + unat (val_stake v') = unat (val_stake v) \<and>
    unat amt = (if unat (val_stake v) * unat p < 2 ^ 128 then unat (val_stake v) * unat p div 10000 else 0) \<and>
    unat (val_slash_count v') = min (unat (val_slash_count v) + 1) (2 ^ 32 - 1) \<and>
    (2 \<le> unat (val_slash_count v) \<longrightarrow> val_jailed v' \<and> effective_stake v' = 0)"
proof -
  let ?a = "slash_amount_of (val_stake v) p"
  have le: "?a \<le> val_stake v" by (rule slash_amount_le [OF assms(1)])
  have sc: "val_slash_count v' = saturating_add (val_slash_count v) 1"
    using assms le by (auto simp: validator_slash_def checked_sub_def Let_def not_less split: if_splits)
  have u: "unat (saturating_add (val_slash_count v) 1) = min (unat (val_slash_count v) + 1) (2 ^ 32 - 1)"
    by (simp add: unat_saturating_add)
  have "2 \<le> unat (val_slash_count v) \<longrightarrow> (3 :: u32) \<le> saturating_add (val_slash_count v) 1"
    using u by (simp add: word_le_nat_alt)
  then have "2 \<le> unat (val_slash_count v) \<longrightarrow> val_jailed v' \<and> effective_stake v' = 0"
    using assms le by (auto simp: validator_slash_def checked_sub_def Let_def not_less effective_stake_def
        split: if_splits)
  then show ?thesis
    using validator_slash_stake [OF assms] le u
    by (intro exI [of _ ?a]) (simp add: unat_slash_amount sc unat_sub_no_underflow word_le_nat_alt)
qed

theorem validator_slash_exact_witness:
  "let v = \<lparr> val_address = addr 1, val_public_key = [], val_finality_public_key = [], val_stake = 1999,
       val_commission_rate = 500, val_active = True, val_jailed = False, val_slash_count = 2,
       val_last_active_slot = 0, val_vrf_public_key = [] \<rparr>
   in unat (val_stake (snd (validator_slash 500 v))) = 1900 \<and> val_jailed (snd (validator_slash 500 v))"
proof -
  let ?v = "\<lparr> val_address = addr 1, val_public_key = [], val_finality_public_key = [], val_stake = 1999,
       val_commission_rate = 500, val_active = True, val_jailed = False, val_slash_count = 2,
       val_last_active_slot = 0, val_vrf_public_key = [] \<rparr>"
  have "500 \<le> MAX_COMMISSION_RATE" by (simp add: MAX_COMMISSION_RATE_def)
  from validator_slash_exact [OF this, of ?v "fst (validator_slash 500 ?v)" "snd (validator_slash 500 ?v)"]
  show ?thesis by auto
qed

text \<open>The byte string an account is hashed from determines the account, code hash present or
  not: two accounts with equal hashes are equal unless the hash function collides.\<close>

theorem account_hash_binding:
  assumes "account_wf x" "account_wf y" "x \<noteq> y" "account_hash hash_data x = account_hash hash_data y"
  shows "account_preimage x \<noteq> account_preimage y \<and>
    hash_data (account_preimage x) = hash_data (account_preimage y)"
  using account_preimage_inject assms by (auto simp: account_hash_def)

theorem account_hash_binding_witness:
  "account_preimage (account_new (addr 1)) \<noteq> account_preimage (account_with_balance (addr 1) 5)"
  using account_hash_binding [of "account_new (addr 1)" "account_with_balance (addr 1) 5" "\<lambda>_. []"]
  by (simp add: account_wf_def account_new_def account_with_balance_def account_hash_def addr_def)

text \<open>Staking and unstaking move units between balance and stake and create or destroy none,
  and a refused staking changes nothing.\<close>

theorem stake_conservation:
  assumes "add_stake a x = (ok, x')"
  shows "unat (acc_balance x') + unat (acc_stake x') = unat (acc_balance x) + unat (acc_stake x) \<and>
    (\<not> ok \<longrightarrow> x' = x) \<and>
    (fst (remove_stake a x) \<longrightarrow>
      unat (acc_balance (snd (remove_stake a x))) + unat (acc_stake (snd (remove_stake a x))) =
      unat (acc_balance x) + unat (acc_stake x))"
  using assms
  by (auto simp: add_stake_def remove_stake_def add_balance_def checked_add_def checked_sub_def
      unat_add_no_overflow unat_sub_no_underflow word_le_nat_alt split: if_splits)

theorem stake_conservation_witness:
  "let x = account_with_balance (addr 1) 50; x' = snd (add_stake 20 x)
   in unat (acc_balance x') + unat (acc_stake x') = 50 \<and> acc_stake x' = 20"
  using stake_conservation [of 20 "account_with_balance (addr 1) 50" True
      "snd (add_stake 20 (account_with_balance (addr 1) 50))"]
  by (simp add: add_stake_def account_with_balance_def checked_add_def checked_sub_def Let_def)

text \<open>When the balance cannot take the returned stake, \<open>remove_stake\<close> reports failure but the
  stake is gone: the account is poorer by the whole amount.\<close>

theorem remove_stake_failure_loses_stake:
  assumes "a \<le> acc_stake x" "2 ^ 128 \<le> unat (acc_balance x) + unat a"
  shows "\<not> fst (remove_stake a x) \<and> acc_balance (snd (remove_stake a x)) = acc_balance x \<and>
    unat (acc_stake (snd (remove_stake a x))) + unat a = unat (acc_stake x)"
  using assms by (simp add: remove_stake_def add_balance_def checked_add_def checked_sub_def
      unat_sub_no_underflow word_le_nat_alt)

theorem remove_stake_failure_loses_stake_witness:
  "let x = (account_with_balance (addr 1) max_value)\<lparr>acc_stake := 9\<rparr>
   in \<not> fst (remove_stake 4 x) \<and> unat (acc_stake (snd (remove_stake 4 x))) + 4 = 9"
  using remove_stake_failure_loses_stake [of 4 "(account_with_balance (addr 1) max_value)\<lparr>acc_stake := 9\<rparr>"]
  by (simp add: account_with_balance_def unat_max_value Let_def)

end
