(* ===== verification/Transaction.thy ===== *)
theory Transaction
  imports Account
begin

text \<open>
  Domain-separated messages (\<open>crypto/domains.rs\<close>) and transactions
  (\<open>types/transaction.rs\<close>): the bytes a transaction is signed over, the time window, the
  balance commitment and the shard an address belongs to.
\<close>

section \<open>Signing domains\<close>

definition ascii :: "string \<Rightarrow> bytes" where
  "ascii s = map of_char s"

definition with_domain :: "bytes \<Rightarrow> bytes \<Rightarrow> bytes" where
  "with_domain domain message = to_le_bytes (of_nat (length domain) :: u16) @ domain @ message"

definition DOMAIN_TX :: bytes where "DOMAIN_TX = ascii ''QUANTOS_TX_V1''"
definition DOMAIN_VERTEX :: bytes where "DOMAIN_VERTEX = ascii ''QUANTOS_VERTEX_V1''"
definition DOMAIN_COMMITTEE_VOTE :: bytes where
  "DOMAIN_COMMITTEE_VOTE = ascii ''QUANTOS_COMMITTEE_VOTE_V1''"
definition DOMAIN_CHECKPOINT :: bytes where "DOMAIN_CHECKPOINT = ascii ''QUANTOS_CHECKPOINT_V1''"
definition DOMAIN_VIEW_CHANGE :: bytes where "DOMAIN_VIEW_CHANGE = ascii ''QUANTOS_VIEW_CHANGE_V1''"
definition DOMAIN_PIPELINE_VOTE :: bytes where
  "DOMAIN_PIPELINE_VOTE = ascii ''QUANTOS_PIPELINE_VOTE_V1''"
definition DOMAIN_VRF_PRF :: bytes where "DOMAIN_VRF_PRF = ascii ''QUANTOS_VRF_PRF_V1''"
definition DOMAIN_VRF_OUTPUT :: bytes where "DOMAIN_VRF_OUTPUT = ascii ''QUANTOS_VRF_OUTPUT_V1''"
definition DOMAIN_VRF_PROVE :: bytes where "DOMAIN_VRF_PROVE = ascii ''QUANTOS_VRF_PROVE_V1''"
definition DOMAIN_CSAP_VOTE :: bytes where "DOMAIN_CSAP_VOTE = ascii ''QUANTOS_CSAP_VOTE_V1''"
definition DOMAIN_CSAP_ACK :: bytes where "DOMAIN_CSAP_ACK = ascii ''QUANTOS_CSAP_ACK_V1''"
definition DOMAIN_SLASH_DOUBLE_SIGN :: bytes where
  "DOMAIN_SLASH_DOUBLE_SIGN = ascii ''QUANTOS_SLASH_DS_V1''"
definition DOMAIN_SLASH_EQUIVOC :: bytes where "DOMAIN_SLASH_EQUIVOC = ascii ''QUANTOS_SLASH_EQ_V1''"
definition DOMAIN_SLASH_INVALID_BLOCK :: bytes where
  "DOMAIN_SLASH_INVALID_BLOCK = ascii ''QUANTOS_SLASH_IBLOCK_V1''"
definition DOMAIN_SLASH_FRONT_RUN :: bytes where
  "DOMAIN_SLASH_FRONT_RUN = ascii ''QUANTOS_SLASH_FRUN_V1''"
definition DOMAIN_PQ_PEER_ID :: bytes where "DOMAIN_PQ_PEER_ID = ascii ''QUANTOS_PQ_PEER_ID_V1''"
definition DOMAIN_PQ_KEM_HANDSHAKE :: bytes where
  "DOMAIN_PQ_KEM_HANDSHAKE = ascii ''QUANTOS_PQ_KEM_HS_V1''"

lemmas domain_defs = DOMAIN_TX_def DOMAIN_VERTEX_def DOMAIN_COMMITTEE_VOTE_def DOMAIN_CHECKPOINT_def
  DOMAIN_VIEW_CHANGE_def DOMAIN_PIPELINE_VOTE_def DOMAIN_VRF_PRF_def DOMAIN_VRF_OUTPUT_def
  DOMAIN_VRF_PROVE_def DOMAIN_CSAP_VOTE_def DOMAIN_CSAP_ACK_def DOMAIN_SLASH_DOUBLE_SIGN_def
  DOMAIN_SLASH_EQUIVOC_def DOMAIN_SLASH_INVALID_BLOCK_def DOMAIN_SLASH_FRONT_RUN_def
  DOMAIN_PQ_PEER_ID_def DOMAIN_PQ_KEM_HANDSHAKE_def

definition all_domains :: "bytes list" where
  "all_domains = [DOMAIN_TX, DOMAIN_VERTEX, DOMAIN_COMMITTEE_VOTE, DOMAIN_CHECKPOINT,
    DOMAIN_VIEW_CHANGE, DOMAIN_PIPELINE_VOTE, DOMAIN_VRF_PRF, DOMAIN_VRF_OUTPUT, DOMAIN_VRF_PROVE,
    DOMAIN_CSAP_VOTE, DOMAIN_CSAP_ACK, DOMAIN_SLASH_DOUBLE_SIGN, DOMAIN_SLASH_EQUIVOC,
    DOMAIN_SLASH_INVALID_BLOCK, DOMAIN_SLASH_FRONT_RUN, DOMAIN_PQ_PEER_ID, DOMAIN_PQ_KEM_HANDSHAKE]"

section \<open>Transactions\<close>

datatype transaction_type =
    TxTransfer | TxStake | TxUnstake | TxStakeTransfer
  | TxValidatorRegister | TxValidatorExit | TxContractCall | TxContractDeploy

datatype vm_kind = Qvm | Evm

record priority_boost =
  boost_locked :: u64
  boost_lock_duration_blocks :: u64

record transaction =
  tx_type :: transaction_type
  tx_from :: address
  tx_to :: address
  tx_amount :: amount
  tx_nonce :: u64
  tx_max_compute_units :: u64
  tx_boost :: "priority_boost option"
  tx_vm_kind :: vm_kind
  tx_data :: bytes
  tx_shard_id :: u16
  tx_timestamp :: u64
  tx_signature :: bytes
  tx_public_key :: bytes
  tx_chain_id :: u64

fun transaction_type_u8 :: "transaction_type \<Rightarrow> u8" where
  "transaction_type_u8 TxTransfer = 0"
| "transaction_type_u8 TxStake = 1"
| "transaction_type_u8 TxUnstake = 2"
| "transaction_type_u8 TxStakeTransfer = 3"
| "transaction_type_u8 TxValidatorRegister = 4"
| "transaction_type_u8 TxValidatorExit = 5"
| "transaction_type_u8 TxContractCall = 6"
| "transaction_type_u8 TxContractDeploy = 7"

fun vm_kind_u8 :: "vm_kind \<Rightarrow> u8" where
  "vm_kind_u8 Qvm = 0"
| "vm_kind_u8 Evm = 1"

text \<open>\<open>new_with_vm_kind\<close> with the clock reading \<open>now\<close> as an argument; \<open>new\<close> fixes the VM to QVM.\<close>

definition transaction_new_with_vm_kind ::
  "u64 \<Rightarrow> transaction_type \<Rightarrow> address \<Rightarrow> address \<Rightarrow> amount \<Rightarrow> u64 \<Rightarrow> u64 \<Rightarrow> priority_boost option \<Rightarrow>
    vm_kind \<Rightarrow> bytes \<Rightarrow> u16 \<Rightarrow> transaction" where
  "transaction_new_with_vm_kind now ty from to amount nonce max_cu boost vm data shard_id =
    \<lparr> tx_type = ty, tx_from = from, tx_to = to, tx_amount = amount, tx_nonce = nonce,
      tx_max_compute_units = max_cu, tx_boost = boost, tx_vm_kind = vm, tx_data = data,
      tx_shard_id = shard_id, tx_timestamp = now, tx_signature = [], tx_public_key = [],
      tx_chain_id = 1 \<rparr>"

definition transaction_new ::
  "u64 \<Rightarrow> transaction_type \<Rightarrow> address \<Rightarrow> address \<Rightarrow> amount \<Rightarrow> u64 \<Rightarrow> u64 \<Rightarrow> priority_boost option \<Rightarrow>
    bytes \<Rightarrow> u16 \<Rightarrow> transaction" where
  "transaction_new now ty from to amount nonce max_cu boost data shard_id =
    transaction_new_with_vm_kind now ty from to amount nonce max_cu boost Qvm data shard_id"

definition tx_message :: "transaction \<Rightarrow> bytes" where
  "tx_message t =
    [transaction_type_u8 (tx_type t)] @ tx_from t @ tx_to t @ to_le_bytes (tx_amount t) @
    to_le_bytes (tx_nonce t) @ to_le_bytes (tx_max_compute_units t) @
    (case tx_boost t of
       Some b \<Rightarrow> to_le_bytes (boost_locked b) @ to_le_bytes (boost_lock_duration_blocks b)
     | None \<Rightarrow> to_le_bytes (0 :: u64) @ to_le_bytes (0 :: u64)) @
    [vm_kind_u8 (tx_vm_kind t)] @ tx_data t @ to_le_bytes (tx_shard_id t) @
    to_le_bytes (tx_timestamp t) @ to_le_bytes (tx_chain_id t)"

definition tx_signing_data :: "transaction \<Rightarrow> bytes" where
  "tx_signing_data t = with_domain DOMAIN_TX (tx_message t)"

definition tx_hash :: "(bytes \<Rightarrow> hash) \<Rightarrow> transaction \<Rightarrow> hash" where
  "tx_hash hash_data t = hash_data (tx_signing_data t)"

definition tx_set_signature ::
  "(bytes \<Rightarrow> bytes \<Rightarrow> bytes \<Rightarrow> bool) \<Rightarrow> bytes \<Rightarrow> bytes \<Rightarrow> transaction \<Rightarrow> (string + unit) \<times> transaction" where
  "tx_set_signature verify_batch signature public_key t =
    (if verify_batch public_key (tx_signing_data t) signature
     then (Inr (), t\<lparr>tx_signature := signature, tx_public_key := public_key\<rparr>)
     else (Inl ''Invalid signature'', t))"

definition tx_set_signature_unchecked :: "bytes \<Rightarrow> bytes \<Rightarrow> transaction \<Rightarrow> transaction" where
  "tx_set_signature_unchecked signature public_key t =
    t\<lparr>tx_signature := signature, tx_public_key := public_key\<rparr>"

definition MAX_TIMESTAMP_DRIFT :: u64 where "MAX_TIMESTAMP_DRIFT = 30"

definition validate_timestamp :: "u64 \<Rightarrow> transaction \<Rightarrow> string + unit" where
  "validate_timestamp current_time t =
    (if tx_timestamp t > current_time + MAX_TIMESTAMP_DRIFT
     then Inl ''Transaction timestamp too far in future''
     else if current_time > tx_timestamp t + MAX_TIMESTAMP_DRIFT
     then Inl ''Transaction timestamp too old''
     else Inr ())"

definition boost_locked_tokens :: "transaction \<Rightarrow> u64" where
  "boost_locked_tokens t = unwrap_or (map_option boost_locked (tx_boost t)) 0"

definition balance_commitment :: "transaction \<Rightarrow> u128 option" where
  "balance_commitment t = checked_add (tx_amount t) (ucast (boost_locked_tokens t))"

text \<open>\<open>value % num_shards\<close> panics for \<open>num_shards = 0\<close>, the result None.\<close>

definition target_shard :: "address \<Rightarrow> u16 \<Rightarrow> u16 option" where
  "target_shard a num_shards =
    (if num_shards = 0 then None
     else Some (ucast ((from_le_bytes (take 8 a) :: u64) mod ucast num_shards)))"

record signed_transaction =
  stx_transaction :: transaction
  stx_hash :: hash
  stx_size :: nat

definition signed_transaction_new ::
  "(bytes \<Rightarrow> hash) \<Rightarrow> (transaction \<Rightarrow> nat option) \<Rightarrow> transaction \<Rightarrow> signed_transaction" where
  "signed_transaction_new hash_data serialized_size t =
    \<lparr> stx_transaction = t, stx_hash = tx_hash hash_data t,
      stx_size = unwrap_or (serialized_size t) 0 \<rparr>"

datatype transaction_status = Pending | Included | PreConfirmed | Finalized | Failed string

record log =
  log_address :: address
  log_topics :: "hash list"
  log_data :: bytes

record receipt =
  rc_tx_hash :: hash
  rc_status :: transaction_status
  rc_cu_used :: u64
  rc_vertex_hash :: hash
  rc_shard_id :: u16
  rc_logs :: "log list"
  rc_slot :: u64
  rc_from :: address
  rc_to :: address
  rc_success :: bool

definition transaction_wf :: "transaction \<Rightarrow> bool" where
  "transaction_wf t \<longleftrightarrow> length (tx_from t) = 32 \<and> length (tx_to t) = 32"

text \<open>What the signature covers: everything but the signature and the public key, with an absent
  boost read as the boost of zero tokens for zero blocks.\<close>

definition signed_part :: "transaction \<Rightarrow> transaction" where
  "signed_part t = t\<lparr>tx_signature := [], tx_public_key := [],
    tx_boost := Some (case tx_boost t of
       Some b \<Rightarrow> \<lparr> boost_locked = boost_locked b, boost_lock_duration_blocks = boost_lock_duration_blocks b \<rparr>
     | None \<Rightarrow> \<lparr> boost_locked = 0, boost_lock_duration_blocks = 0 \<rparr>)\<rparr>"

section \<open>Lemmas\<close>

lemma with_domain_inject:
  assumes "length d < 2 ^ 16" "length d' < 2 ^ 16" "with_domain d m = with_domain d' m'"
  shows "d = d' \<and> m = m'"
proof -
  have "to_le_bytes (of_nat (length d) :: u16) = to_le_bytes (of_nat (length d') :: u16)"
    and rest: "d @ m = d' @ m'"
    using assms(3) by (simp_all add: with_domain_def)
  then have "(of_nat (length d) :: u16) = of_nat (length d')"
    by (simp add: to_le_bytes_inject)
  then have "length d = length d'"
    using assms(1,2) by (auto dest!: arg_cong [of _ _ unat] simp: unat_of_nat)
  with rest show ?thesis by simp
qed

lemma transaction_type_u8_inject: "transaction_type_u8 a = transaction_type_u8 b \<longleftrightarrow> a = b"
  by (cases a; cases b) simp_all

lemma vm_kind_u8_inject: "vm_kind_u8 a = vm_kind_u8 b \<longleftrightarrow> a = b"
  by (cases a; cases b) simp_all


definition boost_bytes :: "priority_boost option \<Rightarrow> bytes" where
  "boost_bytes b = (case b of
     Some b \<Rightarrow> to_le_bytes (boost_locked b) @ to_le_bytes (boost_lock_duration_blocks b)
   | None \<Rightarrow> to_le_bytes (0 :: u64) @ to_le_bytes (0 :: u64))"

lemma length_boost_bytes [simp]: "length (boost_bytes b) = 16"
  by (simp add: boost_bytes_def split: option.splits)

lemma boost_bytes_inject:
  "boost_bytes (tx_boost t) = boost_bytes (tx_boost u) \<longleftrightarrow> tx_boost (signed_part t) = tx_boost (signed_part u)"
  by (simp add: boost_bytes_def signed_part_def to_le_bytes_inject split: option.splits)

lemma tx_message_inject:
  assumes "transaction_wf t" "transaction_wf u" "tx_message t = tx_message u"
  shows "signed_part t = signed_part u"
proof -
  have msg: "tx_message x =
      [transaction_type_u8 (tx_type x)] @ tx_from x @ tx_to x @ to_le_bytes (tx_amount x) @
      to_le_bytes (tx_nonce x) @ to_le_bytes (tx_max_compute_units x) @ boost_bytes (tx_boost x) @
      [vm_kind_u8 (tx_vm_kind x)] @ tx_data x @ to_le_bytes (tx_shard_id x) @
      to_le_bytes (tx_timestamp x) @ to_le_bytes (tx_chain_id x)" for x
    by (simp add: tx_message_def boost_bytes_def)
  note wf = assms(1,2) [unfolded transaction_wf_def]
  have "length (tx_data t) = length (tx_data u)"
    using arg_cong [OF assms(3), of length] wf by (simp add: msg)
  then have eqs: "transaction_type_u8 (tx_type t) = transaction_type_u8 (tx_type u)" "tx_from t = tx_from u"
    "tx_to t = tx_to u" "to_le_bytes (tx_amount t) = to_le_bytes (tx_amount u)"
    "to_le_bytes (tx_nonce t) = to_le_bytes (tx_nonce u)"
    "to_le_bytes (tx_max_compute_units t) = to_le_bytes (tx_max_compute_units u)"
    "boost_bytes (tx_boost t) = boost_bytes (tx_boost u)"
    "vm_kind_u8 (tx_vm_kind t) = vm_kind_u8 (tx_vm_kind u)" "tx_data t = tx_data u"
    "to_le_bytes (tx_shard_id t) = to_le_bytes (tx_shard_id u)"
    "to_le_bytes (tx_timestamp t) = to_le_bytes (tx_timestamp u)"
    "to_le_bytes (tx_chain_id t) = to_le_bytes (tx_chain_id u)"
    using assms(3) wf unfolding msg by simp_all
  then show ?thesis
    by (intro transaction.equality)
       (simp_all add: transaction_type_u8_inject vm_kind_u8_inject to_le_bytes_inject boost_bytes_inject,
        simp_all add: signed_part_def)
qed

lemma domain_lengths: "list_all (\<lambda>d. length d < 2 ^ 16) all_domains"
  by (simp add: all_domains_def domain_defs ascii_def)

lemma all_domains_distinct: "distinct all_domains"
  by (simp add: all_domains_def domain_defs ascii_def)

lemma target_shard_less:
  assumes "target_shard a n = Some s"
  shows "s < n"
proof -
  let ?v = "(from_le_bytes (take 8 a) :: u64) mod ucast n"
  have n: "n \<noteq> 0" "s = ucast ?v" using assms by (simp_all add: target_shard_def split: if_splits)
  have "unat (ucast n :: u64) = unat n" by (rule unat_ucast_widen) simp
  moreover have "0 < unat n" using n(1) by (simp add: unat_gt_0)
  ultimately have lt: "unat ?v < unat n" by (simp add: unat_mod)
  then have "unat ?v < 2 ^ LENGTH(16)" using unat_less_exp [of n] by linarith
  then have "unat s = unat ?v" unfolding n(2) by (simp add: unsigned_ucast_eq take_bit_nat_eq_self)
  with lt show ?thesis by (simp add: word_less_nat_alt)
qed

lemma validate_timestamp_window:
  assumes "unat now + 30 < 2 ^ 64" "unat (tx_timestamp t) + 30 < 2 ^ 64"
  shows "validate_timestamp now t = Inr () \<longleftrightarrow>
    unat (tx_timestamp t) \<le> unat now + 30 \<and> unat now \<le> unat (tx_timestamp t) + 30"
proof -
  have "unat (now + MAX_TIMESTAMP_DRIFT) = unat now + 30"
    "unat (tx_timestamp t + MAX_TIMESTAMP_DRIFT) = unat (tx_timestamp t) + 30"
    using assms by (simp_all add: MAX_TIMESTAMP_DRIFT_def unat_add_no_overflow)
  then show ?thesis by (simp add: validate_timestamp_def word_less_nat_alt not_less)
qed

section \<open>Properties\<close>

text \<open>No two messages signed under the domain tags of the node share their bytes: equal signed
  bytes mean the same domain and the same message.\<close>

theorem domain_separation:
  assumes "d \<in> set all_domains" "d' \<in> set all_domains" "with_domain d m = with_domain d' m'"
  shows "d = d' \<and> m = m'"
  using with_domain_inject [of d d' m m'] domain_lengths assms by (simp add: list_all_iff)

theorem domain_separation_witness:
  "with_domain DOMAIN_TX [1] \<noteq> with_domain DOMAIN_CHECKPOINT [1]"
  using domain_separation [of DOMAIN_TX DOMAIN_CHECKPOINT "[1]" "[1]"]
  by (auto simp: all_domains_def domain_defs ascii_def)

text \<open>C28: The bytes a transaction is signed over determine everything the signature is meant to
  cover; only the absence of a boost and a boost of zero tokens for zero blocks coincide.\<close>

theorem tx_signing_data_binding:
  assumes "transaction_wf t" "transaction_wf u" "tx_signing_data t = tx_signing_data u"
  shows "signed_part t = signed_part u"
  using assms with_domain_inject [of DOMAIN_TX DOMAIN_TX "tx_message t" "tx_message u"]
    tx_message_inject [OF assms(1,2)]
  by (simp add: tx_signing_data_def DOMAIN_TX_def ascii_def)

theorem tx_signing_data_binding_witness:
  "tx_signing_data (transaction_new 7 TxTransfer (addr 1) (addr 2) 5 0 10 None [] 0) \<noteq>
   tx_signing_data (transaction_new 7 TxTransfer (addr 1) (addr 2) 6 0 10 None [] 0)"
  using tx_signing_data_binding [of "transaction_new 7 TxTransfer (addr 1) (addr 2) 5 0 10 None [] 0"
      "transaction_new 7 TxTransfer (addr 1) (addr 2) 6 0 10 None [] 0"]
  by (auto simp: transaction_new_def transaction_new_with_vm_kind_def transaction_wf_def signed_part_def addr_def)

end
