(* ===== verification/Committee.thy ===== *)
theory Committee
  imports Transaction
begin

text \<open>
  Committees and their manager (\<open>consensus/committee.rs\<close>): the quorum threshold, the
  stake-weighted selection of members by rejection sampling, rotation, and the registration of
  validators.  \<open>stake_quorum\<close> is the interface of everything that counts stake against a
  two-thirds threshold.  SHA3-256 and ML-DSA-65 verification are parameters.
\<close>

section \<open>Errors\<close>

datatype consensus_error =
    InvalidVertex string
  | InvalidVote string
  | QuorumNotReached
  | NotCommitteeMember
  | InvalidVRFProof
  | CheckpointVerificationFailed
  | StorageError string
  | CryptoError string
  | ResourceExhausted string
  | ArithmeticOverflow string
  | Unauthorized string
  | InvalidData string
  | InvalidValidator string

section \<open>Committees\<close>

record committee_member =
  mem_address :: address
  mem_stake :: u128
  mem_vrf_proof :: "bytes option"
  mem_active :: bool

record committee =
  com_id :: u16
  com_epoch :: u64
  com_shard_id :: u16
  com_members :: "committee_member list"
  com_total_stake :: u128

definition quorum_threshold :: "committee \<Rightarrow> consensus_error + u128" where
  "quorum_threshold c =
    (case checked_mul (com_total_stake c) 2 of
       None \<Rightarrow> Inl (ArithmeticOverflow ''Quorum calculation overflow: total_stake too large'')
     | Some doubled \<Rightarrow>
         (let threshold = doubled div 3 in
          ok_or (checked_add threshold 1) (ArithmeticOverflow ''Quorum threshold overflow'')))"

definition has_member :: "address \<Rightarrow> committee \<Rightarrow> bool" where
  "has_member a c = list_ex (\<lambda>m. mem_address m = a) (com_members c)"

definition get_member :: "address \<Rightarrow> committee \<Rightarrow> committee_member option" where
  "get_member a c = find (\<lambda>m. mem_address m = a) (com_members c)"

definition member_count :: "committee \<Rightarrow> nat" where
  "member_count c = length (com_members c)"

section \<open>Committee manager\<close>

text \<open>The fields \<open>cm_stored_set\<close> and \<open>cm_stored_validators\<close> are what the manager has written to
  the database: the validator set under epoch 0 and the single validators.\<close>

record committee_manager =
  cm_current_epoch :: u64
  cm_committees :: "u64 \<times> u16 \<rightharpoonup> committee"
  cm_validator_set :: validator_set
  cm_num_committees :: u16
  cm_validators_per_committee :: nat
  cm_stored_set :: "validator_set option"
  cm_stored_validators :: "address \<rightharpoonup> validator"

definition committee_manager_new ::
  "validator_set option \<Rightarrow> (address \<rightharpoonup> validator) \<Rightarrow> u16 \<Rightarrow> nat \<Rightarrow> committee_manager" where
  "committee_manager_new stored stored_validators num_committees validators_per_committee =
    \<lparr> cm_current_epoch = 0, cm_committees = Map.empty,
      cm_validator_set =
        (case stored of
           Some vset \<Rightarrow> if vs_validators vset \<noteq> [] then vset else validator_set_new
         | None \<Rightarrow> validator_set_new),
      cm_num_committees = num_committees, cm_validators_per_committee = validators_per_committee,
      cm_stored_set = stored, cm_stored_validators = stored_validators \<rparr>"

definition compute_committee_seed ::
  "(bytes \<Rightarrow> hash) \<Rightarrow> u64 \<Rightarrow> u64 \<Rightarrow> u16 \<Rightarrow> hash \<Rightarrow> hash" where
  "compute_committee_seed hash_data epoch slot committee_id randomness =
    hash_data (to_le_bytes epoch @ to_le_bytes slot @ to_le_bytes committee_id @ randomness)"

text \<open>The rejection-sampling loop: it draws 128-bit values from a hash chain until one is below the
  largest multiple of the total stake.  The chain may never produce one, the value None.\<close>

partial_function (option) sample_loop ::
  "(bytes \<Rightarrow> hash) \<Rightarrow> u128 \<Rightarrow> bytes \<Rightarrow> hash \<Rightarrow> u128 option" where
  "sample_loop hash_data total_stake suffix seed =
    (let value = from_le_bytes (take 16 seed);
         max_unbiased = (max_value div total_stake) * total_stake in
     if value < max_unbiased then Some (value mod total_stake)
     else sample_loop hash_data total_stake suffix (hash_data (seed @ suffix)))"

text \<open>The walk over the validators: the first one not used yet whose cumulative stake exceeds the
  drawn value.\<close>

fun pick_member ::
  "u128 \<Rightarrow> nat set \<Rightarrow> u128 \<Rightarrow> nat \<Rightarrow> validator list \<Rightarrow> (nat \<times> validator) option" where
  "pick_member selection_value used cumulative idx [] = None"
| "pick_member selection_value used cumulative idx (v # vs) =
    (let cumulative = cumulative + val_stake v in
     if selection_value < cumulative \<and> idx \<notin> used then Some (idx, v)
     else pick_member selection_value used cumulative (Suc idx) vs)"

definition member_of :: "validator \<Rightarrow> committee_member" where
  "member_of v = \<lparr> mem_address = val_address v, mem_stake = val_stake v, mem_vrf_proof = None,
     mem_active = True \<rparr>"

text \<open>The draws \<open>i, i + 1, ...\<close> of one committee, \<open>n\<close> of them left, of \<open>k\<close> in all.\<close>

fun select_loop ::
  "(bytes \<Rightarrow> hash) \<Rightarrow> validator list \<Rightarrow> u128 \<Rightarrow> hash \<Rightarrow> nat \<Rightarrow> nat \<Rightarrow> nat \<Rightarrow> nat set \<Rightarrow>
    committee_member list \<Rightarrow> committee_member list option" where
  "select_loop hash_data vs total_stake seed k i 0 used members = Some members"
| "select_loop hash_data vs total_stake seed k i (Suc n) used members =
    (case sample_loop hash_data total_stake [of_nat i] (hash_data (seed @ to_le_bytes (of_nat i :: u64))) of
       None \<Rightarrow> None
     | Some selection_value \<Rightarrow>
         (let (used, members) =
            (case pick_member selection_value used 0 0 vs of
               Some (idx, v) \<Rightarrow> (insert idx used, members @ [member_of v])
             | None \<Rightarrow> (used, members))
          in if length members \<ge> k then Some members
             else select_loop hash_data vs total_stake seed k (Suc i) n used members))"

definition select_committee_members ::
  "(bytes \<Rightarrow> hash) \<Rightarrow> nat \<Rightarrow> validator list \<Rightarrow> hash \<Rightarrow> committee_member list option" where
  "select_committee_members hash_data k vs seed =
    (let total_stake = sum_list (map val_stake vs) in
     if total_stake = 0 then Some []
     else select_loop hash_data vs total_stake seed k 0 k {} [])"

text \<open>One committee per id below \<open>num_committees\<close>; a selection that does not return stops the
  rotation, the value None.\<close>

fun rotate_loop ::
  "(bytes \<Rightarrow> hash) \<Rightarrow> u64 \<Rightarrow> u64 \<Rightarrow> hash \<Rightarrow> validator list \<Rightarrow> u16 list \<Rightarrow> committee_manager \<Rightarrow>
    committee_manager option" where
  "rotate_loop hash_data epoch slot randomness vs [] cm = Some cm"
| "rotate_loop hash_data epoch slot randomness vs (committee_id # ids) cm =
    (let seed = compute_committee_seed hash_data epoch slot committee_id randomness in
     case select_committee_members hash_data (cm_validators_per_committee cm) vs seed of
       None \<Rightarrow> None
     | Some members \<Rightarrow>
         rotate_loop hash_data epoch slot randomness vs ids
           (cm\<lparr>cm_committees := (cm_committees cm)((epoch, committee_id) \<mapsto>
              \<lparr> com_id = committee_id, com_epoch = epoch, com_shard_id = committee_id,
                com_members = members, com_total_stake = sum_list (map mem_stake members) \<rparr>)\<rparr>))"

definition rotate_committees ::
  "(bytes \<Rightarrow> hash) \<Rightarrow> u64 \<Rightarrow> u64 \<Rightarrow> hash \<Rightarrow> committee_manager \<Rightarrow> committee_manager option" where
  "rotate_committees hash_data epoch slot randomness cm =
    (let vs = active_validators (cm_validator_set cm) in
     if vs = [] then Some cm
     else map_option (\<lambda>cm. cm\<lparr>cm_current_epoch := epoch\<rparr>)
       (rotate_loop hash_data epoch slot randomness vs
         (map of_nat [0..<unat (cm_num_committees cm)]) cm))"

definition get_committee :: "u64 \<Rightarrow> u16 \<Rightarrow> committee_manager \<Rightarrow> committee option" where
  "get_committee epoch committee_id cm = cm_committees cm (epoch, committee_id)"

text \<open>\<open>shard_id % num_committees\<close> panics without committees, the outer None.\<close>

definition get_committee_for_shard ::
  "u64 \<Rightarrow> u16 \<Rightarrow> committee_manager \<Rightarrow> committee option option" where
  "get_committee_for_shard epoch shard_id cm =
    (if cm_num_committees cm = 0 then None
     else Some (get_committee epoch (shard_id mod cm_num_committees cm) cm))"

definition is_committee_member :: "u64 \<Rightarrow> u16 \<Rightarrow> address \<Rightarrow> committee_manager \<Rightarrow> bool" where
  "is_committee_member epoch committee_id a cm =
    unwrap_or (map_option (has_member a) (get_committee epoch committee_id cm)) False"

section \<open>Votes\<close>

record committee_vote =
  cv_validator :: address
  cv_vertex_hash :: hash
  cv_approve :: bool
  cv_stake_weight :: u64
  cv_signature :: bytes
  cv_timestamp :: u64

definition vote_signing_data :: "committee_vote \<Rightarrow> bytes" where
  "vote_signing_data v = with_domain DOMAIN_COMMITTEE_VOTE
    (cv_validator v @ cv_vertex_hash v @ [if cv_approve v then 1 else 0] @
     to_le_bytes (cv_stake_weight v) @ to_le_bytes (cv_timestamp v))"

type_synonym verify_fn = "bytes \<Rightarrow> bytes \<Rightarrow> bytes \<Rightarrow> string + bool"

definition verify_committee_vote ::
  "verify_fn \<Rightarrow> committee_vote \<Rightarrow> u64 \<Rightarrow> u16 \<Rightarrow> committee_manager \<Rightarrow> consensus_error + bool" where
  "verify_committee_vote verify vote epoch committee_id cm =
    (case get_committee epoch committee_id cm of
       None \<Rightarrow> Inl NotCommitteeMember
     | Some c \<Rightarrow>
         if \<not> has_member (cv_validator vote) c then Inl NotCommitteeMember else
         (case get_validator (cv_validator vote) (cm_validator_set cm) of
            None \<Rightarrow> Inl (InvalidValidator
                (''Validator '' @ debug_bytes (cv_validator vote) @ '' not found''))
          | Some v \<Rightarrow>
              if \<not> val_active v \<or> val_jailed v then Inr False else
              (case verify (val_public_key v) (vote_signing_data vote) (cv_signature vote) of
                 Inl e \<Rightarrow> Inl (CryptoError e)
               | Inr valid \<Rightarrow> Inr valid)))"

section \<open>Registration\<close>

datatype register_error = ZeroStake | StakeAboveSafeMaximum u128 | SetRefused account_error

text \<open>Writes to the database that fail are only logged; \<open>disk_ok\<close> says whether they succeed.\<close>

definition cm_add_validator ::
  "bool \<Rightarrow> validator \<Rightarrow> committee_manager \<Rightarrow> (register_error + unit) \<times> committee_manager" where
  "cm_add_validator disk_ok v cm =
    (if val_stake v = 0 then (Inl ZeroStake, cm) else
     if val_stake v > max_value div 2 then (Inl (StakeAboveSafeMaximum (val_stake v)), cm) else
     case add_validator v (cm_validator_set cm) of
       (Inl e, vset) \<Rightarrow> (Inl (SetRefused e), cm\<lparr>cm_validator_set := vset\<rparr>)
     | (Inr _, vset) \<Rightarrow>
         (let cm = cm\<lparr>cm_validator_set := vset\<rparr> in
          (Inr (), if disk_ok
             then cm\<lparr>cm_stored_validators := (cm_stored_validators cm)(val_address v \<mapsto> v),
                     cm_stored_set := Some vset\<rparr>
             else cm)))"

definition cm_remove_validator :: "bool \<Rightarrow> address \<Rightarrow> committee_manager \<Rightarrow> committee_manager" where
  "cm_remove_validator disk_ok a cm =
    (let vset = cm_validator_set cm;
         vs = filter (\<lambda>v. val_address v \<noteq> a) (vs_validators vset);
         vset = vset\<lparr>vs_validators := vs, vs_total_stake := sum_list (map val_stake vs)\<rparr>;
         cm = cm\<lparr>cm_validator_set := vset\<rparr>
     in if disk_ok then cm\<lparr>cm_stored_set := Some vset\<rparr> else cm)"

text \<open>\<open>get_validator_mut\<close> followed by an assignment: the first validator with the address.\<close>

fun update_first :: "address \<Rightarrow> (validator \<Rightarrow> validator) \<Rightarrow> validator list \<Rightarrow> validator list" where
  "update_first a f [] = []"
| "update_first a f (v # vs) = (if val_address v = a then f v # vs else v # update_first a f vs)"

definition cm_update_with ::
  "bool \<Rightarrow> address \<Rightarrow> (validator \<Rightarrow> validator) \<Rightarrow> committee_manager \<Rightarrow> committee_manager" where
  "cm_update_with disk_ok a f cm =
    (let vset = cm_validator_set cm;
         vset' = vset\<lparr>vs_validators := update_first a f (vs_validators vset)\<rparr>;
         cm = cm\<lparr>cm_validator_set := vset'\<rparr>
     in if disk_ok
        then cm\<lparr>cm_stored_validators :=
                  (case get_validator a vset of
                     Some v \<Rightarrow> (cm_stored_validators cm)(val_address (f v) \<mapsto> f v)
                   | None \<Rightarrow> cm_stored_validators cm),
                cm_stored_set := Some vset'\<rparr>
        else cm)"

definition update_validator_vrf :: "bool \<Rightarrow> address \<Rightarrow> bytes \<Rightarrow> committee_manager \<Rightarrow> committee_manager" where
  "update_validator_vrf disk_ok a key cm =
    cm_update_with disk_ok a (\<lambda>v. v\<lparr>val_vrf_public_key := key\<rparr>) cm"

definition update_validator_finality_key ::
  "bool \<Rightarrow> address \<Rightarrow> bytes \<Rightarrow> committee_manager \<Rightarrow> committee_manager" where
  "update_validator_finality_key disk_ok a key cm =
    cm_update_with disk_ok a (\<lambda>v. v\<lparr>val_finality_public_key := key\<rparr>) cm"

definition total_validators :: "committee_manager \<Rightarrow> nat" where
  "total_validators cm = length (vs_validators (cm_validator_set cm))"

section \<open>Super committee\<close>

fun pick_address :: "u128 \<Rightarrow> u128 \<Rightarrow> validator list \<Rightarrow> address option" where
  "pick_address selection_value cumulative [] = None"
| "pick_address selection_value cumulative (v # vs) =
    (let cumulative = cumulative + val_stake v in
     if selection_value < cumulative then Some (val_address v)
     else pick_address selection_value cumulative vs)"

fun super_loop ::
  "(bytes \<Rightarrow> hash) \<Rightarrow> validator list \<Rightarrow> u128 \<Rightarrow> hash \<Rightarrow> nat list \<Rightarrow> address list \<Rightarrow> address list option" where
  "super_loop hash_data vs total_stake randomness [] selected = Some selected"
| "super_loop hash_data vs total_stake randomness (i # is) selected =
    (case sample_loop hash_data total_stake (to_le_bytes (of_nat i :: u64))
            (hash_data (randomness @ ascii ''super'' @ to_le_bytes (of_nat i :: u64))) of
       None \<Rightarrow> None
     | Some selection_value \<Rightarrow>
         (let selected =
            (case pick_address selection_value 0 vs of
               Some a \<Rightarrow> if a \<in> set selected then selected else selected @ [a]
             | None \<Rightarrow> selected)
          in super_loop hash_data vs total_stake randomness is selected))"

definition select_super_committee ::
  "(bytes \<Rightarrow> hash) \<Rightarrow> hash \<Rightarrow> committee_manager \<Rightarrow> address list option" where
  "select_super_committee hash_data randomness cm =
    (let active = active_validators (cm_validator_set cm);
         total_stake = sum_list (map val_stake active) in
     if total_stake = 0 then Some []
     else super_loop hash_data active total_stake randomness [0..<100] [])"

section \<open>Samples\<close>

definition sample_validator :: "u8 \<Rightarrow> amount \<Rightarrow> validator" where
  "sample_validator b st = \<lparr> val_address = addr b, val_public_key = [b], val_finality_public_key = [b],
     val_stake = st, val_commission_rate = 500, val_active = True, val_jailed = False,
     val_slash_count = 0, val_last_active_slot = 0, val_vrf_public_key = [] \<rparr>"

definition sample_committee :: committee where
  "sample_committee = \<lparr> com_id = 0, com_epoch = 1, com_shard_id = 0,
     com_members = map (\<lambda>b. member_of (sample_validator b 25)) [1, 2, 3, 4], com_total_stake = 100 \<rparr>"

definition sample_manager :: committee_manager where
  "sample_manager = (committee_manager_new None Map.empty 1 1)
     \<lparr>cm_validator_set := \<lparr> vs_validators = [sample_validator 1 10], vs_total_stake = 10, vs_epoch = 0 \<rparr>\<rparr>"

section \<open>Stake quorums\<close>

text \<open>The stake of a list of members, and the members of a committee that a set of addresses names.\<close>

definition stake_of :: "address set \<Rightarrow> committee \<Rightarrow> nat" where
  "stake_of A c = sum_list (map (\<lambda>m. unat (mem_stake m)) (filter (\<lambda>m. mem_address m \<in> A) (com_members c)))"

definition committee_wf :: "committee \<Rightarrow> bool" where
  "committee_wf c \<longleftrightarrow> distinct (map mem_address (com_members c)) \<and>
    unat (com_total_stake c) = sum_list (map (\<lambda>m. unat (mem_stake m)) (com_members c))"

text \<open>Counting stake against a threshold above two thirds of the total.\<close>

locale stake_quorum =
  fixes members :: "'s \<Rightarrow> 'a set"
    and weight :: "'s \<Rightarrow> 'a \<Rightarrow> nat"
    and threshold :: "'s \<Rightarrow> nat"
    and invar :: "'s \<Rightarrow> bool"
  assumes finite_members: "invar s \<Longrightarrow> finite (members s)"
    and two_thirds: "invar s \<Longrightarrow> 2 * (\<Sum>a\<in>members s. weight s a) < 3 * threshold s"
begin

lemma quorum_overlap:
  assumes inv: "invar s" and sub: "A \<subseteq> members s" "B \<subseteq> members s"
    and quo: "threshold s \<le> (\<Sum>a\<in>A. weight s a)" "threshold s \<le> (\<Sum>a\<in>B. weight s a)"
  shows "(\<Sum>a\<in>members s. weight s a) < 3 * (\<Sum>a\<in>A \<inter> B. weight s a)"
proof -
  have fin: "finite A" "finite B" using sub finite_members [OF inv] by (auto intro: finite_subset)
  have "(\<Sum>a\<in>A \<union> B. weight s a) + (\<Sum>a\<in>A \<inter> B. weight s a) = (\<Sum>a\<in>A. weight s a) + (\<Sum>a\<in>B. weight s a)"
    using fin by (rule sum.union_inter)
  moreover have "(\<Sum>a\<in>A \<union> B. weight s a) \<le> (\<Sum>a\<in>members s. weight s a)"
    using sub finite_members [OF inv] by (intro sum_mono2) auto
  ultimately show ?thesis using quo two_thirds [OF inv] by linarith
qed

lemma quorum_common_honest:
  assumes inv: "invar s" and sub: "A \<subseteq> members s" "B \<subseteq> members s"
    and quo: "threshold s \<le> (\<Sum>a\<in>A. weight s a)" "threshold s \<le> (\<Sum>a\<in>B. weight s a)"
    and faulty: "F \<subseteq> members s" "3 * (\<Sum>a\<in>F. weight s a) \<le> (\<Sum>a\<in>members s. weight s a)"
  shows "\<exists>a \<in> A \<inter> B. a \<notin> F"
proof (rule ccontr)
  assume "\<not> ?thesis"
  then have "A \<inter> B \<subseteq> F" by blast
  then have "(\<Sum>a\<in>A \<inter> B. weight s a) \<le> (\<Sum>a\<in>F. weight s a)"
    using faulty(1) finite_members [OF inv] by (intro sum_mono2) (auto intro: finite_subset)
  with quorum_overlap [OF inv sub quo] faulty(2) show False by linarith
qed

end

section \<open>Lemmas\<close>

lemma two_thirds_plus_one: "2 * n < 3 * (2 * n div 3 + 1)" for n :: nat
  by presburger

lemma quorum_threshold_value:
  assumes "quorum_threshold c = Inr q"
  shows "unat q = 2 * unat (com_total_stake c) div 3 + 1"
proof -
  have m: "unat (com_total_stake c) * 2 < 2 ^ 128" and q: "q = com_total_stake c * 2 div 3 + 1"
    and no: "unat (com_total_stake c * 2 div 3) + unat (1 :: u128) < 2 ^ 128"
    using assms unfolding quorum_threshold_def checked_mul_def
    by (simp_all add: ok_or_checked Let_def split: if_splits)
  have "unat (com_total_stake c * 2) = unat (com_total_stake c) * 2"
    using m by (simp add: unat_word_ariths)
  then show ?thesis using no unfolding q by (simp add: unat_add_no_overflow unat_div mult.commute)
qed

lemma quorum_threshold_defined:
  "unat (com_total_stake c) * 2 < 2 ^ 128 \<Longrightarrow> \<exists>q. quorum_threshold c = Inr q"
  by (simp add: quorum_threshold_def checked_mul_def rust_eval Let_def unat_div unat_word_ariths)

definition member_weight :: "committee \<Rightarrow> address \<Rightarrow> nat" where
  "member_weight c a = (case get_member a c of Some m \<Rightarrow> unat (mem_stake m) | None \<Rightarrow> 0)"

lemma find_distinct:
  "distinct (map f xs) \<Longrightarrow> x \<in> set xs \<Longrightarrow> find (\<lambda>y. f y = f x) xs = Some x"
  by (induction xs) (auto simp: image_iff)

lemma sum_member_weight:
  assumes "distinct (map mem_address (com_members c))"
  shows "(\<Sum>a\<in>mem_address ` {m \<in> set (com_members c). mem_address m \<in> A}. member_weight c a) = stake_of A c"
proof -
  let ?ms = "filter (\<lambda>m. mem_address m \<in> A) (com_members c)"
  have d: "distinct (map mem_address ?ms)" using assms by (simp add: distinct_map_filter)
  have "(\<Sum>a\<in>mem_address ` set ?ms. member_weight c a) = (\<Sum>m\<in>set ?ms. member_weight c (mem_address m))"
    using d by (intro sum.reindex_cong [OF _ refl refl]) (simp add: distinct_map)
  also have "\<dots> = (\<Sum>m\<in>set ?ms. unat (mem_stake m))"
    using assms by (intro sum.cong) (auto simp: member_weight_def get_member_def find_distinct)
  also have "\<dots> = stake_of A c"
    using d by (simp add: stake_of_def sum_list_distinct_conv_sum_set distinct_map)
  finally show ?thesis by (simp only: set_filter)
qed

interpretation cq: stake_quorum
  "\<lambda>c. mem_address ` set (com_members c)" member_weight
  "\<lambda>c. case quorum_threshold c of Inr q \<Rightarrow> unat q | Inl _ \<Rightarrow> 0"
  "\<lambda>c. committee_wf c \<and> (\<exists>q. quorum_threshold c = Inr q)"
proof
  fix c assume inv: "committee_wf c \<and> (\<exists>q. quorum_threshold c = Inr q)"
  have "(\<Sum>a\<in>mem_address ` set (com_members c). member_weight c a) = stake_of UNIV c"
    using sum_member_weight [of c UNIV] inv by (simp add: committee_wf_def)
  also have "\<dots> = unat (com_total_stake c)" using inv by (simp add: stake_of_def committee_wf_def)
  finally show "2 * (\<Sum>a\<in>mem_address ` set (com_members c). member_weight c a) <
      3 * (case quorum_threshold c of Inr q \<Rightarrow> unat q | Inl _ \<Rightarrow> 0)"
    using inv quorum_threshold_value two_thirds_plus_one by auto
qed simp

lemma member_set_weight:
  assumes "committee_wf c" "A \<subseteq> mem_address ` set (com_members c)"
  shows "(\<Sum>a\<in>A. member_weight c a) = stake_of A c"
proof -
  have "mem_address ` {m \<in> set (com_members c). mem_address m \<in> A} = A" using assms(2) by auto
  with sum_member_weight [of c A] assms(1) show ?thesis by (simp add: committee_wf_def)
qed

section \<open>Lemmas on selection\<close>

lemma pick_member_spec:
  "pick_member x used cum i vs = Some (j, v) \<Longrightarrow> i \<le> j \<and> j < i + length vs \<and> v = vs ! (j - i) \<and> j \<notin> used"
proof (induction vs arbitrary: cum i)
  case (Cons u vs)
  show ?case
  proof (cases "x < cum + val_stake u \<and> i \<notin> used")
    case False
    with Cons.prems have "pick_member x used (cum + val_stake u) (Suc i) vs = Some (j, v)" by (auto simp: Let_def)
    from Cons.IH [OF this] show ?thesis by (auto simp: nth_Cons' Suc_diff_le)
  qed (use Cons.prems in \<open>auto simp: Let_def\<close>)
qed simp

definition selection :: "validator list \<Rightarrow> nat \<Rightarrow> nat set \<Rightarrow> committee_member list \<Rightarrow> bool" where
  "selection vs k used members \<longleftrightarrow>
    (\<exists>ids. distinct ids \<and> set ids = used \<and> used \<subseteq> {..<length vs} \<and> length ids \<le> k \<and>
      members = map (\<lambda>i. member_of (vs ! i)) ids)"

lemma selection_insert:
  assumes "selection vs k used members" "length members < k" "j < length vs" "j \<notin> used"
  shows "selection vs k (insert j used) (members @ [member_of (vs ! j)])"
proof -
  obtain ids where ids: "distinct ids" "set ids = used" "used \<subseteq> {..<length vs}"
    "members = map (\<lambda>i. member_of (vs ! i)) ids"
    using assms(1) by (auto simp: selection_def)
  with assms show ?thesis unfolding selection_def by (intro exI [of _ "ids @ [j]"]) auto
qed

lemma select_loop_selection:
  assumes "select_loop h vs st seed k i n used members = Some ms"
    and "selection vs k used members" "length members < k \<or> n = 0"
  shows "\<exists>used. selection vs k used ms"
  using assms
proof (induction n arbitrary: i used members)
  case (Suc n)
  obtain x where x: "sample_loop h st [of_nat i] (h (seed @ to_le_bytes (of_nat i :: u64))) = Some x"
    using Suc.prems(1) by (auto split: option.splits)
  show ?case
  proof (cases "pick_member x used 0 0 vs")
    case None
    with x Suc show ?thesis by (auto simp: not_le split: if_splits)
  next
    case (Some p)
    obtain j v where p: "p = (j, v)" by fastforce
    have j: "j < length vs" "v = vs ! j" "j \<notin> used" using pick_member_spec [of x used 0 0 vs j v] Some p by auto
    have "selection vs k (insert j used) (members @ [member_of v])"
      using selection_insert [OF Suc.prems(2)] Suc.prems(3) j by simp
    with x Some p Suc.prems(1) Suc.IH [of "Suc i" "insert j used" "members @ [member_of v]"]
    show ?thesis by (auto simp: not_le Suc_le_eq split: if_splits)
  qed
qed auto

lemma select_committee_members_selection:
  assumes "select_committee_members h k vs seed = Some ms"
  shows "\<exists>used. selection vs k used ms"
proof (cases "sum_list (map val_stake vs) = 0")
  case True
  with assms have "ms = []" by (simp add: select_committee_members_def)
  then have "selection vs k {} ms" by (simp add: selection_def)
  then show ?thesis ..
next
  case False
  have "selection vs k {} []" by (simp add: selection_def)
  then show ?thesis
    using False assms select_loop_selection [of h vs "sum_list (map val_stake vs)" seed k 0 k "{}" "[]" ms]
    by (auto simp: select_committee_members_def)
qed


lemma sum_list_nth_subset:
  fixes f :: "'a \<Rightarrow> nat"
  assumes "distinct ids" "set ids \<subseteq> {..<length xs}"
  shows "sum_list (map (\<lambda>i. f (xs ! i)) ids) \<le> sum_list (map f xs)"
proof -
  have "sum_list (map (\<lambda>i. f (xs ! i)) ids) = (\<Sum>i\<in>set ids. f (xs ! i))"
    using assms(1) by (simp add: sum_list_distinct_conv_sum_set)
  also have "\<dots> \<le> (\<Sum>i<length xs. f (xs ! i))" using assms(2) by (intro sum_mono2) auto
  also have "\<dots> = sum_list (map f xs)" by (simp add: sum_list_sum_nth atLeast0LessThan)
  finally show ?thesis .
qed

lemma unat_sum_list_word:
  "sum_list (map unat ws) < 2 ^ LENGTH('w) \<Longrightarrow> unat (sum_list ws) = sum_list (map unat ws)"
  for ws :: "'w::len word list"
  by (induction ws) (auto simp: unat_add_no_overflow)

lemma active_validators_sum:
  assumes "vs_inv s"
  shows "sum_list (map (\<lambda>v. unat (val_stake v)) (active_validators s)) < 2 ^ 128"
proof -
  have "sum_list (map (\<lambda>v. unat (val_stake v)) (active_validators s))
      \<le> sum_list (map (\<lambda>v. unat (val_stake v)) (vs_validators s))"
    unfolding active_validators_def by (rule sum_list_filter_le_nat)
  also have "\<dots> < 2 ^ 128" using assms unat_less_exp [of "vs_total_stake s"] by (simp add: vs_inv_def)
  finally show ?thesis .
qed

text \<open>What a selection yields on the active validators of a consistent set.\<close>

lemma selection_committee_wf:
  assumes inv: "vs_inv s" and sel: "selection (active_validators s) k used ms"
    and c: "com_members c = ms" "com_total_stake c = sum_list (map mem_stake ms)"
  shows "committee_wf c \<and> length ms \<le> k \<and>
    (\<forall>m\<in>set ms. \<exists>v\<in>set (vs_validators s). val_active v \<and> \<not> val_jailed v \<and>
       mem_address m = val_address v \<and> mem_stake m = val_stake v)"
proof -
  let ?vs = "active_validators s"
  obtain ids where ids: "distinct ids" "set ids \<subseteq> {..<length ?vs}" "length ids \<le> k"
    and ms: "ms = map (\<lambda>i. member_of (?vs ! i)) ids"
    using sel by (auto simp: selection_def)
  have "distinct (map val_address ?vs)"
    using inv by (simp add: active_validators_def vs_inv_def distinct_map_filter)
  then have inj: "inj_on (\<lambda>i. val_address (?vs ! i)) {..<length ?vs}"
    by (auto simp: inj_on_def distinct_conv_nth nth_eq_iff_index_eq)
  have "map mem_address ms = map (\<lambda>i. val_address (?vs ! i)) ids" by (simp add: ms member_of_def)
  then have d: "distinct (map mem_address ms)"
    using ids(1,2) inj by (simp add: distinct_map inj_on_subset)
  have "sum_list (map unat (map mem_stake ms)) = sum_list (map (\<lambda>i. unat (val_stake (?vs ! i))) ids)"
    by (simp add: ms member_of_def comp_def)
  also have "\<dots> < 2 ^ LENGTH(128)"
    using sum_list_nth_subset [OF ids(1,2), of "\<lambda>v. unat (val_stake v)"] active_validators_sum [OF inv] by simp
  finally have "unat (sum_list (map mem_stake ms)) = sum_list (map (\<lambda>m. unat (mem_stake m)) ms)"
    using unat_sum_list_word [of "map mem_stake ms"] by (simp add: comp_def)
  with d c have wf: "committee_wf c" by (simp add: committee_wf_def)
  have "\<exists>v\<in>set (vs_validators s). val_active v \<and> \<not> val_jailed v \<and>
      mem_address m = val_address v \<and> mem_stake m = val_stake v" if mem: "m \<in> set ms" for m
  proof -
    obtain i where "i < length ?vs" "m = member_of (?vs ! i)" using mem ms ids(2) by auto
    then show ?thesis using nth_mem [of i ?vs] by (auto simp: member_of_def active_validators_def)
  qed
  with wf ids(3) ms show ?thesis by simp
qed

definition rotated :: "validator list \<Rightarrow> nat \<Rightarrow> u64 \<Rightarrow> u16 \<Rightarrow> committee \<Rightarrow> bool" where
  "rotated vs k epoch cid c \<longleftrightarrow> com_id c = cid \<and> com_epoch c = epoch \<and>
    com_total_stake c = sum_list (map mem_stake (com_members c)) \<and>
    (\<exists>used. selection vs k used (com_members c))"

lemma rotate_loop_frame:
  "rotate_loop h e sl r vs ids cm = Some cm' \<Longrightarrow> j \<notin> set ids \<Longrightarrow>
   cm_committees cm' (e, j) = cm_committees cm (e, j)"
  by (induction ids arbitrary: cm) (auto simp: Let_def split: option.splits)

lemma rotate_loop_committees:
  "rotate_loop h e sl r vs ids cm = Some cm' \<Longrightarrow> cid \<in> set ids \<Longrightarrow>
   \<exists>c. cm_committees cm' (e, cid) = Some c \<and> rotated vs (cm_validators_per_committee cm) e cid c"
proof (induction ids arbitrary: cm)
  case (Cons i ids)
  obtain ms where ms: "select_committee_members h (cm_validators_per_committee cm) vs
      (compute_committee_seed h e sl i r) = Some ms"
    using Cons.prems(1) by (auto simp: Let_def split: option.splits)
  let ?c = "\<lparr> com_id = i, com_epoch = e, com_shard_id = i, com_members = ms,
    com_total_stake = sum_list (map mem_stake ms) \<rparr>"
  let ?cm = "cm\<lparr>cm_committees := (cm_committees cm)((e, i) \<mapsto> ?c)\<rparr>"
  have r: "rotate_loop h e sl r vs ids ?cm = Some cm'" using Cons.prems(1) ms by (simp add: Let_def)
  show ?case
  proof (cases "cid \<in> set ids")
    case True
    with Cons.IH [OF r] show ?thesis by simp
  next
    case False
    with Cons.prems(2) have "cid = i" by simp
    then show ?thesis
      using rotate_loop_frame [OF r False] select_committee_members_selection [OF ms] by (simp add: rotated_def)
  qed
qed simp

lemma update_first_keeps:
  assumes "\<And>v. val_address (f v) = val_address v" "\<And>v. val_stake (f v) = val_stake v"
  shows "map val_address (update_first a f vs) = map val_address vs"
    "map (\<lambda>v. unat (val_stake v)) (update_first a f vs) = map (\<lambda>v. unat (val_stake v)) vs"
    "length (update_first a f vs) = length vs"
  using assms by (induction vs) auto

lemma vs_inv_remove:
  assumes "vs_inv s"
  shows "vs_inv (s\<lparr>vs_validators := filter (\<lambda>v. val_address v \<noteq> a) (vs_validators s),
    vs_total_stake := sum_list (map val_stake (filter (\<lambda>v. val_address v \<noteq> a) (vs_validators s)))\<rparr>)"
proof -
  let ?vs = "filter (\<lambda>v. val_address v \<noteq> a) (vs_validators s)"
  have "sum_list (map (\<lambda>v. unat (val_stake v)) ?vs) \<le> sum_list (map (\<lambda>v. unat (val_stake v)) (vs_validators s))"
    by (rule sum_list_filter_le_nat)
  also have "\<dots> < 2 ^ LENGTH(128)" using assms unat_less_exp [of "vs_total_stake s"] by (simp add: vs_inv_def)
  finally have "unat (sum_list (map val_stake ?vs)) = sum_list (map (\<lambda>v. unat (val_stake v)) ?vs)"
    using unat_sum_list_word [of "map val_stake ?vs"] by (simp add: comp_def)
  then show ?thesis
    using assms by (auto simp: vs_inv_def distinct_map_filter intro: le_trans [OF length_filter_le])
qed

lemma cm_update_with_inv:
  assumes "vs_inv (cm_validator_set cm)"
    and "\<And>v. val_address (f v) = val_address v" "\<And>v. val_stake (f v) = val_stake v"
  shows "vs_inv (cm_validator_set (cm_update_with ok a f cm))"
  using assms(1) update_first_keeps [of f a, OF assms(2,3)] by (simp add: cm_update_with_def Let_def vs_inv_def)

lemma cm_add_validator_inv:
  "vs_inv (cm_validator_set cm) \<Longrightarrow> vs_inv (cm_validator_set (snd (cm_add_validator ok v cm)))"
  using vs_inv_add [of "cm_validator_set cm" v]
  by (auto simp: cm_add_validator_def Let_def split: prod.splits sum.splits)

lemma cm_remove_validator_inv:
  "vs_inv (cm_validator_set cm) \<Longrightarrow> vs_inv (cm_validator_set (cm_remove_validator ok a cm))"
  using vs_inv_remove [of "cm_validator_set cm" a] by (simp add: cm_remove_validator_def Let_def)

section \<open>Properties\<close>

text \<open>C25: Two sets of members that both reach the quorum threshold of a committee share a member
  outside every set of members holding at most a third of the stake.\<close>

theorem committee_quorum_intersection:
  assumes "committee_wf c" "quorum_threshold c = Inr q"
    and "A \<subseteq> mem_address ` set (com_members c)" "B \<subseteq> mem_address ` set (com_members c)"
    and "unat q \<le> stake_of A c" "unat q \<le> stake_of B c"
    and "F \<subseteq> mem_address ` set (com_members c)" "3 * stake_of F c \<le> unat (com_total_stake c)"
  shows "\<exists>a \<in> A \<inter> B. a \<notin> F"
proof -
  have "(\<Sum>a\<in>mem_address ` set (com_members c). member_weight c a) = unat (com_total_stake c)"
    using member_set_weight [OF assms(1) order_refl] assms(1)
    by (simp add: stake_of_def committee_wf_def filter_id_conv)
  then show ?thesis
    using assms cq.quorum_common_honest [of c A B F] member_set_weight [OF assms(1)] by simp
qed

theorem committee_quorum_intersection_witness:
  "quorum_threshold sample_committee = Inr 67 \<and>
   (\<exists>a \<in> {addr 1, addr 2, addr 3} \<inter> {addr 2, addr 3, addr 4}. a \<notin> {addr 2})"
proof -
  have q: "quorum_threshold sample_committee = Inr 67"
    by (simp add: quorum_threshold_def sample_committee_def checked_mul_def checked_add_def)
  moreover have "committee_wf sample_committee"
    by (simp add: committee_wf_def sample_committee_def member_of_def sample_validator_def)
  ultimately show ?thesis
    using committee_quorum_intersection [of sample_committee 67 "{addr 1, addr 2, addr 3}"
        "{addr 2, addr 3, addr 4}" "{addr 2}"]
    by (simp add: sample_committee_def member_of_def sample_validator_def stake_of_def)
qed

text \<open>C26: A rotation that returns gives, for every committee cid, a committee of at most the
  configured size whose members are distinct, active, unjailed validators of the set with their own
  stakes, and whose recorded total is the sum of the members' stakes.\<close>

theorem rotation_sound:
  assumes "vs_inv (cm_validator_set cm)" "active_validators (cm_validator_set cm) \<noteq> []"
    and "rotate_committees h epoch slot randomness cm = Some cm'" "cid < cm_num_committees cm"
  shows "\<exists>c. get_committee epoch cid cm' = Some c \<and> committee_wf c \<and>
    member_count c \<le> cm_validators_per_committee cm \<and>
    (\<forall>m\<in>set (com_members c). \<exists>v\<in>set (vs_validators (cm_validator_set cm)). val_active v \<and> \<not> val_jailed v \<and>
       mem_address m = val_address v \<and> mem_stake m = val_stake v)"
proof -
  let ?vs = "active_validators (cm_validator_set cm)"
  obtain cm1 where r: "rotate_loop h epoch slot randomness ?vs
      (map of_nat [0..<unat (cm_num_committees cm)]) cm = Some cm1" "cm' = cm1\<lparr>cm_current_epoch := epoch\<rparr>"
    using assms(2,3) by (auto simp: rotate_committees_def Let_def)
  have "cid \<in> set (map of_nat [0..<unat (cm_num_committees cm)])"
    using assms(4) by (auto simp: image_iff word_less_nat_alt intro!: bexI [of _ "unat cid"])
  from rotate_loop_committees [OF r(1) this] obtain c used where
    "cm_committees cm1 (epoch, cid) = Some c" "com_total_stake c = sum_list (map mem_stake (com_members c))"
    "selection ?vs (cm_validators_per_committee cm) used (com_members c)" by (auto simp: rotated_def)
  with selection_committee_wf [OF assms(1), of "cm_validators_per_committee cm" used "com_members c" c] r(2)
  show ?thesis by (auto simp: get_committee_def member_count_def)
qed

theorem rotation_sound_witness:
  "\<exists>cm' c. rotate_committees (\<lambda>_. replicate 32 0) 1 0 (replicate 32 0) sample_manager = Some cm' \<and>
    get_committee 1 0 cm' = Some c \<and> committee_wf c"
proof -
  note eval = sample_manager_def committee_manager_new_def active_validators_def sample_validator_def
  have s: "sample_loop (\<lambda>_. replicate 32 0) 10 suf (replicate 32 0) = Some 0" for suf
    by (subst sample_loop.simps) (simp add: max_value_def Let_def)
  obtain cm' where r: "rotate_committees (\<lambda>_. replicate 32 0) 1 0 (replicate 32 0) sample_manager = Some cm'"
    by (simp add: rotate_committees_def select_committee_members_def compute_committee_seed_def eval s Let_def)
  have "vs_inv (cm_validator_set sample_manager)" "active_validators (cm_validator_set sample_manager) \<noteq> []"
    by (simp_all add: vs_inv_def eval MAX_VALIDATORS_def)
  from rotation_sound [OF this r, of 0] r show ?thesis by (auto simp: eval)
qed

text \<open>C27: Rejection sampling returns a value below the total stake as soon as one element of the
  hash chain is in the accepted range.\<close>

theorem sample_loop_returns:
  assumes "(from_le_bytes (take 16 (((\<lambda>s. h (s @ suffix)) ^^ n) seed)) :: u128) < (max_value div st) * st"
    and "st \<noteq> 0"
  shows "\<exists>v. sample_loop h st suffix seed = Some v \<and> v < st"
  using assms(1)
proof (induction n arbitrary: seed)
  case 0
  then show ?case
    using assms(2) by (subst sample_loop.simps) (simp add: Let_def word_mod_less_divisor word_gt_0)
next
  case (Suc n)
  show ?case
  proof (cases "(from_le_bytes (take 16 seed) :: u128) < (max_value div st) * st")
    case True
    then show ?thesis
      using assms(2) by (subst sample_loop.simps) (simp add: Let_def word_mod_less_divisor word_gt_0)
  next
    case False
    have "\<exists>v. sample_loop h st suffix (h (seed @ suffix)) = Some v \<and> v < st"
      using Suc.IH [of "h (seed @ suffix)"] Suc.prems by (simp add: funpow_Suc_right del: funpow.simps)
    with False show ?thesis by (subst sample_loop.simps) (simp add: Let_def)
  qed
qed

theorem sample_loop_returns_witness:
  "\<exists>v. sample_loop (\<lambda>_. replicate 32 0) 10 [] (replicate 32 255) = Some v \<and> v < 10"
  by (rule sample_loop_returns [where n = 1]) (simp_all add: max_value_def)

text \<open>Registering, removing and updating validators keeps the recorded total stake equal to the
  sum of the stakes and the addresses distinct, whether or not the database accepts the writes.\<close>

theorem registry_consistent:
  assumes "vs_inv (cm_validator_set cm)"
  shows "vs_inv (cm_validator_set (snd (cm_add_validator ok v cm))) \<and>
    vs_inv (cm_validator_set (cm_remove_validator ok a cm)) \<and>
    vs_inv (cm_validator_set (update_validator_vrf ok a key cm)) \<and>
    vs_inv (cm_validator_set (update_validator_finality_key ok a key cm))"
  using assms
  by (simp add: cm_add_validator_inv cm_remove_validator_inv update_validator_vrf_def
      update_validator_finality_key_def cm_update_with_inv)

theorem registry_consistent_witness:
  "vs_inv (cm_validator_set (snd (cm_add_validator True (sample_validator 2 7) sample_manager)))"
  using registry_consistent [of sample_manager True "sample_validator 2 7" "addr 1" "[]"]
  by (simp add: vs_inv_def sample_manager_def committee_manager_new_def sample_validator_def MAX_VALIDATORS_def)

end
