(* ===== verification/DAG.thy ===== *)
theory DAG
  imports Committee
begin

text \<open>
  Vertices and the in-memory DAG (\<open>types/vertex.rs\<close>, \<open>dag/mod.rs\<close>, \<open>dag/graph.rs\<close>): the vertex
  hash, votes and weight, insertion with its guards, tips, eviction, bounded traversals and the
  finalization of everything reachable from a set of tips.

  The two database columns a vertex is written to are fields of the graph.  A database call may fail:
  a \<open>disk\<close> gives the error of a read or a write of a key, if there is one.  Methods run one after the
  other; the locks of the source are not modelled.
\<close>

section \<open>Vertices\<close>

datatype vertex_status = VPending | VPreConfirmed | VConfirmed | VFinalized | VOrphaned

record dag_vertex =
  vx_hash :: hash
  vx_parents :: "hash list"
  vx_transactions :: "signed_transaction list"
  vx_timestamp :: u64
  vx_shard_id :: u16
  vx_creator :: address
  vx_signature :: bytes
  vx_weight :: u64
  vx_height :: u64
  vx_status :: vertex_status
  vx_committee_votes :: "committee_vote list"
  vx_state_root :: hash

definition MAX_TRANSACTIONS_PER_VERTEX :: nat where "MAX_TRANSACTIONS_PER_VERTEX = 10000"
definition MAX_VOTES_PER_VERTEX :: nat where "MAX_VOTES_PER_VERTEX = 1000"
definition VERTEX_TIMESTAMP_DRIFT :: u64 where "VERTEX_TIMESTAMP_DRIFT = 5 * 60"

definition vertex_preimage :: "dag_vertex \<Rightarrow> bytes" where
  "vertex_preimage v =
    concat (vx_parents v) @ concat (map stx_hash (vx_transactions v)) @
    to_le_bytes (vx_timestamp v) @ to_le_bytes (vx_shard_id v) @ vx_creator v @
    to_le_bytes (vx_height v)"

definition compute_hash :: "(bytes \<Rightarrow> hash) \<Rightarrow> dag_vertex \<Rightarrow> hash" where
  "compute_hash hash_data v = hash_data (vertex_preimage v)"

definition vertex_new ::
  "(bytes \<Rightarrow> hash) \<Rightarrow> u64 \<Rightarrow> hash list \<Rightarrow> signed_transaction list \<Rightarrow> u16 \<Rightarrow> address \<Rightarrow> u64 \<Rightarrow>
    string + dag_vertex" where
  "vertex_new hash_data now parents transactions shard_id creator height =
    (if length transactions > MAX_TRANSACTIONS_PER_VERTEX
     then Inl (''Too many transactions: '' @ decimal (length transactions) @ '' > '' @
       decimal MAX_TRANSACTIONS_PER_VERTEX)
     else
       (let vertex =
          \<lparr> vx_hash = replicate 32 0, vx_parents = parents, vx_transactions = transactions,
            vx_timestamp = now, vx_shard_id = shard_id, vx_creator = creator, vx_signature = [],
            vx_weight = 0, vx_height = height, vx_status = VPending, vx_committee_votes = [],
            vx_state_root = replicate 32 0 \<rparr>
        in Inr (vertex\<lparr>vx_hash := compute_hash hash_data vertex\<rparr>)))"

definition vertex_signing_data :: "dag_vertex \<Rightarrow> bytes" where
  "vertex_signing_data v = with_domain DOMAIN_VERTEX (vx_hash v @ vx_state_root v)"

definition vertex_set_signature ::
  "(bytes \<Rightarrow> bytes \<Rightarrow> bytes \<Rightarrow> bool) \<Rightarrow> bytes \<Rightarrow> bytes \<Rightarrow> dag_vertex \<Rightarrow> (string + unit) \<times> dag_vertex" where
  "vertex_set_signature verify_batch signature public_key v =
    (if verify_batch public_key (vertex_signing_data v) signature
     then (Inr (), v\<lparr>vx_signature := signature\<rparr>)
     else (Inl ''Invalid vertex signature'', v))"

definition vertex_set_signature_unchecked :: "bytes \<Rightarrow> dag_vertex \<Rightarrow> dag_vertex" where
  "vertex_set_signature_unchecked signature v = v\<lparr>vx_signature := signature\<rparr>"

definition vertex_validate_timestamp :: "u64 \<Rightarrow> dag_vertex \<Rightarrow> string + unit" where
  "vertex_validate_timestamp current_time v =
    (if vx_timestamp v > current_time + VERTEX_TIMESTAMP_DRIFT
     then Inl ''Vertex timestamp too far in future''
     else if current_time > vx_timestamp v + VERTEX_TIMESTAMP_DRIFT
     then Inl ''Vertex timestamp too old''
     else Inr ())"

definition set_state_root :: "hash \<Rightarrow> dag_vertex \<Rightarrow> dag_vertex" where
  "set_state_root state_root v = v\<lparr>vx_state_root := state_root\<rparr>"

definition approve_weight :: "committee_vote list \<Rightarrow> u64" where
  "approve_weight votes =
    fold (\<lambda>w acc. saturating_add acc w) (map cv_stake_weight (filter cv_approve votes)) 0"

definition update_weight :: "dag_vertex \<Rightarrow> dag_vertex" where
  "update_weight v = v\<lparr>vx_weight := approve_weight (vx_committee_votes v)\<rparr>"

definition add_vote :: "committee_vote \<Rightarrow> dag_vertex \<Rightarrow> (string + unit) \<times> dag_vertex" where
  "add_vote vote v =
    (if length (vx_committee_votes v) \<ge> MAX_VOTES_PER_VERTEX
     then (Inl (''Maximum votes reached: '' @ decimal MAX_VOTES_PER_VERTEX), v)
     else (Inr (), update_weight (v\<lparr>vx_committee_votes := vx_committee_votes v @ [vote]\<rparr>)))"

definition has_quorum :: "u64 \<Rightarrow> dag_vertex \<Rightarrow> bool" where
  "has_quorum threshold v \<longleftrightarrow> approve_weight (vx_committee_votes v) \<ge> threshold"

definition tx_count :: "dag_vertex \<Rightarrow> nat" where
  "tx_count v = length (vx_transactions v)"

section \<open>The graph\<close>

datatype dag_error =
    VertexNotFound string
  | InvalidParent
  | CycleDetected
  | TooFewParents nat nat
  | TooManyParents nat nat
  | DagStorageError string
  | DagUnauthorized string
  | MemoryExhausted string
  | HeightOverflow u64
  | TraversalLimitExceeded nat
  | DagInvalidVertex string
  | InvalidInput string
  | ShardLimitExceeded nat
  | ChildrenLimitExceeded

text \<open>The messages of the errors.\<close>

fun dag_error_string :: "dag_error \<Rightarrow> string" where
  "dag_error_string (VertexNotFound s) = ''Vertex not found: '' @ s"
| "dag_error_string InvalidParent = ''Invalid parent reference''"
| "dag_error_string CycleDetected = ''Cycle detected''"
| "dag_error_string (TooFewParents m n) = ''Too few parents: minimum '' @ decimal m @ '', got '' @ decimal n"
| "dag_error_string (TooManyParents m n) = ''Too many parents: maximum '' @ decimal m @ '', got '' @ decimal n"
| "dag_error_string (DagStorageError s) = ''Storage error: '' @ s"
| "dag_error_string (DagUnauthorized s) = ''Unauthorized: '' @ s"
| "dag_error_string (MemoryExhausted s) = ''Memory exhausted: '' @ s"
| "dag_error_string (HeightOverflow h) = ''Height overflow at '' @ decimal (unat h)"
| "dag_error_string (TraversalLimitExceeded n) = ''Traversal limit exceeded: '' @ decimal n"
| "dag_error_string (DagInvalidVertex s) = ''Invalid vertex: '' @ s"
| "dag_error_string (InvalidInput s) = ''Invalid input: '' @ s"
| "dag_error_string (ShardLimitExceeded n) = ''Shard limit exceeded: '' @ decimal n"
| "dag_error_string ChildrenLimitExceeded = ''Children limit exceeded for vertex''"

definition MAX_VERTICES_IN_MEMORY :: nat where "MAX_VERTICES_IN_MEMORY = 1000000"
definition MAX_TRAVERSAL_VERTICES :: nat where "MAX_TRAVERSAL_VERTICES = 10000"
definition MAX_TIPS_PER_SHARD :: nat where "MAX_TIPS_PER_SHARD = 100"
definition MAX_SHARDS :: nat where "MAX_SHARDS = 1024"
definition MAX_CHILDREN_PER_VERTEX :: nat where "MAX_CHILDREN_PER_VERTEX = 256"
definition GENESIS_CREATOR :: address where "GENESIS_CREATOR = replicate 32 0"

lemmas dag_limits = MAX_VERTICES_IN_MEMORY_def MAX_TRAVERSAL_VERTICES_def MAX_TIPS_PER_SHARD_def
  MAX_SHARDS_def MAX_CHILDREN_PER_VERTEX_def

record disk =
  read_error :: "hash \<Rightarrow> string option"
  write_error :: "hash \<Rightarrow> string option"

record dag =
  dg_stored :: "hash \<rightharpoonup> dag_vertex"
  dg_stored_heights :: "u16 \<times> u64 \<rightharpoonup> hash"
  dg_vertices :: "hash \<rightharpoonup> dag_vertex"
  dg_tips :: "u16 \<rightharpoonup> hash list"
  dg_children :: "hash \<rightharpoonup> hash list"
  dg_heights :: "u16 \<rightharpoonup> u64"
  dg_min_parents :: nat
  dg_max_parents :: nat
  dg_admin :: address
  dg_authorized_creators :: "address set"
  dg_vertex_count :: nat

text \<open>The storage calls: \<open>put_vertex\<close> writes the vertex and the height index in one batch.\<close>

definition storage_get_vertex :: "disk \<Rightarrow> hash \<Rightarrow> dag \<Rightarrow> dag_error + dag_vertex option" where
  "storage_get_vertex d h g =
    (case read_error d h of Some e \<Rightarrow> Inl (DagStorageError e) | None \<Rightarrow> Inr (dg_stored g h))"

definition put_vertex :: "disk \<Rightarrow> dag_vertex \<Rightarrow> dag \<Rightarrow> (dag_error + unit) \<times> dag" where
  "put_vertex d v g =
    (case write_error d (vx_hash v) of
       Some e \<Rightarrow> (Inl (DagStorageError e), g)
     | None \<Rightarrow> (Inr (), g\<lparr>dg_stored := (dg_stored g)(vx_hash v \<mapsto> v),
         dg_stored_heights := (dg_stored_heights g)((vx_shard_id v, vx_height v) \<mapsto> vx_hash v)\<rparr>))"

definition dag_new ::
  "(hash \<rightharpoonup> dag_vertex) \<Rightarrow> (u16 \<times> u64 \<rightharpoonup> hash) \<Rightarrow> nat \<Rightarrow> nat \<Rightarrow> dag" where
  "dag_new stored stored_heights min_parents max_parents =
    \<lparr> dg_stored = stored, dg_stored_heights = stored_heights, dg_vertices = Map.empty,
      dg_tips = Map.empty, dg_children = Map.empty, dg_heights = Map.empty,
      dg_min_parents = min_parents, dg_max_parents = max_parents, dg_admin = GENESIS_CREATOR,
      dg_authorized_creators = {GENESIS_CREATOR}, dg_vertex_count = 0 \<rparr>"

definition set_admin :: "address \<Rightarrow> address \<Rightarrow> dag \<Rightarrow> (dag_error + unit) \<times> dag" where
  "set_admin caller new_admin g =
    (if caller \<noteq> dg_admin g then (Inl (DagUnauthorized ''Only admin can transfer admin rights''), g)
     else (Inr (), g\<lparr>dg_admin := new_admin\<rparr>))"

definition add_authorized_creator :: "address \<Rightarrow> dag \<Rightarrow> dag" where
  "add_authorized_creator a g = g\<lparr>dg_authorized_creators := insert a (dg_authorized_creators g)\<rparr>"

definition add_authorized_creator_checked ::
  "address \<Rightarrow> address \<Rightarrow> dag \<Rightarrow> (dag_error + unit) \<times> dag" where
  "add_authorized_creator_checked caller a g =
    (if caller \<noteq> dg_admin g
     then (Inl (DagUnauthorized ''Only admin can add authorized creators''), g)
     else (Inr (), g\<lparr>dg_authorized_creators := insert a (dg_authorized_creators g)\<rparr>))"

definition remove_authorized_creator :: "address \<Rightarrow> dag \<Rightarrow> dag" where
  "remove_authorized_creator a g = g\<lparr>dg_authorized_creators := dg_authorized_creators g - {a}\<rparr>"

definition remove_authorized_creator_checked ::
  "address \<Rightarrow> address \<Rightarrow> dag \<Rightarrow> (dag_error + unit) \<times> dag" where
  "remove_authorized_creator_checked caller a g =
    (if caller \<noteq> dg_admin g
     then (Inl (DagUnauthorized ''Only admin can remove authorized creators''), g)
     else (Inr (), g\<lparr>dg_authorized_creators := dg_authorized_creators g - {a}\<rparr>))"

definition is_authorized_creator :: "address \<Rightarrow> dag \<Rightarrow> bool" where
  "is_authorized_creator a g \<longleftrightarrow> a \<in> dg_authorized_creators g"

definition unauthorized_creator :: "address \<Rightarrow> dag_error" where
  "unauthorized_creator a =
    DagUnauthorized (''Address '' @ debug_bytes a @ '' not authorized to create vertices'')"

section \<open>Insertion\<close>

text \<open>The iteration order of the vertex table is the parameter \<open>iter\<close>.\<close>

definition evict_old_vertices :: "(hash set \<Rightarrow> hash list) \<Rightarrow> dag \<Rightarrow> dag" where
  "evict_old_vertices iter g =
    (let confirmed = filter
           (\<lambda>h. case dg_vertices g h of Some v \<Rightarrow> vx_status v = VConfirmed | None \<Rightarrow> False)
           (iter (dom (dg_vertices g)));
         to_evict = take (MAX_VERTICES_IN_MEMORY div 10) confirmed
     in g\<lparr>dg_vertices := dg_vertices g |` (- set to_evict),
          dg_vertex_count := dg_vertex_count g - length to_evict\<rparr>)"

fun check_parents :: "disk \<Rightarrow> dag \<Rightarrow> hash list \<Rightarrow> dag_error + unit" where
  "check_parents d g [] = Inr ()"
| "check_parents d g (p # ps) =
    (if dg_vertices g p \<noteq> None then check_parents d g ps
     else case storage_get_vertex d p g of
       Inl e \<Rightarrow> Inl e
     | Inr None \<Rightarrow> Inl InvalidParent
     | Inr (Some _) \<Rightarrow> check_parents d g ps)"

fun push_children :: "hash \<Rightarrow> hash list \<Rightarrow> dag \<Rightarrow> (dag_error + unit) \<times> dag" where
  "push_children h [] g = (Inr (), g)"
| "push_children h (p # ps) g =
    (let entry = unwrap_or (dg_children g p) [];
         g = g\<lparr>dg_children := (dg_children g)(p \<mapsto> entry)\<rparr>
     in if length entry \<ge> MAX_CHILDREN_PER_VERTEX then (Inl ChildrenLimitExceeded, g)
        else push_children h ps (g\<lparr>dg_children := (dg_children g)(p \<mapsto> entry @ [h])\<rparr>))"

definition update_tips :: "u16 \<Rightarrow> dag_vertex \<Rightarrow> dag \<Rightarrow> dag" where
  "update_tips shard_id v g = g\<lparr>dg_tips := (dg_tips g)(shard_id \<mapsto>
    (case dg_tips g shard_id of
       None \<Rightarrow> [vx_hash v]
     | Some tips \<Rightarrow>
         (let tips = filter (\<lambda>tip. tip \<notin> set (vx_parents v)) tips @ [vx_hash v] in
          if length tips > MAX_TIPS_PER_SHARD
          then take MAX_TIPS_PER_SHARD (rotate (length tips - MAX_TIPS_PER_SHARD) tips)
          else tips)))\<rparr>"

definition update_height :: "dag_vertex \<Rightarrow> dag \<Rightarrow> dag" where
  "update_height v g = g\<lparr>dg_heights := (dg_heights g)(vx_shard_id v \<mapsto>
    (case dg_heights g (vx_shard_id v) of
       None \<Rightarrow> vx_height v
     | Some h \<Rightarrow> if vx_height v > h then vx_height v else h))\<rparr>"

text \<open>The part of \<open>add_vertex\<close> after the memory check.\<close>

definition link_vertex :: "disk \<Rightarrow> dag_vertex \<Rightarrow> dag \<Rightarrow> (dag_error + unit) \<times> dag" where
  "link_vertex d v g =
    (if length (vx_parents v) < dg_min_parents g \<and> vx_height v > 0
     then (Inl (TooFewParents (dg_min_parents g) (length (vx_parents v))), g) else
     if length (vx_parents v) > dg_max_parents g
     then (Inl (TooManyParents (dg_max_parents g) (length (vx_parents v))), g) else
     or_return (check_parents d g (vx_parents v)) g (\<lambda>_.
     if dg_tips g (vx_shard_id v) = None \<and> card (dom (dg_tips g)) \<ge> MAX_SHARDS
     then (Inl (ShardLimitExceeded MAX_SHARDS), g) else
     let (r, g) = push_children (vx_hash v) (vx_parents v) g in
     or_return r g (\<lambda>_.
     let g = update_height v (update_tips (vx_shard_id v) v g);
         (r, g) = put_vertex d v g in
     or_return r g (\<lambda>_.
     (Inr (), g\<lparr>dg_vertices := (dg_vertices g)(vx_hash v \<mapsto> v),
                dg_vertex_count := dg_vertex_count g + 1\<rparr>)))))"

definition add_vertex ::
  "disk \<Rightarrow> (hash set \<Rightarrow> hash list) \<Rightarrow> dag_vertex \<Rightarrow> dag \<Rightarrow> (dag_error + unit) \<times> dag" where
  "add_vertex d iter v g =
    (if \<not> is_authorized_creator (vx_creator v) g then (Inl (unauthorized_creator (vx_creator v)), g) else
     if dg_vertex_count g \<ge> MAX_VERTICES_IN_MEMORY then
       (let g = evict_old_vertices iter g in
        if dg_vertex_count g \<ge> MAX_VERTICES_IN_MEMORY
        then (Inl (MemoryExhausted (''Vertex limit reached: '' @ decimal MAX_VERTICES_IN_MEMORY)), g)
        else link_vertex d v g)
     else link_vertex d v g)"

section \<open>Queries\<close>

definition get_vertex :: "disk \<Rightarrow> hash \<Rightarrow> dag \<Rightarrow> dag_error + dag_vertex option" where
  "get_vertex d h g =
    (case dg_vertices g h of Some v \<Rightarrow> Inr (Some v) | None \<Rightarrow> storage_get_vertex d h g)"

definition get_tips :: "u16 \<Rightarrow> dag \<Rightarrow> hash list" where
  "get_tips shard_id g = unwrap_or (dg_tips g shard_id) []"

definition get_children :: "hash \<Rightarrow> dag \<Rightarrow> hash list" where
  "get_children h g = unwrap_or (dg_children g h) []"

definition get_height :: "u16 \<Rightarrow> dag \<Rightarrow> u64" where
  "get_height shard_id g = unwrap_or (dg_heights g shard_id) 0"

definition select_parents :: "u16 \<Rightarrow> dag \<Rightarrow> hash list" where
  "select_parents shard_id g =
    (let tips = get_tips shard_id g;
         num_parents = min (max (length tips) (dg_min_parents g)) (dg_max_parents g)
     in take num_parents tips)"

definition create_vertex ::
  "(bytes \<Rightarrow> hash) \<Rightarrow> u64 \<Rightarrow> u16 \<Rightarrow> signed_transaction list \<Rightarrow> address \<Rightarrow> dag \<Rightarrow>
    dag_error + dag_vertex" where
  "create_vertex hash_data now shard_id transactions creator g =
    (if \<not> is_authorized_creator creator g then Inl (unauthorized_creator creator) else
     let parents = select_parents shard_id g in
     if length parents < dg_min_parents g \<and> get_height shard_id g > 0
     then Inl (TooFewParents (dg_min_parents g) (length parents)) else
     let current_height = get_height shard_id g in
     case checked_add current_height 1 of
       None \<Rightarrow> Inl (HeightOverflow current_height)
     | Some height \<Rightarrow>
         (case vertex_new hash_data now parents transactions shard_id creator height of
            Inl e \<Rightarrow> Inl (DagInvalidVertex e)
          | Inr v \<Rightarrow> Inr v))"

definition genesis_vertex :: "(bytes \<Rightarrow> hash) \<Rightarrow> u64 \<Rightarrow> u16 \<Rightarrow> dag_error + dag_vertex" where
  "genesis_vertex hash_data now shard_id =
    (case vertex_new hash_data now [] [] shard_id GENESIS_CREATOR 0 of
       Inl e \<Rightarrow> Inl (DagInvalidVertex e)
     | Inr v \<Rightarrow> Inr v)"

definition tip_count :: "u16 \<Rightarrow> dag \<Rightarrow> nat" where
  "tip_count shard_id g = unwrap_or (map_option length (dg_tips g shard_id)) 0"

section \<open>Traversals\<close>

text \<open>The visited set only grows by new elements, so a list without repetition holds it.  The two
  breadth-first traversals differ in the neighbours of a vertex, the argument \<open>nbrs\<close>.\<close>

fun visit :: "nat \<Rightarrow> hash list \<Rightarrow> hash list \<times> hash list \<times> (hash \<times> nat) list \<Rightarrow>
    hash list \<times> hash list \<times> (hash \<times> nat) list" where
  "visit depth [] (visited, out, queue) = (visited, out, queue)"
| "visit depth (p # ps) (visited, out, queue) =
    (if p \<in> set visited then visit depth ps (visited, out, queue)
     else visit depth ps (visited @ [p], out @ [p], queue @ [(p, depth)]))"

lemma visit_shape:
  "\<exists>new. visit n ps (visited, out, queue) =
      (visited @ new, out @ new, queue @ map (\<lambda>p. (p, n)) new) \<and>
    set new = set ps - set visited \<and> distinct new"
proof (induction ps arbitrary: visited out queue)
  case (Cons p ps)
  show ?case
  proof (cases "p \<in> set visited")
    case False
    from Cons.IH [of "visited @ [p]" "out @ [p]" "queue @ [(p, n)]"] obtain new where
      "visit n ps (visited @ [p], out @ [p], queue @ [(p, n)]) =
        (visited @ p # new, out @ p # new, queue @ (p, n) # map (\<lambda>p. (p, n)) new)"
      "set new = set ps - set (visited @ [p])" "distinct new" by auto
    with False show ?thesis by (intro exI [of _ "p # new"]) auto
  next
    case True
    with Cons.IH [of visited out queue] show ?thesis by auto
  qed
qed simp

function traverse ::
  "(hash \<Rightarrow> dag_error + hash list) \<Rightarrow> nat \<Rightarrow> (hash \<times> nat) list \<Rightarrow> hash list \<Rightarrow> hash list \<Rightarrow>
    dag_error + hash list" where
  "traverse nbrs depth [] visited out = Inr out"
| "traverse nbrs depth ((current, current_depth) # queue) visited out =
    (if length visited \<ge> MAX_TRAVERSAL_VERTICES
     then Inl (TraversalLimitExceeded MAX_TRAVERSAL_VERTICES) else
     if current_depth \<ge> depth then traverse nbrs depth queue visited out else
     case nbrs current of
       Inl e \<Rightarrow> Inl e
     | Inr ps \<Rightarrow>
         (case visit (current_depth + 1) ps (visited, out, queue) of (visited, out, queue) \<Rightarrow>
            traverse nbrs depth queue visited out))"
  by pat_completeness auto
termination
proof (relation "measures [\<lambda>(nbrs, depth, queue, visited, out). MAX_TRAVERSAL_VERTICES - length visited,
    \<lambda>(nbrs, depth, queue, visited, out). length queue]", goal_cases)
  case (3 nbrs depth current current_depth queue visited out ps v out' q)
  from visit_shape [of "current_depth + 1" ps visited out queue] obtain new where
    "visit (current_depth + 1) ps (visited, out, queue) =
      (visited @ new, out @ new, queue @ map (\<lambda>p. (p, current_depth + 1)) new)" by blast
  with 3 show ?case by (cases new) auto
qed auto

definition ancestor_parents :: "disk \<Rightarrow> dag \<Rightarrow> hash \<Rightarrow> dag_error + hash list" where
  "ancestor_parents d g h =
    (case get_vertex d h g of
       Inl e \<Rightarrow> Inl e
     | Inr None \<Rightarrow> Inr []
     | Inr (Some v) \<Rightarrow> Inr (vx_parents v))"

definition get_ancestors :: "disk \<Rightarrow> hash \<Rightarrow> nat \<Rightarrow> dag \<Rightarrow> dag_error + hash list" where
  "get_ancestors d h depth g = traverse (ancestor_parents d g) depth [(h, 0)] [h] []"

definition get_descendants :: "hash \<Rightarrow> nat \<Rightarrow> dag \<Rightarrow> dag_error + hash list" where
  "get_descendants h depth g = traverse (\<lambda>c. Inr (get_children c g)) depth [(h, 0)] [h] []"

section \<open>Status and finalization\<close>

definition update_vertex_status ::
  "disk \<Rightarrow> address \<Rightarrow> hash \<Rightarrow> vertex_status \<Rightarrow> dag \<Rightarrow> (dag_error + unit) \<times> dag" where
  "update_vertex_status d caller h st g =
    (if caller \<noteq> dg_admin g \<and> \<not> is_authorized_creator caller g
     then (Inl (DagUnauthorized ''Only authorized creators or admin can update vertex status''), g) else
     case dg_vertices g h of
       None \<Rightarrow> (Inr (), g)
     | Some v \<Rightarrow>
         (let v = v\<lparr>vx_status := st\<rparr> in
          put_vertex d v (g\<lparr>dg_vertices := (dg_vertices g)(h \<mapsto> v)\<rparr>)))"

definition update_vertex_status_internal ::
  "disk \<Rightarrow> hash \<Rightarrow> vertex_status \<Rightarrow> dag \<Rightarrow> (dag_error + unit) \<times> dag" where
  "update_vertex_status_internal d h st g =
    (case dg_vertices g h of
       Some v \<Rightarrow>
         (let v = v\<lparr>vx_status := st\<rparr> in
          put_vertex d v (g\<lparr>dg_vertices := (dg_vertices g)(h \<mapsto> v)\<rparr>))
     | None \<Rightarrow>
         or_return (storage_get_vertex d h g) g (\<lambda>r. case r of
           None \<Rightarrow> (Inr (), g)
         | Some v \<Rightarrow> put_vertex d (v\<lparr>vx_status := st\<rparr>) g))"

fun enqueue :: "hash list \<Rightarrow> hash list \<times> hash list \<Rightarrow> hash list \<times> hash list" where
  "enqueue [] (visited, queue) = (visited, queue)"
| "enqueue (p # ps) (visited, queue) =
    (if p \<in> set visited then enqueue ps (visited, queue)
     else enqueue ps (visited @ [p], queue @ [p]))"

lemma enqueue_shape:
  "\<exists>new. enqueue ps (visited, queue) = (visited @ new, queue @ new) \<and>
    set new = set ps - set visited \<and> distinct new"
proof (induction ps arbitrary: visited queue)
  case (Cons p ps)
  show ?case
  proof (cases "p \<in> set visited")
    case False
    from Cons.IH [of "visited @ [p]" "queue @ [p]"] obtain new where
      "enqueue ps (visited @ [p], queue @ [p]) = (visited @ p # new, queue @ p # new)"
      "set new = set ps - set (visited @ [p])" "distinct new" by auto
    with False show ?thesis by (intro exI [of _ "p # new"]) auto
  next
    case True
    with Cons.IH [of visited queue] show ?thesis by auto
  qed
qed simp

lemma enqueue_measure:
  assumes "\<not> MAX_TRAVERSAL_VERTICES \<le> length visited" "(visited', queue') = enqueue ps (visited, queue)"
  shows "MAX_TRAVERSAL_VERTICES - length visited' < MAX_TRAVERSAL_VERTICES - length visited \<or>
    MAX_TRAVERSAL_VERTICES - length visited' = MAX_TRAVERSAL_VERTICES - length visited \<and>
    length queue' < Suc (length queue)"
proof -
  from enqueue_shape [of ps visited queue] obtain new where
    "enqueue ps (visited, queue) = (visited @ new, queue @ new)" by blast
  with assms show ?thesis by (cases new) auto
qed

function finalize_loop ::
  "disk \<Rightarrow> hash list \<Rightarrow> hash list \<Rightarrow> u64 \<Rightarrow> u64 \<Rightarrow> dag \<Rightarrow> (dag_error + u64 \<times> u64) \<times> dag" where
  "finalize_loop d [] visited nv nt g = (Inr (nv, nt), g)"
| "finalize_loop d (h # queue) visited nv nt g =
    (if length visited \<ge> MAX_TRAVERSAL_VERTICES
     then (Inl (TraversalLimitExceeded MAX_TRAVERSAL_VERTICES), g) else
     case get_vertex d h g of
       Inl e \<Rightarrow> (Inl e, g)
     | Inr None \<Rightarrow> finalize_loop d queue visited nv nt g
     | Inr (Some v) \<Rightarrow>
         (case enqueue (vx_parents v) (visited, queue) of (visited, queue) \<Rightarrow>
            if vx_status v \<noteq> VFinalized then
              let v = v\<lparr>vx_status := VFinalized\<rparr> in
              (case put_vertex d v g of
                 (Inl e, g) \<Rightarrow> (Inl e, g)
               | (Inr _, g) \<Rightarrow>
                   finalize_loop d queue visited (saturating_add nv 1)
                     (saturating_add nt (of_nat (length (vx_transactions v))))
                     (g\<lparr>dg_vertices := (dg_vertices g)(h \<mapsto> v)\<rparr>))
            else finalize_loop d queue visited nv nt g))"
  by pat_completeness auto

termination
  by (relation "measures [\<lambda>(d, queue, visited, nv, nt, g). MAX_TRAVERSAL_VERTICES - length visited,
    \<lambda>(d, queue, visited, nv, nt, g). length queue]") (auto dest: enqueue_measure)

definition finalize_reachable_from_tips ::
  "disk \<Rightarrow> hash list \<Rightarrow> dag \<Rightarrow> (dag_error + u64 \<times> u64) \<times> dag" where
  "finalize_reachable_from_tips d tips g =
    (case enqueue tips ([], []) of (visited, queue) \<Rightarrow> finalize_loop d queue visited 0 0 g)"

section \<open>Specification\<close>

text \<open>The vertex a lookup finds, and the parent relation it induces.\<close>

definition vertex_of :: "dag \<Rightarrow> hash \<Rightarrow> dag_vertex option" where
  "vertex_of g h = (case dg_vertices g h of Some v \<Rightarrow> Some v | None \<Rightarrow> dg_stored g h)"

definition parent_rel :: "dag \<Rightarrow> (hash \<times> hash) set" where
  "parent_rel g = {(h, p). \<exists>v. vertex_of g h = Some v \<and> p \<in> set (vx_parents v)}"

definition stored_wf :: "nat \<Rightarrow> (hash \<rightharpoonup> dag_vertex) \<Rightarrow> bool" where
  "stored_wf max_parents st \<longleftrightarrow> (\<forall>h v. st h = Some v \<longrightarrow>
    vx_hash v = h \<and> set (vx_parents v) \<subseteq> dom st \<and> length (vx_parents v) \<le> max_parents)"

text \<open>The memory copy of a vertex may differ from the stored one in its status only, as far as the
  graph is concerned.\<close>

definition backed :: "dag \<Rightarrow> bool" where
  "backed g \<longleftrightarrow> (\<forall>h v. dg_vertices g h = Some v \<longrightarrow> vx_hash v = h \<and>
    (\<exists>w. dg_stored g h = Some w \<and> vx_parents w = vx_parents v))"

definition limits_ok :: "dag \<Rightarrow> bool" where
  "limits_ok g \<longleftrightarrow> finite (dom (dg_tips g)) \<and> card (dom (dg_tips g)) \<le> MAX_SHARDS \<and>
    (\<forall>s ts. dg_tips g s = Some ts \<longrightarrow> ts \<noteq> [] \<and> length ts \<le> MAX_TIPS_PER_SHARD) \<and>
    (\<forall>h cs. dg_children g h = Some cs \<longrightarrow> length cs \<le> MAX_CHILDREN_PER_VERTEX)"

definition dag_inv :: "dag \<Rightarrow> bool" where
  "dag_inv g \<longleftrightarrow> limits_ok g \<and> backed g \<and> stored_wf (dg_max_parents g) (dg_stored g)"

datatype dag_op =
    AddVertex disk "hash set \<Rightarrow> hash list" dag_vertex
  | UpdateStatus disk address hash vertex_status
  | UpdateStatusInternal disk hash vertex_status
  | FinalizeReachable disk "hash list"
  | SetAdmin address address
  | AddCreator address
  | AddCreatorChecked address address
  | RemoveCreator address
  | RemoveCreatorChecked address address

fun dag_exec :: "dag_op \<Rightarrow> dag \<Rightarrow> dag" where
  "dag_exec (AddVertex d iter v) g = snd (add_vertex d iter v g)"
| "dag_exec (UpdateStatus d caller h st) g = snd (update_vertex_status d caller h st g)"
| "dag_exec (UpdateStatusInternal d h st) g = snd (update_vertex_status_internal d h st g)"
| "dag_exec (FinalizeReachable d tips) g = snd (finalize_reachable_from_tips d tips g)"
| "dag_exec (SetAdmin caller a) g = snd (set_admin caller a g)"
| "dag_exec (AddCreator a) g = add_authorized_creator a g"
| "dag_exec (AddCreatorChecked caller a) g = snd (add_authorized_creator_checked caller a g)"
| "dag_exec (RemoveCreator a) g = remove_authorized_creator a g"
| "dag_exec (RemoveCreatorChecked caller a) g = snd (remove_authorized_creator_checked caller a g)"

section \<open>Samples\<close>

definition good_disk :: disk where
  "good_disk = \<lparr> read_error = \<lambda>_. None, write_error = \<lambda>_. None \<rparr>"

definition sample_vertex :: "u8 \<Rightarrow> hash list \<Rightarrow> u64 \<Rightarrow> dag_vertex" where
  "sample_vertex b parents height =
    \<lparr> vx_hash = addr b, vx_parents = parents, vx_transactions = [], vx_timestamp = 7, vx_shard_id = 0,
      vx_creator = GENESIS_CREATOR, vx_signature = [], vx_weight = 0, vx_height = height,
      vx_status = VPending, vx_committee_votes = [], vx_state_root = addr 0 \<rparr>"

text \<open>Vertex 1, its child 2 and an unrelated vertex 3.\<close>

definition sample_dag :: dag where
  "sample_dag = (dag_new
     [addr 1 \<mapsto> sample_vertex 1 [] 0, addr 2 \<mapsto> sample_vertex 2 [addr 1] 1, addr 3 \<mapsto> sample_vertex 3 [] 0]
     Map.empty 0 8)
     \<lparr>dg_vertices := [addr 2 \<mapsto> sample_vertex 2 [addr 1] 1], dg_vertex_count := 1\<rparr>"

lemmas dag_samples = sample_dag_def sample_vertex_def dag_new_def good_disk_def

section \<open>Lemmas on insertion\<close>

lemmas creator_op_defs = set_admin_def add_authorized_creator_def add_authorized_creator_checked_def
  remove_authorized_creator_def remove_authorized_creator_checked_def

lemma check_parents_stored:
  assumes "check_parents d g ps = Inr u" "backed g"
  shows "set ps \<subseteq> dom (dg_stored g)"
  using assms
proof (induction ps)
  case (Cons p ps)
  show ?case
  proof (cases "dg_vertices g p")
    case None
    with Cons show ?thesis
      by (auto simp: storage_get_vertex_def split: option.splits sum.splits)
  next
    case (Some v)
    with Cons.prems(2) have "p \<in> dom (dg_stored g)" by (auto simp: backed_def)
    with Some Cons show ?thesis by simp
  qed
qed simp

lemma push_children_only_children:
  "\<exists>cs. snd (push_children h ps g) = g\<lparr>dg_children := cs\<rparr>"
proof (induction ps arbitrary: g)
  case Nil
  show ?case by (rule exI [of _ "dg_children g"]) simp
next
  case (Cons p ps)
  let ?g = "g\<lparr>dg_children := (dg_children g)(p \<mapsto> unwrap_or (dg_children g p) [] @ [h])\<rparr>"
  from Cons [of ?g] obtain cs where "snd (push_children h ps ?g) = ?g\<lparr>dg_children := cs\<rparr>" by blast
  then show ?case by (auto simp: Let_def)
qed

lemma push_children_limits: "limits_ok g \<Longrightarrow> limits_ok (snd (push_children h ps g))"
proof (induction ps arbitrary: g)
  case (Cons p ps)
  let ?e = "unwrap_or (dg_children g p) []"
  have "length ?e \<le> MAX_CHILDREN_PER_VERTEX"
    using Cons.prems by (cases "dg_children g p") (auto simp: limits_ok_def)
  moreover have "limits_ok (g\<lparr>dg_children := (dg_children g)(p \<mapsto> ?e @ [h])\<rparr>)"
    if "length ?e < MAX_CHILDREN_PER_VERTEX"
    using Cons.prems that by (auto simp: limits_ok_def)
  moreover have "limits_ok (g\<lparr>dg_children := (dg_children g)(p \<mapsto> ?e)\<rparr>)"
    using Cons.prems calculation(1) by (auto simp: limits_ok_def)
  ultimately show ?case using Cons.IH by (simp add: Let_def)
qed simp

lemma update_tips_limits:
  assumes "limits_ok g" "\<not> (dg_tips g s = None \<and> card (dom (dg_tips g)) \<ge> MAX_SHARDS)"
  shows "limits_ok (update_tips s v g)"
proof -
  have "card (insert s (dom (dg_tips g))) \<le> MAX_SHARDS"
    using assms by (cases "s \<in> dom (dg_tips g)") (auto simp: limits_ok_def insert_absorb)
  then show ?thesis
    using assms(1) by (auto simp: limits_ok_def update_tips_def Let_def dag_limits split: option.splits)
qed

lemma put_vertex_cases:
  obtains (failed) e where "put_vertex d v g = (Inl e, g)"
  | (written) "put_vertex d v g = (Inr (), g\<lparr>dg_stored := (dg_stored g)(vx_hash v \<mapsto> v),
      dg_stored_heights := (dg_stored_heights g)((vx_shard_id v, vx_height v) \<mapsto> vx_hash v)\<rparr>)"
  by (cases "write_error d (vx_hash v)") (auto simp: put_vertex_def)

lemma dag_inv_put:
  assumes "backed g" "stored_wf (dg_max_parents g) (dg_stored g)" "limits_ok g"
    "set (vx_parents v) \<subseteq> dom (dg_stored g)" "length (vx_parents v) \<le> dg_max_parents g"
  shows "dag_inv (g\<lparr>dg_stored := (dg_stored g)(vx_hash v \<mapsto> v), dg_stored_heights := hs,
    dg_vertices := (dg_vertices g)(vx_hash v \<mapsto> v), dg_vertex_count := n\<rparr>)"
  using assms unfolding dag_inv_def backed_def stored_wf_def limits_ok_def by (auto 0 4)

text \<open>Writing a vertex whose parents are those of the stored copy.\<close>

lemma stored_wf_same_parents:
  assumes "stored_wf m st" "st h = Some w" "vx_parents v = vx_parents w" "vx_hash v = h"
  shows "stored_wf m (st(h \<mapsto> v))"
  using assms unfolding stored_wf_def by (auto 0 4)

text \<open>The insertion as one equation: which branch is taken and what is left behind.\<close>

definition linked :: "dag_vertex \<Rightarrow> dag \<Rightarrow> dag" where
  "linked v g = update_height v (update_tips (vx_shard_id v) v (snd (push_children (vx_hash v) (vx_parents v) g)))"

lemma linked_keeps [simp]:
  "dg_stored (linked v g) = dg_stored g" "dg_vertices (linked v g) = dg_vertices g"
  "dg_max_parents (linked v g) = dg_max_parents g" "dg_vertex_count (linked v g) = dg_vertex_count g"
  "dg_stored_heights (linked v g) = dg_stored_heights g"
proof -
  obtain cs where "snd (push_children (vx_hash v) (vx_parents v) g) = g\<lparr>dg_children := cs\<rparr>"
    using push_children_only_children by blast
  then show "dg_stored (linked v g) = dg_stored g" "dg_vertices (linked v g) = dg_vertices g"
    "dg_max_parents (linked v g) = dg_max_parents g" "dg_vertex_count (linked v g) = dg_vertex_count g"
    "dg_stored_heights (linked v g) = dg_stored_heights g"
    by (simp_all add: linked_def update_height_def update_tips_def)
qed

lemma limits_ok_linked:
  assumes "limits_ok g" "\<not> (dg_tips g (vx_shard_id v) = None \<and> card (dom (dg_tips g)) \<ge> MAX_SHARDS)"
  shows "limits_ok (linked v g)"
proof -
  obtain cs where cs: "snd (push_children (vx_hash v) (vx_parents v) g) = g\<lparr>dg_children := cs\<rparr>"
    using push_children_only_children by blast
  then have "limits_ok (g\<lparr>dg_children := cs\<rparr>)"
    using push_children_limits [OF assms(1), of "vx_hash v" "vx_parents v"] by simp
  then have "limits_ok (update_tips (vx_shard_id v) v (g\<lparr>dg_children := cs\<rparr>))"
    using assms(2) by (intro update_tips_limits) simp_all
  then show ?thesis by (simp add: linked_def cs update_height_def limits_ok_def)
qed

lemma link_vertex_cases:
  obtains (early) e where "link_vertex d v g = (Inl e, g)"
  | (children) e where "link_vertex d v g = (Inl e, snd (push_children (vx_hash v) (vx_parents v) g))"
  | (disk) e where "link_vertex d v g = (Inl e, linked v g)"
      "\<not> (dg_tips g (vx_shard_id v) = None \<and> card (dom (dg_tips g)) \<ge> MAX_SHARDS)"
  | (added) "check_parents d g (vx_parents v) = Inr ()" "length (vx_parents v) \<le> dg_max_parents g"
      "\<not> (dg_tips g (vx_shard_id v) = None \<and> card (dom (dg_tips g)) \<ge> MAX_SHARDS)"
      "link_vertex d v g = (Inr (), (linked v g)\<lparr>dg_stored := (dg_stored g)(vx_hash v \<mapsto> v),
        dg_stored_heights := (dg_stored_heights g)((vx_shard_id v, vx_height v) \<mapsto> vx_hash v),
        dg_vertices := (dg_vertices g)(vx_hash v \<mapsto> v), dg_vertex_count := dg_vertex_count g + 1\<rparr>)"
proof -
  let ?few = "length (vx_parents v) < dg_min_parents g \<and> vx_height v > 0"
  let ?many = "length (vx_parents v) > dg_max_parents g"
  let ?shards = "dg_tips g (vx_shard_id v) = None \<and> card (dom (dg_tips g)) \<ge> MAX_SHARDS"
  note early' = early and children' = children and disk' = disk and added' = added
  show thesis
  proof (cases "?few \<or> ?many \<or> (\<exists>e. check_parents d g (vx_parents v) = Inl e) \<or> ?shards")
    case True
    then have "\<exists>e. link_vertex d v g = (Inl e, g)"
      by (cases "check_parents d g (vx_parents v)") (auto simp: link_vertex_def)
    then show thesis using early' by blast
  next
    case False
    then have ok: "check_parents d g (vx_parents v) = Inr ()"
      by (cases "check_parents d g (vx_parents v)") auto
    obtain r g1 where pc: "push_children (vx_hash v) (vx_parents v) g = (r, g1)" by fastforce
    then have link: "linked v g = update_height v (update_tips (vx_shard_id v) v g1)"
      by (simp add: linked_def)
    have eq: "link_vertex d v g = or_return r g1 (\<lambda>_.
        let (r, g') = put_vertex d v (linked v g) in or_return r g' (\<lambda>_.
        (Inr (), g'\<lparr>dg_vertices := (dg_vertices g')(vx_hash v \<mapsto> v),
           dg_vertex_count := dg_vertex_count g' + 1\<rparr>)))"
      unfolding link_vertex_def using False ok by (auto simp: pc link Let_def)
    show thesis
    proof (cases r)
      case (Inl e)
      then show thesis using eq pc by (intro children') simp
    next
      case (Inr u)
      then show thesis
        using eq False ok
        by (cases rule: put_vertex_cases [of d v "linked v g"]) (auto intro: disk' added')
    qed
  qed
qed

lemma dag_inv_children: "dag_inv g \<Longrightarrow> dag_inv (snd (push_children h ps g))"
proof -
  assume inv: "dag_inv g"
  obtain cs where "snd (push_children h ps g) = g\<lparr>dg_children := cs\<rparr>"
    using push_children_only_children by blast
  moreover have "limits_ok (snd (push_children h ps g))"
    using inv by (simp add: dag_inv_def push_children_limits)
  ultimately show ?thesis using inv by (simp add: dag_inv_def backed_def)
qed

lemma link_vertex_inv: "dag_inv g \<Longrightarrow> dag_inv (snd (link_vertex d v g))"
proof -
  assume inv: "dag_inv g"
  have lim: "limits_ok (linked v g)"
    if "\<not> (dg_tips g (vx_shard_id v) = None \<and> card (dom (dg_tips g)) \<ge> MAX_SHARDS)"
    using inv that by (intro limits_ok_linked) (simp_all add: dag_inv_def)
  show ?thesis
  proof (cases rule: link_vertex_cases [of d v g])
    case early
    with inv show ?thesis by simp
  next
    case children
    with inv show ?thesis by (simp add: dag_inv_children)
  next
    case disk
    with inv lim show ?thesis by (simp add: dag_inv_def backed_def)
  next
    case added
    have "set (vx_parents v) \<subseteq> dom (dg_stored (linked v g))"
      using inv added(1) check_parents_stored by (simp add: dag_inv_def)
    then have "dag_inv ((linked v g)\<lparr>dg_stored := (dg_stored (linked v g))(vx_hash v \<mapsto> v),
      dg_stored_heights := (dg_stored_heights g)((vx_shard_id v, vx_height v) \<mapsto> vx_hash v),
      dg_vertices := (dg_vertices (linked v g))(vx_hash v \<mapsto> v), dg_vertex_count := dg_vertex_count g + 1\<rparr>)"
      using inv lim added(2,3) by (intro dag_inv_put) (simp_all add: dag_inv_def backed_def)
    then show ?thesis by (simp add: added(4))
  qed
qed

lemma evict_inv: "dag_inv g \<Longrightarrow> dag_inv (evict_old_vertices iter g)"
  by (auto simp: dag_inv_def backed_def limits_ok_def evict_old_vertices_def Let_def restrict_map_def
      split: if_splits)

lemma add_vertex_inv: "dag_inv g \<Longrightarrow> dag_inv (snd (add_vertex d iter v g))"
  by (simp add: add_vertex_def Let_def link_vertex_inv evict_inv)

text \<open>A change of status: \<open>g\<close> with a new copy of a vertex in memory, on disk, or in both.\<close>

lemma dag_inv_memory_status:
  assumes "dag_inv g" "dg_vertices g h = Some v"
  shows "dag_inv (g\<lparr>dg_vertices := (dg_vertices g)(h \<mapsto> v\<lparr>vx_status := st\<rparr>)\<rparr>)"
  using assms by (auto simp: dag_inv_def backed_def limits_ok_def)

lemma dag_inv_stored_same_parents:
  assumes "dag_inv g" "dg_stored g h = Some w" "vx_parents v = vx_parents w" "vx_hash v = h"
  shows "dag_inv (g\<lparr>dg_stored := (dg_stored g)(h \<mapsto> v), dg_stored_heights := hs\<rparr>)"
proof -
  have "backed (g\<lparr>dg_stored := (dg_stored g)(h \<mapsto> v), dg_stored_heights := hs\<rparr>)"
    using assms unfolding dag_inv_def backed_def by fastforce
  then show ?thesis
    using assms stored_wf_same_parents [of "dg_max_parents g" "dg_stored g" h w v]
    by (simp add: dag_inv_def limits_ok_def)
qed

lemma vertex_of_stored:
  assumes "dag_inv g" "vertex_of g h = Some v"
  obtains w where "dg_stored g h = Some w" "vx_parents v = vx_parents w" "vx_hash v = h"
proof (cases "dg_vertices g h")
  case None
  with assms that [of v] show thesis by (auto simp: vertex_of_def dag_inv_def stored_wf_def)
next
  case (Some u)
  then have "u = v" using assms(2) by (simp add: vertex_of_def)
  with Some assms(1) obtain w where "dg_stored g h = Some w" "vx_parents w = vx_parents v" "vx_hash v = h"
    unfolding dag_inv_def backed_def by blast
  with that show thesis by simp
qed

lemma dag_inv_put_status:
  assumes inv: "dag_inv g" and v: "vertex_of g h = Some v"
  shows "dag_inv (snd (put_vertex d (v\<lparr>vx_status := st\<rparr>) g))"
proof -
  obtain w where "dg_stored g h = Some w" "vx_parents v = vx_parents w" "vx_hash v = h"
    using vertex_of_stored [OF assms] .
  then show ?thesis
    using inv by (cases rule: put_vertex_cases [of d "v\<lparr>vx_status := st\<rparr>" g])
      (simp_all add: dag_inv_stored_same_parents)
qed

lemma update_vertex_status_inv: "dag_inv g \<Longrightarrow> dag_inv (snd (update_vertex_status d caller h st g))"
proof (cases "dg_vertices g h")
  case (Some v)
  let ?g = "g\<lparr>dg_vertices := (dg_vertices g)(h \<mapsto> v\<lparr>vx_status := st\<rparr>)\<rparr>"
  assume "dag_inv g"
  then have "dag_inv (snd (put_vertex d ((v\<lparr>vx_status := st\<rparr>)\<lparr>vx_status := st\<rparr>) ?g))"
    using Some by (intro dag_inv_put_status [of _ h]) (auto intro: dag_inv_memory_status simp: vertex_of_def)
  then show ?thesis using Some \<open>dag_inv g\<close> by (simp add: update_vertex_status_def Let_def)
qed (simp add: update_vertex_status_def)

lemma update_vertex_status_internal_inv:
  assumes inv: "dag_inv g"
  shows "dag_inv (snd (update_vertex_status_internal d h st g))"
proof (cases "dg_vertices g h")
  case (Some v)
  let ?g = "g\<lparr>dg_vertices := (dg_vertices g)(h \<mapsto> v\<lparr>vx_status := st\<rparr>)\<rparr>"
  have "dag_inv (snd (put_vertex d ((v\<lparr>vx_status := st\<rparr>)\<lparr>vx_status := st\<rparr>) ?g))"
    using Some inv by (intro dag_inv_put_status [of _ h]) (auto intro: dag_inv_memory_status simp: vertex_of_def)
  then show ?thesis using Some by (simp add: update_vertex_status_internal_def Let_def)
next
  case None
  have "dag_inv (snd (put_vertex d (v\<lparr>vx_status := st\<rparr>) g))" if "dg_stored g h = Some v" for v
    using that None inv by (intro dag_inv_put_status [of _ h]) (simp_all add: vertex_of_def)
  with None inv show ?thesis
    by (auto simp: update_vertex_status_internal_def storage_get_vertex_def split: option.splits)
qed

section \<open>Lemmas on finalization\<close>

lemma get_vertex_vertex_of: "get_vertex d h g = Inr r \<Longrightarrow> r = vertex_of g h"
  by (auto simp: get_vertex_def vertex_of_def storage_get_vertex_def split: option.splits)

text \<open>One vertex finalized: written and kept in memory.\<close>

definition finalized_at :: "dag_vertex \<Rightarrow> dag \<Rightarrow> dag" where
  "finalized_at v g = g\<lparr>dg_stored := (dg_stored g)(vx_hash v \<mapsto> v\<lparr>vx_status := VFinalized\<rparr>),
     dg_stored_heights := (dg_stored_heights g)((vx_shard_id v, vx_height v) \<mapsto> vx_hash v),
     dg_vertices := (dg_vertices g)(vx_hash v \<mapsto> v\<lparr>vx_status := VFinalized\<rparr>)\<rparr>"

lemma vertex_of_hash: "dag_inv g \<Longrightarrow> vertex_of g h = Some v \<Longrightarrow> vx_hash v = h"
  by (auto simp: vertex_of_def dag_inv_def backed_def stored_wf_def split: option.splits)

lemma finalized_at_inv:
  assumes inv: "dag_inv g" and v: "vertex_of g h = Some v"
  shows "dag_inv (finalized_at v g)"
proof -
  obtain w where w: "dg_stored g h = Some w" "vx_parents v = vx_parents w" "vx_hash v = h"
    using vertex_of_stored [OF assms] .
  have "dag_inv (g\<lparr>dg_stored := (dg_stored g)(vx_hash (v\<lparr>vx_status := VFinalized\<rparr>) \<mapsto> v\<lparr>vx_status := VFinalized\<rparr>),
     dg_stored_heights := (dg_stored_heights g)((vx_shard_id v, vx_height v) \<mapsto> vx_hash v),
     dg_vertices := (dg_vertices g)(vx_hash (v\<lparr>vx_status := VFinalized\<rparr>) \<mapsto> v\<lparr>vx_status := VFinalized\<rparr>),
     dg_vertex_count := dg_vertex_count g\<rparr>)"
    using inv w by (intro dag_inv_put) (auto simp: dag_inv_def stored_wf_def)
  then show ?thesis by (simp add: finalized_at_def)
qed

lemma vertex_of_finalized_at:
  "vertex_of (finalized_at v g) h =
    (if h = vx_hash v then Some (v\<lparr>vx_status := VFinalized\<rparr>) else vertex_of g h)"
  by (simp add: vertex_of_def finalized_at_def split: option.split)

text \<open>The loop body as an equation over \<open>vertex_of\<close> and \<open>finalized_at\<close>.\<close>

lemma finalize_loop_step:
  assumes "dag_inv g"
  obtains (stop) e where "finalize_loop d (h # queue) visited nv nt g = (Inl e, g)"
  | (skip) "vertex_of g h = None"
      "finalize_loop d (h # queue) visited nv nt g = finalize_loop d queue visited nv nt g"
  | (old) v new where "vertex_of g h = Some v" "vx_status v = VFinalized"
      "set new = set (vx_parents v) - set visited"
      "finalize_loop d (h # queue) visited nv nt g = finalize_loop d (queue @ new) (visited @ new) nv nt g"
      "length visited < MAX_TRAVERSAL_VERTICES"
  | (fresh) v new nv' nt' where "vertex_of g h = Some v"
      "set new = set (vx_parents v) - set visited"
      "finalize_loop d (h # queue) visited nv nt g =
        finalize_loop d (queue @ new) (visited @ new) nv' nt' (finalized_at v g)"
      "length visited < MAX_TRAVERSAL_VERTICES"
proof (cases "length visited \<ge> MAX_TRAVERSAL_VERTICES \<or> (\<exists>e. get_vertex d h g = Inl e)")
  case True
  then have "\<exists>e. finalize_loop d (h # queue) visited nv nt g = (Inl e, g)" by auto
  with stop show thesis by blast
next
  case False
  then obtain r where r: "get_vertex d h g = Inr r" by (cases "get_vertex d h g") auto
  then have r_eq: "r = vertex_of g h" by (rule get_vertex_vertex_of)
  show thesis
  proof (cases r)
    case None
    with False r r_eq show thesis by (intro skip) simp_all
  next
    case (Some v)
    then have v: "vertex_of g h = Some v" and h: "vx_hash v = h"
      using r_eq vertex_of_hash [OF assms] by auto
    from enqueue_shape [of "vx_parents v" visited queue] obtain new where
      new: "enqueue (vx_parents v) (visited, queue) = (visited @ new, queue @ new)"
        "set new = set (vx_parents v) - set visited" by blast
    show thesis
    proof (cases "vx_status v = VFinalized")
      case True
      then show thesis using False r Some new v by (intro old) simp_all
    next
      case nf: False
      show thesis
      proof (cases rule: put_vertex_cases [of d "v\<lparr>vx_status := VFinalized\<rparr>" g])
        case (failed e)
        with False nf r Some new show thesis by (intro stop) (simp add: Let_def)
      next
        case written
        then have "finalize_loop d (h # queue) visited nv nt g =
          finalize_loop d (queue @ new) (visited @ new) (saturating_add nv 1)
            (saturating_add nt (of_nat (length (vx_transactions v)))) (finalized_at v g)"
          using False nf r Some new h by (simp add: Let_def finalized_at_def)
        with v new(2) False show thesis by (intro fresh) simp_all
      qed
    qed
  qed
qed

declare finalize_loop.simps(2) [simp del]

text \<open>Induction along the loop: the visited set grows below its limit or the queue shrinks.\<close>

definition closer :: "'q list \<Rightarrow> hash list \<Rightarrow> 'q list \<Rightarrow> hash list \<Rightarrow> bool" where
  "closer queue' visited' queue visited \<longleftrightarrow>
    MAX_TRAVERSAL_VERTICES - length visited' < MAX_TRAVERSAL_VERTICES - length visited \<or>
    MAX_TRAVERSAL_VERTICES - length visited' = MAX_TRAVERSAL_VERTICES - length visited \<and>
    length queue' < length queue"

lemma traversal_induct [case_names step]:
  fixes P :: "'q list \<Rightarrow> hash list \<Rightarrow> bool"
  assumes step: "\<And>queue visited. (\<And>queue' visited'. closer queue' visited' queue visited \<Longrightarrow>
    P queue' visited') \<Longrightarrow> P queue visited"
  shows "P queue visited"
proof -
  let ?m = "[\<lambda>(queue, visited). MAX_TRAVERSAL_VERTICES - length (visited :: hash list),
    \<lambda>(queue, visited). length (queue :: 'q list)]"
  have "case p of (queue, visited) \<Rightarrow> P queue visited" for p
  proof (rule wf_induct_rule [OF wf_measures [of ?m]])
    fix p assume IH: "\<And>q. (q, p) \<in> measures ?m \<Longrightarrow> case q of (queue, visited) \<Rightarrow> P queue visited"
    obtain queue visited where p: "p = (queue, visited)" by fastforce
    have "P queue visited"
    proof (rule step)
      fix queue' visited' assume "closer queue' visited' queue visited"
      then show "P queue' visited'" using IH [of "(queue', visited')"] by (simp add: p closer_def)
    qed
    then show "case p of (queue, visited) \<Rightarrow> P queue visited" by (simp add: p)
  qed
  from this [of "(queue, visited)"] show ?thesis by simp
qed

lemma closer_pop: "closer queue visited (h # queue) visited"
  by (simp add: closer_def)

lemma closer_push_map:
  "length visited < MAX_TRAVERSAL_VERTICES \<Longrightarrow> closer (queue @ map f new) (visited @ new) (h # queue) visited"
  by (cases new) (auto simp: closer_def)

lemma closer_push:
  "length visited < MAX_TRAVERSAL_VERTICES \<Longrightarrow> closer (queue @ new) (visited @ new) (h # queue) visited"
  by (cases new) (auto simp: closer_def)

lemma finalize_loop_inv: "dag_inv g \<Longrightarrow> dag_inv (snd (finalize_loop d queue visited nv nt g))"
proof (induction queue visited arbitrary: nv nt g rule: traversal_induct)
  case (step queue visited)
  show ?case
  proof (cases queue)
    case Nil
    with step show ?thesis by simp
  next
    case (Cons h q)
    note IH = step.IH [unfolded Cons]
    from step.prems show ?thesis
    proof (cases rule: finalize_loop_step [of g d h q visited nv nt])
      case skip
      then show ?thesis using IH [OF closer_pop step.prems] Cons by simp
    next
      case (old v new)
      then show ?thesis using IH [OF closer_push step.prems] Cons by simp
    next
      case (fresh v new)
      then show ?thesis
        using IH [OF closer_push finalized_at_inv [OF step.prems fresh(1)]] Cons by simp
    qed (use step.prems Cons in simp)
  qed
qed

lemma finalize_inv: "dag_inv g \<Longrightarrow> dag_inv (snd (finalize_reachable_from_tips d tips g))"
  by (auto simp: finalize_reachable_from_tips_def finalize_loop_inv split: prod.splits)

lemma dag_exec_inv: "dag_inv g \<Longrightarrow> dag_inv (dag_exec x g)"
  by (cases x)
    (simp_all add: add_vertex_inv update_vertex_status_inv update_vertex_status_internal_inv finalize_inv,
     simp_all add: creator_op_defs dag_inv_def backed_def limits_ok_def)

interpretation dg: op_system dag_exec "\<lambda>_. True" dag_inv
  by unfold_locales (rule dag_exec_inv)

definition settled :: "hash set \<Rightarrow> dag \<Rightarrow> hash \<Rightarrow> bool" where
  "settled visited g h \<longleftrightarrow>
    (\<forall>v. vertex_of g h = Some v \<longrightarrow> vx_status v = VFinalized \<and> set (vx_parents v) \<subseteq> visited)"

definition fin_inv :: "hash set \<Rightarrow> dag \<Rightarrow> hash list \<Rightarrow> hash list \<Rightarrow> dag \<Rightarrow> bool" where
  "fin_inv S g0 queue visited g \<longleftrightarrow> dag_inv g \<and> set queue \<subseteq> set visited \<and> S \<subseteq> set visited \<and>
    set visited \<subseteq> (parent_rel g0)\<^sup>* `` S \<and>
    (\<forall>h. vertex_of g h = vertex_of g0 h \<or>
      vertex_of g h = map_option (vx_status_update (\<lambda>_. VFinalized)) (vertex_of g0 h)) \<and>
    (\<forall>h. h \<notin> set visited \<longrightarrow> vertex_of g h = vertex_of g0 h) \<and>
    (\<forall>h. h \<in> set visited - set queue \<longrightarrow> settled (set visited) g h)"

lemma fin_inv_parents:
  assumes "fin_inv S g0 queue visited g" "vertex_of g h = Some v"
  obtains v0 where "vertex_of g0 h = Some v0" "vx_parents v0 = vx_parents v"
    "v\<lparr>vx_status := VFinalized\<rparr> = v0\<lparr>vx_status := VFinalized\<rparr>"
proof -
  have "vertex_of g h = vertex_of g0 h \<or>
      vertex_of g h = map_option (vx_status_update (\<lambda>_. VFinalized)) (vertex_of g0 h)"
    using assms(1) by (simp add: fin_inv_def)
  with assms(2) that show thesis by (cases "vertex_of g0 h") auto
qed

lemma fin_inv_pop:
  assumes inv: "fin_inv S g0 (h # queue) visited g" and "vertex_of g h = None"
  shows "fin_inv S g0 queue visited g"
proof -
  have "settled (set visited) g h" using assms(2) by (simp add: settled_def)
  with inv show ?thesis by (auto simp: fin_inv_def)
qed

lemma fin_inv_push:
  assumes inv: "fin_inv S g0 (h # queue) visited g" and v: "vertex_of g h = Some v"
    and new: "set new = set (vx_parents v) - set visited"
    and g': "g' = finalized_at v g \<or> g' = g \<and> vx_status v = VFinalized"
  shows "fin_inv S g0 (queue @ new) (visited @ new) g'"
proof -
  have dinv: "dag_inv g" and h: "h \<in> set visited" using inv by (simp_all add: fin_inv_def)
  have hash: "vx_hash v = h" using vertex_of_hash [OF dinv v] .
  have same: "vertex_of g' k = (if k = h then Some (v\<lparr>vx_status := VFinalized\<rparr>) else vertex_of g k)" for k
    using g' v hash by (auto simp: vertex_of_finalized_at)
  obtain v0 where v0: "vertex_of g0 h = Some v0" "vx_parents v0 = vx_parents v"
    "v\<lparr>vx_status := VFinalized\<rparr> = v0\<lparr>vx_status := VFinalized\<rparr>" using fin_inv_parents [OF inv v] .
  have "dag_inv g'" using g' dinv finalized_at_inv [OF dinv v] by auto
  moreover have "set (visited @ new) \<subseteq> (parent_rel g0)\<^sup>* `` S"
  proof -
    have reach: "h \<in> (parent_rel g0)\<^sup>* `` S" using inv h by (auto simp: fin_inv_def)
    have "(h, p) \<in> parent_rel g0" if "p \<in> set new" for p
      using that new v0 by (auto simp: parent_rel_def)
    with reach have "set new \<subseteq> (parent_rel g0)\<^sup>* `` S" by (blast intro: rtrancl_into_rtrancl)
    then show ?thesis using inv by (simp add: fin_inv_def)
  qed
  moreover have "settled (set (visited @ new)) g' k" if "k = h \<or> settled (set visited) g k" for k
    using that new v unfolding settled_def same by auto
  ultimately show ?thesis
    using inv h v0 unfolding fin_inv_def same by auto
qed

lemma fin_inv_done:
  assumes inv: "fin_inv S g0 [] visited g"
  shows "vertex_of g h = (if h \<in> (parent_rel g0)\<^sup>* `` S
    then map_option (vx_status_update (\<lambda>_. VFinalized)) (vertex_of g0 h) else vertex_of g0 h)"
proof -
  have closed: "q \<in> set visited" if "p \<in> set visited" "(p, q) \<in> parent_rel g0" for p q
  proof -
    obtain v0 where v0: "vertex_of g0 p = Some v0" "q \<in> set (vx_parents v0)"
      using \<open>(p, q) \<in> parent_rel g0\<close> by (auto simp: parent_rel_def)
    have "vertex_of g p = vertex_of g0 p \<or>
        vertex_of g p = map_option (vx_status_update (\<lambda>_. VFinalized)) (vertex_of g0 p)"
      using inv by (simp add: fin_inv_def)
    with v0 obtain v where "vertex_of g p = Some v" "q \<in> set (vx_parents v)" by auto
    moreover have "settled (set visited) g p" using inv \<open>p \<in> set visited\<close> by (simp add: fin_inv_def)
    ultimately show ?thesis by (auto simp: settled_def)
  qed
  have "q \<in> set visited" if "(p, q) \<in> (parent_rel g0)\<^sup>*" "p \<in> set visited" for p q
    using that by (induction rule: rtrancl_induct) (auto intro: closed)
  then have vis: "set visited = (parent_rel g0)\<^sup>* `` S" using inv by (auto simp: fin_inv_def)
  show ?thesis
  proof (cases "h \<in> set visited")
    case True
    show ?thesis
    proof (cases "vertex_of g h")
      case None
      moreover have "vertex_of g h = vertex_of g0 h \<or>
        vertex_of g h = map_option (vx_status_update (\<lambda>_. VFinalized)) (vertex_of g0 h)"
        using inv by (simp add: fin_inv_def)
      ultimately show ?thesis by auto
    next
      case (Some v)
      then have "vx_status v = VFinalized" using inv True by (simp add: fin_inv_def settled_def)
      moreover obtain v0 where "vertex_of g0 h = Some v0"
        "v\<lparr>vx_status := VFinalized\<rparr> = v0\<lparr>vx_status := VFinalized\<rparr>" using fin_inv_parents [OF inv Some] .
      ultimately show ?thesis using Some True vis by (cases v) auto
    qed
  next
    case False
    then show ?thesis using inv vis by (simp add: fin_inv_def)
  qed
qed

lemma finalize_loop_done:
  assumes "fin_inv S g0 queue visited g" "finalize_loop d queue visited nv nt g = (Inr r, g')"
  shows "\<exists>visited'. fin_inv S g0 [] visited' g'"
  using assms
proof (induction queue visited arbitrary: nv nt g rule: traversal_induct)
  case (step queue visited)
  show ?case
  proof (cases queue)
    case Nil
    with step.prems show ?thesis by auto
  next
    case (Cons h q)
    note IH = step.IH [unfolded Cons] and inv = step.prems(1) [unfolded Cons]
    have "dag_inv g" using inv by (simp add: fin_inv_def)
    then show ?thesis
    proof (cases rule: finalize_loop_step [of g d h q visited nv nt])
      case skip
      then show ?thesis using IH [OF closer_pop fin_inv_pop [OF inv]] step.prems(2) Cons by simp
    next
      case (old v new)
      then show ?thesis
        using IH [OF closer_push fin_inv_push [OF inv old(1,3), of g]] step.prems(2) Cons by simp
    next
      case (fresh v new)
      then show ?thesis
        using IH [OF closer_push fin_inv_push [OF inv fresh(1,2), of "finalized_at v g"]] step.prems(2) Cons
        by simp
    qed (use step.prems Cons in simp)
  qed
qed

lemma fin_inv_start:
  assumes "dag_inv g" "enqueue tips ([], []) = (visited, queue)"
  shows "fin_inv (set tips) g queue visited g"
proof -
  from enqueue_shape [of tips "[]" "[]"] assms(2) have "set visited = set tips" "queue = visited" by auto
  with assms(1) show ?thesis by (auto simp: fin_inv_def)
qed

lemma dag_inv_new: "stored_wf max_parents st \<Longrightarrow> dag_inv (dag_new st heights min_parents max_parents)"
  by (simp add: dag_new_def dag_inv_def limits_ok_def backed_def)

lemma sample_dag_inv: "dag_inv sample_dag"
  by (auto simp: dag_samples dag_inv_def limits_ok_def backed_def stored_wf_def split: if_splits)

section \<open>Lemmas on the vertex hash\<close>

definition vertex_wf :: "dag_vertex \<Rightarrow> bool" where
  "vertex_wf v \<longleftrightarrow> (\<forall>p \<in> set (vx_parents v). length p = 32) \<and>
    (\<forall>t \<in> set (vx_transactions v). length (stx_hash t) = 32) \<and> length (vx_creator v) = 32"

lemma concat_chunks_inject:
  assumes "\<forall>x \<in> set xs. length x = n" "\<forall>y \<in> set ys. length y = n" "0 < n" "concat xs = concat ys"
  shows "xs = ys"
  using assms
proof (induction xs arbitrary: ys)
  case Nil
  then show ?case by (cases ys) auto
next
  case (Cons x xs)
  then have "ys \<noteq> []" by auto
  then obtain y ys' where ys: "ys = y # ys'" by (cases ys) auto
  with Cons.prems have "x = y" "concat xs = concat ys'" by simp_all
  with Cons.IH [of ys'] Cons.prems ys show ?case by simp
qed

lemma append_suffix_inject: "length b = length d \<Longrightarrow> a @ b = c @ d \<longleftrightarrow> a = c \<and> b = d"
  by auto

section \<open>Properties\<close>

text \<open>The bytes a vertex is hashed over determine its timestamp, shard, creator, height and the
  sequence made of its parents followed by its transaction hashes, and nothing more: where the parents
  end and the transactions begin is not part of the hash.\<close>

theorem vertex_preimage_exact:
  assumes "vertex_wf v" "vertex_wf w"
  shows "vertex_preimage v = vertex_preimage w \<longleftrightarrow>
    vx_parents v @ map stx_hash (vx_transactions v) = vx_parents w @ map stx_hash (vx_transactions w) \<and>
    vx_timestamp v = vx_timestamp w \<and> vx_shard_id v = vx_shard_id w \<and>
    vx_creator v = vx_creator w \<and> vx_height v = vx_height w"
proof -
  define links where "links v = vx_parents v @ map stx_hash (vx_transactions v)" for v :: dag_vertex
  define rest where "rest v = to_le_bytes (vx_timestamp v) @ to_le_bytes (vx_shard_id v) @ vx_creator v @
    to_le_bytes (vx_height v)" for v :: dag_vertex
  have pre: "vertex_preimage v = concat (links v) @ rest v" for v
    by (simp add: vertex_preimage_def links_def rest_def)
  have len: "\<forall>x \<in> set (links v). length x = 32" "\<forall>x \<in> set (links w). length x = 32"
    using assms by (auto simp: vertex_wf_def links_def)
  have "concat (links v) = concat (links w) \<longleftrightarrow> links v = links w"
    using concat_chunks_inject [OF len] by auto
  moreover have "rest v = rest w \<longleftrightarrow> vx_timestamp v = vx_timestamp w \<and> vx_shard_id v = vx_shard_id w \<and>
      vx_creator v = vx_creator w \<and> vx_height v = vx_height w"
    using assms by (simp add: rest_def vertex_wf_def to_le_bytes_inject)
  moreover have "length (rest v) = length (rest w)" using assms by (simp add: rest_def vertex_wf_def)
  ultimately show ?thesis unfolding pre append_suffix_inject [OF \<open>length (rest v) = length (rest w)\<close>]
    by (simp only: links_def)
qed

theorem vertex_preimage_exact_witness:
  "vertex_preimage (sample_vertex 2 [addr 1] 1) \<noteq> vertex_preimage (sample_vertex 2 [addr 3] 1)"
  using vertex_preimage_exact [of "sample_vertex 2 [addr 1] 1" "sample_vertex 2 [addr 3] 1"]
  by (simp add: vertex_wf_def sample_vertex_def GENESIS_CREATOR_def addr_def)

text \<open>C29: After any sequence of calls, whichever of their database accesses fail, a shard has at most
  100 tips and never an empty tip list, there are at most 1024 shards with tips and 256 recorded
  children per vertex, every vertex in memory has a stored copy with the same parents, and every
  parent of a stored vertex is stored.\<close>

theorem dag_reachable_wf:
  assumes "stored_wf max_parents st"
  shows "dag_inv (fold dag_exec ops (dag_new st heights min_parents max_parents))"
  using dag_inv_new [OF assms] by (intro dg.run_invar) (simp_all add: list_all_iff)

theorem dag_reachable_wf_witness:
  "dag_inv (fold dag_exec [AddVertex good_disk (\<lambda>_. []) (sample_vertex 1 [] 0)]
     (dag_new Map.empty Map.empty 0 8))"
  by (rule dag_reachable_wf) (simp add: stored_wf_def)

lemma finalize_vertex_of:
  assumes "dag_inv g" "finalize_reachable_from_tips d tips g = (Inr r, g')"
  shows "vertex_of g' h = (if h \<in> (parent_rel g)\<^sup>* `` set tips
    then map_option (vx_status_update (\<lambda>_. VFinalized)) (vertex_of g h) else vertex_of g h)"
proof -
  obtain visited queue where q: "enqueue tips ([], []) = (visited, queue)" by fastforce
  with assms(2) have "finalize_loop d queue visited 0 0 g = (Inr r, g')"
    by (simp add: finalize_reachable_from_tips_def)
  with finalize_loop_done [OF fin_inv_start [OF assms(1) q]] obtain visited' where
    "fin_inv (set tips) g [] visited' g'" by blast
  then show ?thesis by (rule fin_inv_done)
qed

text \<open>C30: When \<open>finalize_reachable_from_tips\<close> returns a count, a lookup finds exactly the vertices
  reachable from the tips along parent links with status Finalized, and every other vertex as it was.\<close>

theorem finalize_exact:
  assumes "dag_inv g" "finalize_reachable_from_tips d tips g = (Inr r, g')"
  shows "vertex_of g' h = (if h \<in> (parent_rel g)\<^sup>* `` set tips
    then map_option (vx_status_update (\<lambda>_. VFinalized)) (vertex_of g h) else vertex_of g h)"
  using assms by (rule finalize_vertex_of)

theorem finalize_exact_witness:
  "\<exists>r g'. finalize_reachable_from_tips good_disk [addr 2] sample_dag = (Inr r, g') \<and>
    vertex_of g' (addr 3) = Some (sample_vertex 3 [] 0)"
proof -
  have "\<exists>r g'. finalize_reachable_from_tips good_disk [addr 2] sample_dag = (Inr r, g')"
    by (simp add: finalize_reachable_from_tips_def finalize_loop.simps dag_limits get_vertex_def
        storage_get_vertex_def put_vertex_def dag_samples Let_def)
  then obtain r g' where run: "finalize_reachable_from_tips good_disk [addr 2] sample_dag = (Inr r, g')"
    by blast
  have edges: "parent_rel sample_dag = {(addr 2, addr 1)}"
    by (auto simp: parent_rel_def vertex_of_def dag_samples split: if_splits)
  have "addr 3 \<notin> (parent_rel sample_dag)\<^sup>* `` set [addr 2]"
    unfolding edges by (auto elim: rtranclE)
  with finalize_exact [OF sample_dag_inv run, of "addr 3"] run show ?thesis
    by (simp add: vertex_of_def dag_samples)
qed

end
