(* ===== verification/DAG_Search.thy ===== *)
theory DAG_Search
  imports DAG
begin

text \<open>
  What the traversals of \<open>dag/graph.rs\<close> compute and which shape the graph keeps: a bounded
  breadth-first search returns exactly the vertices within its depth, and insertion under new hashes
  keeps the parent relation acyclic.
\<close>

section \<open>Lemmas on traversals\<close>

text \<open>Invariant of the breadth-first loop, for the relation \<open>N\<close> of the neighbours: \<open>dep\<close> gives the
  distance at which a vertex was reached.\<close>

definition expanded ::
  "(hash \<times> hash) set \<Rightarrow> nat \<Rightarrow> (hash \<Rightarrow> nat) \<Rightarrow> hash set \<Rightarrow> hash \<Rightarrow> bool" where
  "expanded N depth dep V x \<longleftrightarrow>
    (dep x < depth \<longrightarrow> (\<forall>p. (x, p) \<in> N \<longrightarrow> p \<in> V \<and> dep p \<le> dep x + 1))"

definition bfs_inv ::
  "(hash \<times> hash) set \<Rightarrow> hash \<Rightarrow> nat \<Rightarrow> (hash \<Rightarrow> nat) \<Rightarrow> (hash \<times> nat) list \<Rightarrow> hash list \<Rightarrow> hash list \<Rightarrow> bool" where
  "bfs_inv N root depth dep queue visited out \<longleftrightarrow>
    visited = root # out \<and> distinct visited \<and> dep root = 0 \<and>
    (\<forall>q \<in> set queue. fst q \<in> set visited \<and> snd q = dep (fst q)) \<and> sorted (map snd queue) \<and>
    (\<forall>x \<in> set visited. (root, x) \<in> N ^^ dep x \<and> dep x \<le> depth) \<and>
    (\<forall>q \<in> set queue. \<forall>y \<in> set visited. dep y \<le> snd q + 1) \<and>
    (\<forall>x \<in> set visited. x \<notin> fst ` set queue \<longrightarrow> expanded N depth dep (set visited) x)"

lemma bfs_invD:
  assumes "bfs_inv N root depth dep queue visited out"
  shows "visited = root # out" "distinct visited" "dep root = 0"
    "q \<in> set queue \<Longrightarrow> fst q \<in> set visited" "q \<in> set queue \<Longrightarrow> snd q = dep (fst q)"
    "sorted (map snd queue)"
    "x \<in> set visited \<Longrightarrow> (root, x) \<in> N ^^ dep x" "x \<in> set visited \<Longrightarrow> dep x \<le> depth"
    "q \<in> set queue \<Longrightarrow> x \<in> set visited \<Longrightarrow> dep x \<le> snd q + 1"
    "x \<in> set visited \<Longrightarrow> x \<notin> fst ` set queue \<Longrightarrow> expanded N depth dep (set visited) x"
  using assms unfolding bfs_inv_def by blast+

lemma bfs_inv_pop:
  assumes inv: "bfs_inv N root depth dep ((x, n) # queue) visited out" and "depth \<le> n"
  shows "bfs_inv N root depth dep queue visited out"
proof -
  have "n = dep x" using bfs_invD(5) [OF inv, of "(x, n)"] by simp
  then have "expanded N depth dep (set visited) x" using \<open>depth \<le> n\<close> by (simp add: expanded_def)
  then have "\<forall>y \<in> set visited. y \<notin> fst ` set queue \<longrightarrow> expanded N depth dep (set visited) y"
    using bfs_invD(10) [OF inv] by force
  then show ?thesis
    using bfs_invD [OF inv] unfolding bfs_inv_def by simp
qed

lemma sorted_const: "sorted (map (\<lambda>_. c :: nat) xs)"
  by (induction xs) auto

lemma bfs_inv_push:
  assumes inv: "bfs_inv N root depth dep ((x, n) # queue) visited out" and n: "n < depth"
    and new: "set new = N `` {x} - set visited" "distinct new"
  defines "dep' \<equiv> \<lambda>y. if y \<in> set new then n + 1 else dep y"
  shows "bfs_inv N root depth dep' (queue @ map (\<lambda>p. (p, n + 1)) new) (visited @ new) (out @ new)"
proof -
  note D = bfs_invD [OF inv]
  have x: "x \<in> set visited" "dep x = n" using D(4,5) [of "(x, n)"] by simp_all
  have le: "dep y \<le> n + 1" if "y \<in> set visited" for y using D(9) [of "(x, n)" y] that by simp
  have old: "dep' y = dep y" if "y \<in> set visited" for y using that new(1) by (simp add: dep'_def)
  have nw: "dep' y = n + 1" "(x, y) \<in> N" "y \<notin> set visited" if "y \<in> set new" for y
    using that new(1) by (auto simp: dep'_def)
  have ge: "n \<le> snd q" if "q \<in> set queue" for q using D(6) that by auto
  have q: "fst q \<in> set visited" "snd q = dep (fst q)" if "q \<in> set queue" for q
    using D(4,5) [of q] that by simp_all
  have le': "dep' y \<le> n + 1" if "y \<in> set (visited @ new)" for y
    using that le old nw by auto
  have "(root, y) \<in> N ^^ dep' y \<and> dep' y \<le> depth" if "y \<in> set (visited @ new)" for y
  proof (cases "y \<in> set new")
    case True
    have "(root, x) \<in> N ^^ n" using D(7) x by fastforce
    with nw [OF True] n show ?thesis by auto
  next
    case False
    with that have "y \<in> set visited" by simp
    with D(7,8) old show ?thesis by simp
  qed
  moreover have "expanded N depth dep' (set (visited @ new)) y"
    if y: "y \<in> set (visited @ new)" "y \<notin> fst ` set (queue @ map (\<lambda>p. (p, n + 1)) new)" for y
  proof -
    have y': "y \<in> set visited" "y \<notin> fst ` set queue" using y by (auto simp: image_Un image_image)
    show ?thesis
    proof (cases "y = x")
      case True
      then show ?thesis using x le' new(1) old by (auto simp: expanded_def)
    next
      case False
      then have "expanded N depth dep (set visited) y" using D(10) [of y] y' by simp
      then show ?thesis using y' old by (auto simp: expanded_def)
    qed
  qed
  moreover have "sorted (map snd (queue @ map (\<lambda>p. (p, n + 1)) new))"
    using D(6) q le by (auto simp: sorted_append comp_def sorted_const)
  moreover have "fst r \<in> set (visited @ new) \<and> snd r = dep' (fst r)"
    if "r \<in> set (queue @ map (\<lambda>p. (p, n + 1)) new)" for r
    using that q [of r] old [of "fst r"] nw by auto
  moreover have "dep' y \<le> snd r + 1"
    if "r \<in> set (queue @ map (\<lambda>p. (p, n + 1)) new)" "y \<in> set (visited @ new)" for r y
  proof -
    have "n \<le> snd r" using that(1) ge [of r] by auto
    with le' [OF that(2)] show ?thesis by simp
  qed
  moreover have "visited @ new = root # out @ new" "distinct (visited @ new)" "dep' root = 0"
    using D(1,2,3) new(2) nw(3) old by auto
  ultimately show ?thesis unfolding bfs_inv_def by blast
qed

lemma bfs_inv_done:
  assumes inv: "bfs_inv N root depth dep [] visited out"
  shows "distinct out \<and> set out = {a. a \<noteq> root \<and> (\<exists>n \<le> depth. (root, a) \<in> N ^^ n)}"
proof -
  have "a \<in> set visited \<and> dep a \<le> n" if "(root, a) \<in> N ^^ n" "n \<le> depth" for a n
    using that
  proof (induction n arbitrary: a)
    case 0
    with inv show ?case by (auto simp: bfs_inv_def)
  next
    case (Suc n)
    then obtain b where b: "(root, b) \<in> N ^^ n" "(b, a) \<in> N" by auto
    with Suc have "b \<in> set visited" "dep b \<le> n" by auto
    moreover from this have "expanded N depth dep (set visited) b" using bfs_invD(10) [OF inv] by simp
    ultimately show ?case using b(2) Suc.prems(2) unfolding expanded_def by fastforce
  qed
  moreover note bfs_invD(1,2,7,8) [OF inv]
  ultimately show ?thesis by fastforce
qed

lemma traverse_exact:
  assumes nbrs: "\<And>x ps. nbrs x = Inr ps \<Longrightarrow> set ps = N `` {x}"
    and "bfs_inv N root depth dep queue visited out" "traverse nbrs depth queue visited out = Inr res"
  shows "distinct res \<and> set res = {a. a \<noteq> root \<and> (\<exists>n \<le> depth. (root, a) \<in> N ^^ n)}"
  using assms(2,3)
proof (induction queue visited arbitrary: out dep rule: traversal_induct)
  case (step queue visited)
  show ?case
  proof (cases queue)
    case Nil
    with step.prems bfs_inv_done show ?thesis by auto
  next
    case (Cons xn q)
    then obtain x n where q: "queue = (x, n) # q" by (cases xn) auto
    note IH = step.IH [unfolded q] and inv = step.prems(1) [unfolded q] and res = step.prems(2) [unfolded q]
    have lim: "length visited < MAX_TRAVERSAL_VERTICES" using res by (auto split: if_splits)
    show ?thesis
    proof (cases "depth \<le> n")
      case True
      with res lim have "traverse nbrs depth q visited out = Inr res" by simp
      with IH [OF closer_pop bfs_inv_pop [OF inv True]] show ?thesis by simp
    next
      case False
      with res lim obtain ps where ps: "nbrs x = Inr ps" by (auto split: sum.splits)
      from visit_shape [of "n + 1" ps visited out q] obtain new where
        v: "visit (n + 1) ps (visited, out, q) = (visited @ new, out @ new, q @ map (\<lambda>p. (p, n + 1)) new)"
        and new: "set new = set ps - set visited" "distinct new" by blast
      from res lim False ps v have
        "traverse nbrs depth (q @ map (\<lambda>p. (p, n + 1)) new) (visited @ new) (out @ new) = Inr res" by simp
      moreover have "set new = N `` {x} - set visited" using nbrs [OF ps] new by simp
      ultimately show ?thesis
        using IH [OF closer_push_map [OF lim] bfs_inv_push [OF inv _ _ new(2)]] False by simp
    qed
  qed
qed

section \<open>Lemmas on acyclicity and memory\<close>

definition stored_parents :: "dag \<Rightarrow> hash \<Rightarrow> hash list option" where
  "stored_parents g h = map_option vx_parents (dg_stored g h)"

lemma parent_rel_stored:
  assumes "dag_inv g"
  shows "parent_rel g = {(h, p). \<exists>ps. stored_parents g h = Some ps \<and> p \<in> set ps}"
proof -
  have same: "stored_parents g h = map_option vx_parents (vertex_of g h)" for h
  proof (cases "vertex_of g h")
    case None
    then show ?thesis by (simp add: vertex_of_def stored_parents_def split: option.splits)
  next
    case (Some v)
    obtain w where "dg_stored g h = Some w" "vx_parents v = vx_parents w"
      using vertex_of_stored [OF assms Some] .
    then show ?thesis using Some by (simp add: stored_parents_def)
  qed
  show ?thesis unfolding parent_rel_def same by auto
qed

lemma stored_parents_put_status:
  assumes "dag_inv g" "vertex_of g h = Some v"
  shows "stored_parents (snd (put_vertex d (v\<lparr>vx_status := st\<rparr>) g)) = stored_parents g"
proof -
  obtain w where "dg_stored g h = Some w" "vx_parents v = vx_parents w" "vx_hash v = h"
    using vertex_of_stored [OF assms] .
  then show ?thesis
    by (cases rule: put_vertex_cases [of d "v\<lparr>vx_status := st\<rparr>" g])
      (auto simp: stored_parents_def fun_eq_iff)
qed

lemma stored_parents_finalized_at:
  assumes "dag_inv g" "vertex_of g h = Some v"
  shows "stored_parents (finalized_at v g) = stored_parents g"
proof -
  obtain w where "dg_stored g h = Some w" "vx_parents v = vx_parents w" "vx_hash v = h"
    using vertex_of_stored [OF assms] .
  then show ?thesis by (simp add: finalized_at_def stored_parents_def fun_eq_iff)
qed

lemma finalize_loop_parents:
  "dag_inv g \<Longrightarrow> stored_parents (snd (finalize_loop d queue visited nv nt g)) = stored_parents g"
proof (induction queue visited arbitrary: nv nt g rule: traversal_induct)
  case (step queue visited)
  show ?case
  proof (cases queue)
    case (Cons h q)
    note IH = step.IH [unfolded Cons]
    from step.prems show ?thesis
    proof (cases rule: finalize_loop_step [of g d h q visited nv nt])
      case skip
      then show ?thesis using IH [OF closer_pop step.prems] Cons by simp
    next
      case (old v new)
      then show ?thesis using IH [OF closer_push step.prems] Cons by simp
    next
      case (fresh v new)
      then show ?thesis
        using IH [OF closer_push finalized_at_inv [OF step.prems fresh(1)]] Cons
          stored_parents_finalized_at [OF step.prems fresh(1)] by simp
    qed (use Cons in simp)
  qed simp
qed

lemma status_ops_parents:
  assumes inv: "dag_inv g" and op: "\<And>d iter v. x \<noteq> AddVertex d iter v"
  shows "stored_parents (dag_exec x g) = stored_parents g"
proof -
  have mem: "stored_parents (snd (put_vertex d (v\<lparr>vx_status := st\<rparr>)
      (g\<lparr>dg_vertices := (dg_vertices g)(h \<mapsto> v\<lparr>vx_status := st\<rparr>)\<rparr>))) = stored_parents g"
    if "dg_vertices g h = Some v" for d h v st
  proof -
    let ?g = "g\<lparr>dg_vertices := (dg_vertices g)(h \<mapsto> v\<lparr>vx_status := st\<rparr>)\<rparr>"
    have "stored_parents (snd (put_vertex d ((v\<lparr>vx_status := st\<rparr>)\<lparr>vx_status := st\<rparr>) ?g)) = stored_parents ?g"
      using dag_inv_memory_status [OF inv that]
      by (intro stored_parents_put_status [of _ h]) (simp_all add: vertex_of_def)
    then show ?thesis by (simp add: stored_parents_def fun_eq_iff)
  qed
  have dsk: "stored_parents (snd (put_vertex d (v\<lparr>vx_status := st\<rparr>) g)) = stored_parents g"
    if "dg_vertices g h = None" "dg_stored g h = Some v" for d h v st
    using that inv by (intro stored_parents_put_status [of _ h]) (simp_all add: vertex_of_def)
  show ?thesis
  proof (cases x)
    case (UpdateStatus d caller h st)
    then show ?thesis by (auto simp: update_vertex_status_def Let_def mem split: option.split)
  next
    case (UpdateStatusInternal d h st)
    then show ?thesis
      by (auto simp: update_vertex_status_internal_def storage_get_vertex_def Let_def mem dsk
          split: option.split)
  next
    case (FinalizeReachable d tips)
    then show ?thesis
      using inv by (auto simp: finalize_reachable_from_tips_def finalize_loop_parents split: prod.splits)
  qed (use op in \<open>auto simp: creator_op_defs stored_parents_def fun_eq_iff\<close>)
qed

lemma evict_keeps [simp]:
  "dg_stored (evict_old_vertices iter g) = dg_stored g"
  "dg_max_parents (evict_old_vertices iter g) = dg_max_parents g"
  by (simp_all add: evict_old_vertices_def Let_def)

lemma link_vertex_parents:
  assumes "dag_inv g"
  shows "stored_parents (snd (link_vertex d v g)) = stored_parents g \<or>
    stored_parents (snd (link_vertex d v g)) = (stored_parents g)(vx_hash v \<mapsto> vx_parents v) \<and>
    set (vx_parents v) \<subseteq> dom (dg_stored g)"
proof (cases rule: link_vertex_cases [of d v g])
  case children
  obtain cs where "snd (push_children (vx_hash v) (vx_parents v) g) = g\<lparr>dg_children := cs\<rparr>"
    using push_children_only_children by blast
  with children show ?thesis by (simp add: stored_parents_def fun_eq_iff)
next
  case added
  have "set (vx_parents v) \<subseteq> dom (dg_stored g)"
    using assms added(1) check_parents_stored by (simp add: dag_inv_def)
  then show ?thesis using added(4) by (auto simp: stored_parents_def fun_eq_iff)
qed (simp_all add: stored_parents_def fun_eq_iff)

lemma add_vertex_parents:
  assumes "dag_inv g"
  shows "stored_parents (snd (add_vertex d iter v g)) = stored_parents g \<or>
    stored_parents (snd (add_vertex d iter v g)) = (stored_parents g)(vx_hash v \<mapsto> vx_parents v) \<and>
    set (vx_parents v) \<subseteq> dom (dg_stored g)"
proof -
  have "stored_parents (evict_old_vertices iter g) = stored_parents g" by (simp add: stored_parents_def fun_eq_iff)
  then show ?thesis
    using link_vertex_parents [OF assms, of d v] link_vertex_parents [OF evict_inv [OF assms, of iter], of d v]
    by (auto simp: add_vertex_def Let_def)
qed

lemma acyclic_add_sink:
  assumes "acyclic R" "h \<notin> Range R" "h \<notin> P"
  shows "acyclic (R \<union> {h} \<times> P)"
proof -
  have "(a, b) \<in> R\<^sup>+" if "(a, b) \<in> (R \<union> {h} \<times> P)\<^sup>+" "a \<noteq> h" for a b
    using that
  proof (induction rule: converse_trancl_induct)
    case (step x y)
    then have "(x, y) \<in> R" by auto
    moreover from this have "y \<noteq> h" using assms(2) by auto
    ultimately show ?case using step.IH by (meson trancl_into_trancl2)
  qed auto
  moreover have "h \<notin> Range ((R \<union> {h} \<times> P)\<^sup>+)" using assms(2,3) by (auto simp: trancl_range)
  ultimately show ?thesis using assms(1) unfolding acyclic_def by blast
qed

text \<open>Runs in which no vertex is inserted under a hash that is already stored.\<close>

inductive dag_steps :: "dag \<Rightarrow> dag \<Rightarrow> bool" where
  refl: "dag_steps g g"
| add: "dag_steps g g' \<Longrightarrow> dg_stored g' (vx_hash v) = None \<Longrightarrow>
    dag_steps g (snd (add_vertex d iter v g'))"
| other: "dag_steps g g' \<Longrightarrow> (\<And>d iter v. x \<noteq> AddVertex d iter v) \<Longrightarrow> dag_steps g (dag_exec x g')"

lemma dag_steps_acyclic:
  assumes "dag_steps g g'" "dag_inv g" "acyclic (parent_rel g)"
  shows "dag_inv g' \<and> acyclic (parent_rel g')"
  using assms
proof (induction rule: dag_steps.induct)
  case (add g g' v d iter)
  then have inv: "dag_inv g'" and ac: "acyclic (parent_rel g')" by simp_all
  let ?g = "snd (add_vertex d iter v g')"
  have inv': "dag_inv ?g" using inv by (rule add_vertex_inv)
  consider "stored_parents ?g = stored_parents g'"
    | "stored_parents ?g = (stored_parents g')(vx_hash v \<mapsto> vx_parents v)"
      "set (vx_parents v) \<subseteq> dom (dg_stored g')"
    using add_vertex_parents [OF inv] by blast
  then show ?case
  proof cases
    case 1
    then show ?thesis using inv' ac inv by (simp add: parent_rel_stored)
  next
    case 2
    have "parent_rel ?g = parent_rel g' \<union> {vx_hash v} \<times> set (vx_parents v)"
      using 2(1) add.hyps(2)
      by (auto simp: parent_rel_stored [OF inv'] parent_rel_stored [OF inv] stored_parents_def split: if_splits)
    moreover have "p \<in> dom (dg_stored g')" if "(h, p) \<in> parent_rel g'" for h p
      using that inv by (auto simp: parent_rel_stored [OF inv] stored_parents_def dag_inv_def stored_wf_def)
    then have "vx_hash v \<notin> Range (parent_rel g')" using add.hyps(2) by auto
    moreover have "vx_hash v \<notin> set (vx_parents v)" using 2(2) add.hyps(2) by auto
    ultimately show ?thesis using acyclic_add_sink [OF ac] inv' by simp
  qed
next
  case (other g g' x)
  then have "dag_inv g'" "acyclic (parent_rel g')" by simp_all
  moreover from this have "stored_parents (dag_exec x g') = stored_parents g'"
    using other.hyps(2) by (intro status_ops_parents) auto
  ultimately show ?case
    using parent_rel_stored [of g'] parent_rel_stored [of "dag_exec x g'"] dag_exec_inv [of g' x] by simp
qed simp

text \<open>The counter bounds the vertices in memory as long as nothing is finalized.\<close>

definition mem_ok :: "dag \<Rightarrow> bool" where
  "mem_ok g \<longleftrightarrow> finite (dom (dg_vertices g)) \<and> card (dom (dg_vertices g)) \<le> dg_vertex_count g \<and>
    dg_vertex_count g \<le> MAX_VERTICES_IN_MEMORY"

fun counting_op :: "dag_op \<Rightarrow> bool" where
  "counting_op (AddVertex d iter v) \<longleftrightarrow> hash_iter iter"
| "counting_op (FinalizeReachable d tips) \<longleftrightarrow> False"
| "counting_op _ \<longleftrightarrow> True"

lemma evict_mem_ok:
  assumes "mem_ok g" "hash_iter iter"
  shows "mem_ok (evict_old_vertices iter g)"
proof -
  let ?V = "dom (dg_vertices g)"
  define ev where "ev = take (MAX_VERTICES_IN_MEMORY div 10) (filter
    (\<lambda>h. case dg_vertices g h of Some v \<Rightarrow> vx_status v = VConfirmed | None \<Rightarrow> False) (iter ?V))"
  have evict: "evict_old_vertices iter g = g\<lparr>dg_vertices := dg_vertices g |` (- set ev),
      dg_vertex_count := dg_vertex_count g - length ev\<rparr>"
    by (simp add: evict_old_vertices_def ev_def Let_def)
  have fin: "finite ?V" using assms(1) by (simp add: mem_ok_def)
  then have it: "set (iter ?V) = ?V" "distinct (iter ?V)" using assms(2) by (simp_all add: hash_iter_def)
  have sub: "set ev \<subseteq> ?V" unfolding ev_def by (rule subset_trans [OF set_take_subset]) (auto simp: it)
  have len: "card (set ev) = length ev" using it(2) by (simp add: ev_def distinct_card)
  have "card (?V \<inter> - set ev) = card ?V - length ev"
    using sub fin len by (metis Diff_eq card_Diff_subset finite_subset)
  then show ?thesis
    using assms(1) by (auto simp: mem_ok_def evict)
qed

lemma link_vertex_mem_ok:
  assumes "mem_ok g" "dg_vertex_count g < MAX_VERTICES_IN_MEMORY"
  shows "mem_ok (snd (link_vertex d v g))"
proof (cases rule: link_vertex_cases [of d v g])
  case children
  obtain cs where "snd (push_children (vx_hash v) (vx_parents v) g) = g\<lparr>dg_children := cs\<rparr>"
    using push_children_only_children by blast
  with children assms show ?thesis by (simp add: mem_ok_def)
next
  case added
  have "card (insert (vx_hash v) (dom (dg_vertices g))) \<le> Suc (dg_vertex_count g)"
    using assms(1) by (simp add: mem_ok_def card_insert_if)
  with added assms show ?thesis by (simp add: mem_ok_def)
qed (use assms in \<open>simp_all add: mem_ok_def\<close>)

lemma status_mem_ok:
  assumes "mem_ok g" "dg_vertices g h = Some v"
  shows "mem_ok (snd (put_vertex d w (g\<lparr>dg_vertices := (dg_vertices g)(h \<mapsto> u)\<rparr>)))"
  using assms
  by (cases rule: put_vertex_cases [of d w "g\<lparr>dg_vertices := (dg_vertices g)(h \<mapsto> u)\<rparr>"])
    (auto simp: mem_ok_def insert_absorb domI)

lemma put_vertex_mem_ok: "mem_ok g \<Longrightarrow> mem_ok (snd (put_vertex d w g))"
  by (cases rule: put_vertex_cases [of d w g]) (auto simp: mem_ok_def)

lemma counting_exec:
  assumes "mem_ok g" "counting_op x"
  shows "mem_ok (dag_exec x g)"
proof (cases x)
  case (AddVertex d iter v)
  then show ?thesis
    using assms evict_mem_ok [of g iter] link_vertex_mem_ok
    by (auto simp: add_vertex_def Let_def not_le)
next
  case (UpdateStatus d caller h st)
  then show ?thesis
    using assms by (auto simp: update_vertex_status_def Let_def status_mem_ok split: option.split)
next
  case (UpdateStatusInternal d h st)
  then show ?thesis
    using assms by (auto simp: update_vertex_status_internal_def storage_get_vertex_def Let_def status_mem_ok
        put_vertex_mem_ok split: option.split)
qed (use assms in \<open>auto simp: creator_op_defs mem_ok_def\<close>)

interpretation dm: op_system dag_exec counting_op mem_ok
  by unfold_locales (rule counting_exec)

lemma hash_iter_exists: "\<exists>iter :: 'a set \<Rightarrow> 'a list. hash_iter iter"
proof -
  have "\<forall>S :: 'a set. \<exists>xs. finite S \<longrightarrow> set xs = S \<and> distinct xs" using finite_distinct_list by blast
  then show ?thesis unfolding hash_iter_def by (rule choice)
qed

section \<open>Properties\<close>

text \<open>C32: When \<open>get_ancestors\<close> returns, it returns without repetition exactly the vertices other than
  the start that at most \<open>depth\<close> parent links lead to.\<close>

theorem get_ancestors_exact:
  assumes "get_ancestors d h depth g = Inr out"
  shows "distinct out \<and> set out = {a. a \<noteq> h \<and> (\<exists>n \<le> depth. (h, a) \<in> parent_rel g ^^ n)}"
proof (rule traverse_exact)
  show "set ps = parent_rel g `` {x}" if "ancestor_parents d g x = Inr ps" for x ps
    using that get_vertex_vertex_of [of d x g]
    by (auto simp: ancestor_parents_def parent_rel_def split: sum.splits option.splits)
  show "bfs_inv (parent_rel g) h depth (\<lambda>_. 0) [(h, 0)] [h] []" by (simp add: bfs_inv_def)
  show "traverse (ancestor_parents d g) depth [(h, 0)] [h] [] = Inr out"
    using assms by (simp add: get_ancestors_def)
qed

theorem get_ancestors_exact_witness:
  "get_ancestors good_disk (addr 2) 1 sample_dag = Inr [addr 1] \<and>
   set [addr 1] = {a. a \<noteq> addr 2 \<and> (\<exists>n \<le> 1. (addr 2, a) \<in> parent_rel sample_dag ^^ n)}"
proof -
  have "get_ancestors good_disk (addr 2) 1 sample_dag = Inr [addr 1]"
    by (simp add: get_ancestors_def ancestor_parents_def get_vertex_def storage_get_vertex_def dag_limits dag_samples)
  from this get_ancestors_exact [OF this] show ?thesis by simp
qed

text \<open>C31: As long as no vertex is inserted under a hash that is already stored, whatever else happens
  in between, no vertex is its own ancestor.\<close>

theorem dag_acyclic:
  assumes "stored_wf max_parents st" "acyclic (parent_rel (dag_new st heights min_parents max_parents))"
    and "dag_steps (dag_new st heights min_parents max_parents) g"
  shows "(h, h) \<notin> (parent_rel g)\<^sup>+"
  using dag_steps_acyclic [OF assms(3) dag_inv_new [OF assms(1)] assms(2)] by (simp add: acyclic_def)

theorem dag_acyclic_witness:
  "(addr 1, addr 1) \<notin> (parent_rel (snd (add_vertex good_disk (\<lambda>_. []) (sample_vertex 1 [] 0)
     (dag_new Map.empty Map.empty 0 8))))\<^sup>+"
proof (rule dag_acyclic)
  show "stored_wf 8 Map.empty" by (simp add: stored_wf_def)
  show "acyclic (parent_rel (dag_new Map.empty Map.empty 0 8))"
    by (simp add: parent_rel_def vertex_of_def dag_new_def acyclic_def)
  show "dag_steps (dag_new Map.empty Map.empty 0 8) (snd (add_vertex good_disk (\<lambda>_. [])
      (sample_vertex 1 [] 0) (dag_new Map.empty Map.empty 0 8)))"
    by (rule dag_steps.add [OF dag_steps.refl]) (simp add: dag_new_def)
qed

text \<open>C33: Insertion does not look whether the hash is taken: an authorized creator can replace a
  stored vertex by one that names itself as its parent, and the vertex is then its own ancestor.\<close>

theorem dag_reinsertion_cycle:
  assumes "is_authorized_creator (vx_creator v) g" "dg_vertex_count g < MAX_VERTICES_IN_MEMORY"
    and "dg_vertices g (vx_hash v) \<noteq> None" "vx_parents v = [vx_hash v]"
    and "dg_min_parents g \<le> 1" "1 \<le> dg_max_parents g" "dg_tips g (vx_shard_id v) \<noteq> None"
    and "length (get_children (vx_hash v) g) < MAX_CHILDREN_PER_VERTEX" "write_error d (vx_hash v) = None"
  shows "\<exists>g'. add_vertex d iter v g = (Inr (), g') \<and> (vx_hash v, vx_hash v) \<in> parent_rel g'"
proof -
  have "check_parents d g (vx_parents v) = Inr ()" using assms(3,4) by simp
  moreover have "length (unwrap_or (dg_children g (vx_hash v)) []) < MAX_CHILDREN_PER_VERTEX"
    using assms(8) by (simp add: get_children_def)
  ultimately have "\<exists>g'. add_vertex d iter v g = (Inr (), g') \<and> dg_vertices g' (vx_hash v) = Some v"
    using assms by (auto simp: add_vertex_def link_vertex_def put_vertex_def Let_def not_le split: prod.split)
  then show ?thesis using assms(4) by (auto simp: parent_rel_def vertex_of_def)
qed

theorem dag_reinsertion_cycle_witness:
  "\<exists>g'. add_vertex good_disk (\<lambda>_. []) (sample_vertex 2 [addr 2] 1) (sample_dag\<lparr>dg_tips := [0 \<mapsto> [addr 2]]\<rparr>) =
     (Inr (), g') \<and> (addr 2, addr 2) \<in> parent_rel g'"
  using dag_reinsertion_cycle [of "sample_vertex 2 [addr 2] 1" "sample_dag\<lparr>dg_tips := [0 \<mapsto> [addr 2]]\<rparr>"
      good_disk "\<lambda>_. []"]
  by (simp add: dag_samples dag_limits is_authorized_creator_def get_children_def)

text \<open>Insertions, evictions and status changes never leave more than a million vertices in
  memory, for every order in which the table is iterated.\<close>

theorem dag_memory_bounded:
  assumes "list_all counting_op ops"
  shows "card (dom (dg_vertices (fold dag_exec ops (dag_new st heights min_parents max_parents))))
    \<le> MAX_VERTICES_IN_MEMORY"
proof -
  have "mem_ok (dag_new st heights min_parents max_parents)" by (simp add: mem_ok_def dag_new_def)
  from dm.run_invar [OF this assms] show ?thesis by (simp add: mem_ok_def)
qed

theorem dag_memory_bounded_witness:
  "\<exists>iter. hash_iter iter \<and> card (dom (dg_vertices (fold dag_exec
     [AddVertex good_disk iter (sample_vertex 1 [] 0)] (dag_new Map.empty Map.empty 0 8)))) \<le> 1000000"
proof -
  obtain iter :: "hash set \<Rightarrow> hash list" where it: "hash_iter iter" using hash_iter_exists by blast
  with dag_memory_bounded [of "[AddVertex good_disk iter (sample_vertex 1 [] 0)]" Map.empty Map.empty 0 8]
  show ?thesis by (auto simp: MAX_VERTICES_IN_MEMORY_def simp del: fold_simps)
qed

text \<open>Finalization reloads evicted vertices into memory without counting them: after one call the
  counter no longer bounds the vertices in memory.\<close>

theorem finalize_uncounted:
  "\<exists>r g'. finalize_reachable_from_tips good_disk [addr 1, addr 2, addr 3] sample_dag = (Inr r, g') \<and>
    dg_vertex_count g' = 1 \<and> card (dom (dg_vertices g')) = 3"
  by (simp add: finalize_reachable_from_tips_def finalize_loop.simps dag_limits get_vertex_def
      storage_get_vertex_def put_vertex_def dag_samples Let_def)

end
