(* ===== verification/Merkle.thy ===== *)
theory Merkle
  imports Prelude
begin

text \<open>
  Binary Merkle trees (\<open>crypto/hash.rs\<close>): root, levels, inclusion proofs and their verification.
  SHA3-256 is the parameter \<open>sha3\<close>.
\<close>

section \<open>Roots\<close>

text \<open>One level up: \<open>chunks(2)\<close>, an odd last node paired with itself.\<close>

fun pair_up :: "(bytes \<Rightarrow> hash) \<Rightarrow> hash list \<Rightarrow> hash list" where
  "pair_up sha3 [] = []"
| "pair_up sha3 [a] = [sha3 (a @ a)]"
| "pair_up sha3 (a # b # rest) = sha3 (a @ b) # pair_up sha3 rest"

lemma length_pair_up [simp]: "length (pair_up sha3 level) = (length level + 1) div 2"
  by (induction sha3 level rule: pair_up.induct) auto

function merkle_loop :: "(bytes \<Rightarrow> hash) \<Rightarrow> hash list \<Rightarrow> hash" where
  "merkle_loop sha3 level =
    (if length level > 1 then merkle_loop sha3 (pair_up sha3 level) else hd level)"
  by pat_completeness auto
termination
  by (relation "measure (\<lambda>(sha3, level). length level)") auto

definition merkle_root :: "(bytes \<Rightarrow> hash) \<Rightarrow> hash list \<Rightarrow> hash" where
  "merkle_root sha3 hashes =
    (if hashes = [] then replicate 32 0 else
     if length hashes = 1 then hashes ! 0 else
     merkle_loop sha3 hashes)"

definition compute_state_root :: "(bytes \<Rightarrow> hash) \<Rightarrow> hash list \<Rightarrow> hash" where
  "compute_state_root sha3 account_hashes = merkle_root sha3 account_hashes"

section \<open>Proofs\<close>

fun merkle_climb :: "(bytes \<Rightarrow> hash) \<Rightarrow> hash \<Rightarrow> hash list \<Rightarrow> nat \<Rightarrow> hash" where
  "merkle_climb sha3 current [] idx = current"
| "merkle_climb sha3 current (sibling # proof) idx =
    (let combined = (if idx mod 2 = 0 then current @ sibling else sibling @ current)
     in merkle_climb sha3 (sha3 combined) proof (idx div 2))"

definition verify_merkle_proof :: "(bytes \<Rightarrow> hash) \<Rightarrow> hash \<Rightarrow> hash list \<Rightarrow> nat \<Rightarrow> hash \<Rightarrow> bool" where
  "verify_merkle_proof sha3 leaf proof index root \<longleftrightarrow> merkle_climb sha3 leaf proof index = root"

record merkle_proof =
  mp_leaf :: hash
  mp_siblings :: "hash list"
  mp_index :: nat

definition merkle_proof_verify :: "(bytes \<Rightarrow> hash) \<Rightarrow> hash \<Rightarrow> merkle_proof \<Rightarrow> bool" where
  "merkle_proof_verify sha3 root p = verify_merkle_proof sha3 (mp_leaf p) (mp_siblings p) (mp_index p) root"

function tree_levels :: "(bytes \<Rightarrow> hash) \<Rightarrow> hash list \<Rightarrow> hash list list" where
  "tree_levels sha3 level =
    (if length level \<le> 1 then [level] else level # tree_levels sha3 (pair_up sha3 level))"
  by pat_completeness auto
termination
  by (relation "measure (\<lambda>(sha3, level). length level)") auto

definition build_merkle_tree :: "(bytes \<Rightarrow> hash) \<Rightarrow> hash list \<Rightarrow> hash \<times> hash list list" where
  "build_merkle_tree sha3 leaves =
    (if leaves = [] then (replicate 32 0, []) else
     let levels = tree_levels sha3 leaves;
         root = (case last levels of [] \<Rightarrow> replicate 32 0 | x # _ \<Rightarrow> x)
     in (root, levels))"

fun proof_path :: "hash list list \<Rightarrow> nat \<Rightarrow> hash list" where
  "proof_path [] idx = []"
| "proof_path (level # levels) idx =
    (let sibling_idx = (if idx mod 2 = 0 then idx + 1 else idx - 1);
         sibling = (if sibling_idx < length level then level ! sibling_idx else level ! idx)
     in sibling # proof_path levels (idx div 2))"

definition generate_merkle_proof :: "(bytes \<Rightarrow> hash) \<Rightarrow> hash list \<Rightarrow> nat \<Rightarrow> merkle_proof option" where
  "generate_merkle_proof sha3 leaves index =
    (if index \<ge> length leaves then None else
     let levels = snd (build_merkle_tree sha3 leaves)
     in Some \<lparr> mp_leaf = leaves ! index, mp_siblings = proof_path (butlast levels) index, mp_index = index \<rparr>)"

declare merkle_loop.simps [simp del] tree_levels.simps [simp del]

text \<open>The strings hashed to build a tree, and those hashed along a proof.\<close>

fun level_inputs :: "hash list \<Rightarrow> bytes set" where
  "level_inputs [] = {}"
| "level_inputs [a] = {a @ a}"
| "level_inputs (a # b # rest) = insert (a @ b) (level_inputs rest)"

definition tree_inputs :: "(bytes \<Rightarrow> hash) \<Rightarrow> hash list \<Rightarrow> bytes set" where
  "tree_inputs sha3 leaves = \<Union> (level_inputs ` set (butlast (tree_levels sha3 leaves)))"

fun climb_inputs :: "(bytes \<Rightarrow> hash) \<Rightarrow> hash \<Rightarrow> hash list \<Rightarrow> nat \<Rightarrow> bytes set" where
  "climb_inputs sha3 current [] idx = {}"
| "climb_inputs sha3 current (sibling # proof) idx =
    (let combined = (if idx mod 2 = 0 then current @ sibling else sibling @ current)
     in insert combined (climb_inputs sha3 (sha3 combined) proof (idx div 2)))"

section \<open>Lemmas\<close>

lemma tree_levels_not_Nil [simp]: "tree_levels sha3 level \<noteq> []"
  by (subst tree_levels.simps) simp

lemma single_level: "length level \<le> Suc 0 \<Longrightarrow> i < length level \<Longrightarrow> hd level = level ! i"
  by (cases level) auto

lemma tree_levels_last: "level \<noteq> [] \<Longrightarrow> last (tree_levels sha3 level) = [merkle_loop sha3 level]"
proof (induction sha3 level rule: tree_levels.induct)
  case (1 sha3 level)
  show ?case
  proof (cases "length level \<le> 1")
    case True
    then obtain a where "level = [a]" using "1.prems" by (cases level) auto
    then show ?thesis by (simp add: tree_levels.simps [of sha3 "[a]"] merkle_loop.simps [of sha3 "[a]"])
  next
    case False
    then have "pair_up sha3 level \<noteq> []" using length_pair_up [of sha3 level] by (auto simp del: length_pair_up)
    with False 1 show ?thesis
      by (simp add: tree_levels.simps [of sha3 level] merkle_loop.simps [of sha3 level])
  qed
qed

lemma build_root: "leaves \<noteq> [] \<Longrightarrow> fst (build_merkle_tree sha3 leaves) = merkle_root sha3 leaves"
  by (simp add: build_merkle_tree_def merkle_root_def tree_levels_last Let_def)
    (auto simp: merkle_loop.simps [of sha3 leaves] length_Suc_conv hd_conv_nth)

text \<open>The node above position \<open>i\<close> hashes the node at \<open>i\<close> with the sibling a proof records.\<close>

definition node_above :: "hash list \<Rightarrow> nat \<Rightarrow> bytes" where
  "node_above level i =
    (let j = (if i mod 2 = 0 then i + 1 else i - 1);
         sib = (if j < length level then level ! j else level ! i)
     in if i mod 2 = 0 then level ! i @ sib else sib @ level ! i)"

lemma pair_up_nth:
  "i < length level \<Longrightarrow> pair_up sha3 level ! (i div 2) = sha3 (node_above level i) \<and> node_above level i \<in> level_inputs level"
proof (induction sha3 level arbitrary: i rule: pair_up.induct)
  case (3 sha3 a b rest)
  consider "i = 0" | "i = 1" | j where "i = Suc (Suc j)" by (cases i; cases "i - 1") auto
  then show ?case
  proof cases
    case (3 j)
    then have "node_above (a # b # rest) i = node_above rest j" by (cases j) (auto simp: node_above_def Let_def)
    with 3 "3.IH" [of j] "3.prems" show ?thesis by simp
  qed (simp_all add: node_above_def Let_def)
qed (simp_all add: node_above_def)

lemma climb_proof_path:
  "i < length leaves \<Longrightarrow>
    merkle_climb sha3 (leaves ! i) (proof_path (butlast (tree_levels sha3 leaves)) i) i = merkle_loop sha3 leaves"
proof (induction sha3 leaves arbitrary: i rule: tree_levels.induct)
  case (1 sha3 level)
  show ?case
  proof (cases "length level \<le> 1")
    case True
    with "1.prems" show ?thesis
      by (simp add: tree_levels.simps [of sha3 level] merkle_loop.simps [of sha3 level] single_level)
  next
    case False
    let ?up = "pair_up sha3 level"
    have "i div 2 < length ?up" using "1.prems" by simp
    from "1.IH" [OF _ this] False have
      IH: "merkle_climb sha3 (sha3 (node_above level i)) (proof_path (butlast (tree_levels sha3 ?up)) (i div 2)) (i div 2)
        = merkle_loop sha3 ?up"
      using pair_up_nth [OF "1.prems", of sha3] by simp
    with False show ?thesis
      by (simp add: tree_levels.simps [of sha3 level] merkle_loop.simps [of sha3 level] node_above_def Let_def)
  qed
qed

lemma pair_up_lengths: "(\<And>x. length (sha3 x) = 32) \<Longrightarrow> x \<in> set (pair_up sha3 level) \<Longrightarrow> length x = 32"
  by (induction sha3 level rule: pair_up.induct) auto

lemma climb_sound:
  "\<forall>x. length (sha3 x) = 32 \<Longrightarrow> i < length leaves \<Longrightarrow> \<forall>x \<in> set leaves. length x = 32 \<Longrightarrow> length leaf = 32 \<Longrightarrow>
    length proof = length (tree_levels sha3 leaves) - 1 \<Longrightarrow>
    inj_on sha3 (tree_inputs sha3 leaves \<union> climb_inputs sha3 leaf proof i) \<Longrightarrow>
    merkle_climb sha3 leaf proof i = merkle_loop sha3 leaves \<Longrightarrow> leaf = leaves ! i"
proof (induction sha3 leaves arbitrary: i leaf "proof" rule: tree_levels.induct)
  case (1 sha3 level)
  show ?case
  proof (cases "length level \<le> 1")
    case True
    with "1.prems" show ?thesis
      by (simp add: tree_levels.simps [of sha3 level] merkle_loop.simps [of sha3 level] single_level)
  next
    case False
    let ?up = "pair_up sha3 level"
    obtain sib rest where p: "proof = sib # rest"
      using "1.prems"(5) False by (cases "proof") (simp_all add: tree_levels.simps [of sha3 level])
    let ?comb = "if i mod 2 = 0 then leaf @ sib else sib @ leaf"
    have lv: "tree_levels sha3 level = level # tree_levels sha3 ?up"
      using False by (simp add: tree_levels.simps [of sha3 level])
    have inputs: "tree_inputs sha3 level = level_inputs level \<union> tree_inputs sha3 ?up"
      by (simp add: tree_inputs_def lv)
    note up = pair_up_nth [OF "1.prems"(2), of sha3]
    have "sha3 ?comb = ?up ! (i div 2)"
    proof (rule "1.IH")
      show "\<not> length level \<le> 1" using False .
      show "\<forall>x. length (sha3 x) = 32" using "1.prems"(1) .
      show "i div 2 < length ?up" using "1.prems"(2) by simp
      show "\<forall>x \<in> set ?up. length x = 32" using pair_up_lengths [of sha3] "1.prems"(1) by blast
      show "length (sha3 ?comb) = 32" using "1.prems"(1) by simp
      show "length rest = length (tree_levels sha3 ?up) - 1" using "1.prems"(5) p lv by simp
      show "inj_on sha3 (tree_inputs sha3 ?up \<union> climb_inputs sha3 (sha3 ?comb) rest (i div 2))"
        using "1.prems"(6) by (rule inj_on_subset) (auto simp: inputs p Let_def)
      show "merkle_climb sha3 (sha3 ?comb) rest (i div 2) = merkle_loop sha3 ?up"
        using "1.prems"(7) False by (simp add: p Let_def merkle_loop.simps [of sha3 level])
    qed
    then have "sha3 ?comb = sha3 (node_above level i)" using up by simp
    moreover have "?comb \<in> climb_inputs sha3 leaf proof i" by (simp add: p Let_def)
    ultimately have "?comb = node_above level i"
      using "1.prems"(6) up by (auto simp: inputs dest: inj_onD)
    moreover have "length leaf = length (level ! i)" using "1.prems"(2-4) by simp
    ultimately show ?thesis by (auto simp: node_above_def Let_def split: if_splits)
  qed
qed

lemma pair_up_duplicate: "odd (length level) \<Longrightarrow> pair_up sha3 (level @ [last level]) = pair_up sha3 level"
  by (induction sha3 level rule: pair_up.induct) auto

section \<open>Properties\<close>

text \<open>For every leaf of a tree a proof is generated, and it verifies against the Merkle root of
  the leaves.\<close>

theorem merkle_proof_complete:
  assumes "i < length leaves"
  shows "\<exists>p. generate_merkle_proof sha3 leaves i = Some p \<and> mp_leaf p = leaves ! i \<and>
    merkle_proof_verify sha3 (merkle_root sha3 leaves) p"
proof -
  have ne: "leaves \<noteq> []" using assms by auto
  then have "merkle_root sha3 leaves = merkle_loop sha3 leaves"
    by (auto simp: merkle_root_def merkle_loop.simps [of sha3 leaves] length_Suc_conv)
  with ne climb_proof_path [OF assms, of sha3] assms show ?thesis
    by (simp add: generate_merkle_proof_def merkle_proof_verify_def verify_merkle_proof_def build_merkle_tree_def Let_def)
qed

theorem merkle_proof_complete_witness:
  "\<exists>p. generate_merkle_proof (take 32) [addr 1, addr 2, addr 3] 2 = Some p \<and> mp_leaf p = addr 3 \<and>
    merkle_proof_verify (take 32) (merkle_root (take 32) [addr 1, addr 2, addr 3]) p"
  using merkle_proof_complete [of 2 "[addr 1, addr 2, addr 3]" "take 32"] by simp

text \<open>C36: A proof of the depth of the tree that verifies against the root shows the leaf that is at
  its index, as long as no two different strings hashed for the tree or for the proof collide.\<close>

theorem merkle_proof_sound:
  assumes "\<forall>x. length (sha3 x) = 32" "\<forall>x \<in> set leaves. length x = 32" "i < length leaves" "length leaf = 32"
    and "length proof = length (snd (build_merkle_tree sha3 leaves)) - 1"
    and "inj_on sha3 (tree_inputs sha3 leaves \<union> climb_inputs sha3 leaf proof i)"
    and "verify_merkle_proof sha3 leaf proof i (merkle_root sha3 leaves)"
  shows "leaf = leaves ! i"
proof -
  have ne: "leaves \<noteq> []" using assms(3) by auto
  then have "merkle_root sha3 leaves = merkle_loop sha3 leaves"
    by (auto simp: merkle_root_def merkle_loop.simps [of sha3 leaves] length_Suc_conv)
  with assms ne show ?thesis
    by (intro climb_sound [of sha3]) (auto simp: verify_merkle_proof_def build_merkle_tree_def Let_def)
qed

theorem merkle_proof_sound_witness:
  "verify_merkle_proof (\<lambda>x. addr (sum_list x)) (addr 1) [addr 2] 0
     (merkle_root (\<lambda>x. addr (sum_list x)) [addr 1, addr 2]) \<and> addr 1 = [addr 1, addr 2] ! 0"
proof -
  let ?h = "\<lambda>x. addr (sum_list x)"
  have t: "tree_levels ?h [addr 1, addr 2] = [[addr 1, addr 2], [?h (addr 1 @ addr 2)]]"
    by (simp add: tree_levels.simps [of ?h "[addr 1, addr 2]"] tree_levels.simps [of ?h "[_]"])
  have v: "verify_merkle_proof ?h (addr 1) [addr 2] 0 (merkle_root ?h [addr 1, addr 2])"
    by (simp add: verify_merkle_proof_def merkle_root_def merkle_loop.simps [of ?h])
  moreover have "addr 1 = [addr 1, addr 2] ! 0"
    by (rule merkle_proof_sound [OF _ _ _ _ _ _ v])
      (simp_all add: addr_def build_merkle_tree_def t [unfolded addr_def] tree_inputs_def)
  ultimately show ?thesis by simp
qed

text \<open>The root does not determine the leaves: repeating the last of an odd number of leaves gives
  the same root.\<close>

theorem merkle_root_duplicate_leaf:
  assumes "odd (length leaves)" "1 < length leaves"
  shows "merkle_root sha3 (leaves @ [last leaves]) = merkle_root sha3 leaves"
  using assms
  by (auto simp: merkle_root_def merkle_loop.simps [of sha3 "leaves @ _"] merkle_loop.simps [of sha3 leaves]
      pair_up_duplicate)

theorem merkle_root_duplicate_leaf_witness:
  "merkle_root (take 32) [addr 1, addr 2, addr 3, addr 3] = merkle_root (take 32) [addr 1, addr 2, addr 3]"
  using merkle_root_duplicate_leaf [of "[addr 1, addr 2, addr 3]" "take 32"] by simp

end
