(* ===== verification/Signatures.thy ===== *)
theory Signatures
  imports Prelude
begin

text \<open>
  Verification of ML-DSA-65 signatures (\<open>crypto/ml_dsa.rs\<close>), the cache in front of it
  (\<open>crypto/precomputed.rs\<close>) and the batch verifier (\<open>crypto/batch_verify.rs\<close>).

  SHA3-256, the ML-DSA library and the LRU container are parameters.  \<open>lru_cache\<close> states what the
  code relies on of the container: a stored entry is found until it is evicted, and nothing is found
  that was not stored.
\<close>

section \<open>The cache\<close>

locale lru_cache =
  fixes get :: "'c \<Rightarrow> bytes \<Rightarrow> bool option \<times> 'c"
    and put :: "'c \<Rightarrow> bytes \<Rightarrow> bool \<Rightarrow> 'c"
  assumes get_again: "fst (get c k) = Some v \<Longrightarrow> fst (get (snd (get c k)) k) = Some v"
    and get_put: "fst (get (put c k v) k) = Some v"
    and get_keeps: "fst (get (snd (get c k)) k') = Some v \<Longrightarrow> fst (get c k') = Some v"
    and put_keeps: "fst (get (put c k v) k') = Some w \<Longrightarrow> k' = k \<and> w = v \<or> fst (get c k') = Some w"

text \<open>The container of the \<open>lru\<close> crate as its documentation describes it: most recently used
  first, with a capacity of at least one.\<close>

record lru =
  lru_capacity :: nat
  lru_entries :: "(bytes \<times> bool) list"

definition lru_new :: "nat \<Rightarrow> lru" where
  "lru_new capacity = \<lparr> lru_capacity = (if capacity = 0 then 1 else capacity), lru_entries = [] \<rparr>"

definition lru_get :: "lru \<Rightarrow> bytes \<Rightarrow> bool option \<times> lru" where
  "lru_get c k =
    (case map_of (lru_entries c) k of
       None \<Rightarrow> (None, c)
     | Some v \<Rightarrow> (Some v, c\<lparr>lru_entries := (k, v) # filter (\<lambda>e. fst e \<noteq> k) (lru_entries c)\<rparr>))"

definition lru_put :: "lru \<Rightarrow> bytes \<Rightarrow> bool \<Rightarrow> lru" where
  "lru_put c k v = c\<lparr>lru_entries :=
    take (Suc (lru_capacity c - 1)) ((k, v) # filter (\<lambda>e. fst e \<noteq> k) (lru_entries c))\<rparr>"

definition get_or_compute ::
  "('c \<Rightarrow> bytes \<Rightarrow> bool option \<times> 'c) \<Rightarrow> ('c \<Rightarrow> bytes \<Rightarrow> bool \<Rightarrow> 'c) \<Rightarrow> bytes \<Rightarrow> bool \<Rightarrow> 'c \<Rightarrow> bool \<times> 'c" where
  "get_or_compute get put key computed c =
    (case get c key of
       (Some v, c) \<Rightarrow> (v, c)
     | (None, c) \<Rightarrow> (computed, put c key computed))"

section \<open>Verification\<close>

text \<open>The ML-DSA library: which byte strings parse as a key and as a signature, and the check of a
  detached signature.\<close>

record mldsa =
  pk_parses :: "bytes \<Rightarrow> bool"
  sig_parses :: "bytes \<Rightarrow> bool"
  verify_detached :: "bytes \<Rightarrow> bytes \<Rightarrow> bytes \<Rightarrow> bool"

definition verify_uncached :: "mldsa \<Rightarrow> bytes \<Rightarrow> bytes \<Rightarrow> bytes \<Rightarrow> bool" where
  "verify_uncached lib public_key message signature =
    (if \<not> pk_parses lib public_key then False else
     if \<not> sig_parses lib signature then False else
     verify_detached lib signature message public_key)"

definition verify_ml_dsa_65 ::
  "('c \<Rightarrow> bytes \<Rightarrow> bool option \<times> 'c) \<Rightarrow> ('c \<Rightarrow> bytes \<Rightarrow> bool \<Rightarrow> 'c) \<Rightarrow> (bytes \<Rightarrow> hash) \<Rightarrow> mldsa \<Rightarrow>
    bytes \<Rightarrow> bytes \<Rightarrow> bytes \<Rightarrow> 'c \<Rightarrow> (string + bool) \<times> 'c" where
  "verify_ml_dsa_65 get put sha3 lib public_key message signature c =
    (let key = sha3 (public_key @ message @ signature);
         (cached, c) = get_or_compute get put key (verify_uncached lib public_key message signature) c
     in (Inr cached, c))"

definition public_key_to_address :: "(bytes \<Rightarrow> hash) \<Rightarrow> bytes \<Rightarrow> address" where
  "public_key_to_address hash_data public_key = hash_data public_key"

text \<open>A sequence of verifications on one cache, and their answers.\<close>

fun verify_all ::
  "('c \<Rightarrow> bytes \<Rightarrow> bool option \<times> 'c) \<Rightarrow> ('c \<Rightarrow> bytes \<Rightarrow> bool \<Rightarrow> 'c) \<Rightarrow> (bytes \<Rightarrow> hash) \<Rightarrow> mldsa \<Rightarrow>
    (bytes \<times> bytes \<times> bytes) list \<Rightarrow> 'c \<Rightarrow> (string + bool) list" where
  "verify_all get put sha3 lib [] c = []"
| "verify_all get put sha3 lib ((pk, m, s) # qs) c =
    (let (r, c) = verify_ml_dsa_65 get put sha3 lib pk m s c in r # verify_all get put sha3 lib qs c)"

section \<open>Batches\<close>

text \<open>The batch verifier sees verification as a function of its inputs; sequential and parallel
  evaluation give the same vector.\<close>

definition verify_one :: "(bytes \<Rightarrow> bytes \<Rightarrow> bytes \<Rightarrow> string + bool) \<Rightarrow> bytes \<times> bytes \<times> bytes \<Rightarrow> bool" where
  "verify_one verify item = (case item of (public_key, message, signature) \<Rightarrow>
    (case verify public_key message signature of Inr b \<Rightarrow> b | Inl _ \<Rightarrow> False))"

definition verify_batch ::
  "(bytes \<Rightarrow> bytes \<Rightarrow> bytes \<Rightarrow> string + bool) \<Rightarrow> (bytes \<times> bytes \<times> bytes) list \<Rightarrow> bool list" where
  "verify_batch verify items = (if items = [] then [] else map (verify_one verify) items)"

definition verify_batch_indices ::
  "(bytes \<Rightarrow> bytes \<Rightarrow> bytes \<Rightarrow> string + bool) \<Rightarrow> (bytes \<times> bytes \<times> bytes) list \<Rightarrow> nat list" where
  "verify_batch_indices verify items =
    map fst (filter snd (zip [0..<length (verify_batch verify items)] (verify_batch verify items)))"

definition verify_all_valid ::
  "(bytes \<Rightarrow> bytes \<Rightarrow> bytes \<Rightarrow> string + bool) \<Rightarrow> (bytes \<times> bytes \<times> bytes) list \<Rightarrow> bool" where
  "verify_all_valid verify items = list_all (verify_one verify) items"

section \<open>Samples\<close>

definition sample_lib :: mldsa where
  "sample_lib = \<lparr> pk_parses = \<lambda>pk. length pk = 1, sig_parses = \<lambda>s. length s = 1,
     verify_detached = \<lambda>s m pk. s = pk \<rparr>"

section \<open>Lemmas\<close>

lemma map_of_filter_neq: "map_of (filter (\<lambda>e. fst e \<noteq> k) es) k' = (if k' = k then None else map_of es k')"
  by (induction es) auto

lemma map_of_take: "map_of (take n es) k = Some v \<Longrightarrow> map_of es k = Some v"
  by (induction es arbitrary: n) (auto simp: take_Cons split: nat.splits if_splits)

interpretation lru: lru_cache lru_get lru_put
proof
  fix c k v k' w
  show "fst (lru_get c k) = Some v \<Longrightarrow> fst (lru_get (snd (lru_get c k)) k) = Some v"
    by (auto simp: lru_get_def split: option.splits)
  show "fst (lru_get (lru_put c k v) k) = Some v"
    by (simp add: lru_get_def lru_put_def)
  show "fst (lru_get (snd (lru_get c k)) k') = Some v \<Longrightarrow> fst (lru_get c k') = Some v"
    by (auto simp: lru_get_def map_of_filter_neq split: option.splits if_splits)
  show "fst (lru_get (lru_put c k v) k') = Some w \<Longrightarrow> k' = k \<and> w = v \<or> fst (lru_get c k') = Some w"
    by (auto simp: lru_get_def lru_put_def map_of_filter_neq dest: map_of_take split: option.splits if_splits)
qed

context lru_cache
begin

text \<open>Every entry answers for the inputs in \<open>Q\<close> that hash to its key.\<close>

definition sound_for :: "(bytes \<Rightarrow> hash) \<Rightarrow> mldsa \<Rightarrow> (bytes \<times> bytes \<times> bytes) set \<Rightarrow> 'c \<Rightarrow> bool" where
  "sound_for sha3 lib Q c \<longleftrightarrow> (\<forall>k v pk m s. fst (get c k) = Some v \<longrightarrow> (pk, m, s) \<in> Q \<longrightarrow>
    sha3 (pk @ m @ s) = k \<longrightarrow> v = verify_uncached lib pk m s)"

lemma verify_sound:
  assumes inv: "sound_for sha3 lib Q c" and q: "(pk, m, s) \<in> Q"
    and cf: "inj_on (\<lambda>(pk, m, s). sha3 (pk @ m @ s)) Q"
    and run: "verify_ml_dsa_65 get put sha3 lib pk m s c = (r, c')"
  shows "r = Inr (verify_uncached lib pk m s) \<and> sound_for sha3 lib Q c'"
proof (cases "fst (get c (sha3 (pk @ m @ s)))")
  case None
  let ?k = "sha3 (pk @ m @ s)" and ?v = "verify_uncached lib pk m s"
  obtain c1 where c1: "get c ?k = (None, c1)" using None by (cases "get c ?k") auto
  then have r: "r = Inr ?v" and c': "c' = put c1 ?k ?v"
    using run by (auto simp: verify_ml_dsa_65_def get_or_compute_def Let_def)
  have "w = verify_uncached lib pk' m' s'"
    if "fst (get c' k) = Some w" "(pk', m', s') \<in> Q" "sha3 (pk' @ m' @ s') = k" for k w pk' m' s'
  proof (cases "k = ?k \<and> w = ?v")
    case True
    then have "(pk', m', s') = (pk, m, s)" using inj_onD [OF cf _ that(2) q] that(3) by auto
    with True show ?thesis by simp
  next
    case False
    then have "fst (get c1 k) = Some w" using put_keeps [of c1 ?k ?v k w] that(1) c' by auto
    then have "fst (get c k) = Some w" using get_keeps [of c ?k k w] c1 by simp
    with inv that show ?thesis by (auto simp: sound_for_def)
  qed
  with r show ?thesis by (auto simp: sound_for_def)
next
  case (Some v)
  then obtain c1 where "get c (sha3 (pk @ m @ s)) = (Some v, c1)" by (cases "get c (sha3 (pk @ m @ s))") auto
  with run have r: "r = Inr v" and c': "c' = snd (get c (sha3 (pk @ m @ s)))"
    by (auto simp: verify_ml_dsa_65_def get_or_compute_def Let_def)
  have "v = verify_uncached lib pk m s" using inv Some q by (auto simp: sound_for_def)
  moreover have "sound_for sha3 lib Q c'"
    using inv get_keeps unfolding sound_for_def c' by blast
  ultimately show ?thesis using r by simp
qed

lemma verify_all_sound:
  assumes "sound_for sha3 lib Q c" "set qs \<subseteq> Q" "inj_on (\<lambda>(pk, m, s). sha3 (pk @ m @ s)) Q"
  shows "verify_all get put sha3 lib qs c = map (\<lambda>(pk, m, s). Inr (verify_uncached lib pk m s)) qs"
  using assms(1,2)
proof (induction qs arbitrary: c)
  case (Cons q qs)
  obtain pk m s where q: "q = (pk, m, s)" by (cases q) auto
  obtain r c' where run: "verify_ml_dsa_65 get put sha3 lib pk m s c = (r, c')" by fastforce
  with verify_sound [OF Cons.prems(1) _ assms(3) run] Cons q show ?case by auto
qed simp

lemma second_answer:
  assumes "pk @ m @ s = pk' @ m' @ s'" "verify_ml_dsa_65 get put sha3 lib pk m s c = (r, c')"
  shows "fst (verify_ml_dsa_65 get put sha3 lib pk' m' s' c') = r"
proof -
  let ?k = "sha3 (pk @ m @ s)"
  have hit: "fst (verify_ml_dsa_65 get put sha3 lib pk' m' s' c') = Inr v" if "fst (get c' ?k) = Some v" for v
    using that assms(1) by (cases "get c' ?k") (simp add: verify_ml_dsa_65_def get_or_compute_def)
  show ?thesis
  proof (cases "get c ?k")
    case (Pair a c1)
    show ?thesis
    proof (cases a)
      case None
      then have "r = Inr (verify_uncached lib pk m s)" "c' = put c1 ?k (verify_uncached lib pk m s)"
        using assms(2) Pair by (auto simp: verify_ml_dsa_65_def get_or_compute_def)
      then show ?thesis using hit get_put by simp
    next
      case (Some v)
      then have "r = Inr v" "c' = snd (get c ?k)"
        using assms(2) Pair by (auto simp: verify_ml_dsa_65_def get_or_compute_def)
      then show ?thesis using hit get_again [of c ?k v] Pair Some by simp
    qed
  qed
qed

end

section \<open>Properties\<close>

text \<open>Starting from an empty cache, any sequence of verifications returns exactly what the ML-DSA
  library answers, provided the hash has no collision among the inputs of the sequence, the byte
  strings being told apart by their concatenation.\<close>

theorem verify_cache_transparent:
  assumes "inj_on (\<lambda>(pk, m, s). sha3 (pk @ m @ s)) (set qs)"
  shows "verify_all lru_get lru_put sha3 lib qs (lru_new capacity) =
    map (\<lambda>(pk, m, s). Inr (verify_uncached lib pk m s)) qs"
proof (rule lru.verify_all_sound [OF _ subset_refl assms])
  show "lru.sound_for sha3 lib (set qs) (lru_new capacity)"
    by (simp add: lru.sound_for_def lru_new_def lru_get_def)
qed

theorem verify_cache_transparent_witness:
  "verify_all lru_get lru_put (\<lambda>x. x) sample_lib [([1], [2], [1]), ([1], [2], [3]), ([1], [2], [1])] (lru_new 2) =
    [Inr True, Inr False, Inr True]"
proof -
  have "inj_on (\<lambda>(pk, m, s). pk @ m @ s) (set [([1], [2], [1]), ([1], [2], [3]), ([1 :: u8], [2], [1])])"
    by (auto simp: inj_on_def)
  from verify_cache_transparent [of "\<lambda>x. x", OF this] show ?thesis
    by (simp add: verify_uncached_def sample_lib_def)
qed

text \<open>C35: The cache key does not separate message and signature.  Whatever the library says, once a
  signature of \<open>m @ x\<close> has been checked, the pair of message \<open>m\<close> and signature \<open>x @ s\<close> gets the same
  answer; in particular a string that does not even parse as a signature is accepted.\<close>

theorem verify_cache_confusion:
  assumes "lru_cache get put" "verify_ml_dsa_65 get put sha3 lib pk (m @ x) s c = (Inr True, c')"
    and "\<not> sig_parses lib (x @ s)"
  shows "fst (verify_ml_dsa_65 get put sha3 lib pk m (x @ s) c') = Inr True \<and>
    \<not> verify_uncached lib pk m (x @ s)"
  using lru_cache.second_answer [OF assms(1) _ assms(2), of pk m "x @ s"] assms(3)
  by (simp add: verify_uncached_def)

theorem verify_cache_confusion_witness:
  "fst (verify_ml_dsa_65 lru_get lru_put (\<lambda>x. x) sample_lib [1] [2] [3, 1]
     (snd (verify_ml_dsa_65 lru_get lru_put (\<lambda>x. x) sample_lib [1] [2, 3] [1] (lru_new 2)))) = Inr True"
proof -
  have "verify_ml_dsa_65 lru_get lru_put (\<lambda>x. x) sample_lib [1] ([2] @ [3]) [1] (lru_new 2) =
      (Inr True, snd (verify_ml_dsa_65 lru_get lru_put (\<lambda>x. x) sample_lib [1] [2, 3] [1] (lru_new 2)))"
    by (simp add: verify_ml_dsa_65_def get_or_compute_def lru_new_def lru_get_def verify_uncached_def
        sample_lib_def Let_def)
  from verify_cache_confusion [OF lru.lru_cache_axioms this] show ?thesis
    by (simp add: sample_lib_def)
qed

end
