(* ===== verification/Aggregation.thy ===== *)
theory Aggregation
  imports Merkle Signatures
begin

text \<open>
  Aggregation of signatures: the Merkle commitment and the compact block signature of
  \<open>crypto/signature_aggregation.rs\<close>, and the delta-compressed batch of \<open>crypto/aggregation.rs\<close>.
  SHA3-256 and the verification of one signature are parameters.  Indexing beyond the end of a vector
  panics, the value None.
\<close>

unbundle bit_operations_syntax

section \<open>Commitment trees\<close>

datatype aggregation_error = EmptySignatures | LengthMismatch | TooManySignatures | InvalidProof

record signature_merkle_proof =
  sp_path :: "hash list"
  sp_indices :: "u8 list"

record aggregated_signature =
  as_root :: hash
  as_signatures :: "bytes list"
  as_merkle_proofs :: "signature_merkle_proof list"
  as_public_keys :: "bytes list"
  as_message :: bytes

definition compute_commitment :: "(bytes \<Rightarrow> hash) \<Rightarrow> bytes \<Rightarrow> bytes \<Rightarrow> bytes \<Rightarrow> hash" where
  "compute_commitment sha3 signature pubkey message = sha3 (signature @ pubkey @ message)"

definition hash_pair :: "(bytes \<Rightarrow> hash) \<Rightarrow> hash \<Rightarrow> hash \<Rightarrow> hash" where
  "hash_pair sha3 left right = sha3 (left @ right)"

text \<open>One level up: here an odd last node moves up unchanged.\<close>

fun promote_up :: "(bytes \<Rightarrow> hash) \<Rightarrow> hash list \<Rightarrow> hash list" where
  "promote_up sha3 [] = []"
| "promote_up sha3 [a] = [a]"
| "promote_up sha3 (a # b # rest) = hash_pair sha3 a b # promote_up sha3 rest"

lemma length_promote_up [simp]: "length (promote_up sha3 level) = (length level + 1) div 2"
  by (induction sha3 level rule: promote_up.induct) auto

function sig_levels :: "(bytes \<Rightarrow> hash) \<Rightarrow> hash list \<Rightarrow> hash list list" where
  "sig_levels sha3 level =
    (if length level > 1 then level # sig_levels sha3 (promote_up sha3 level) else [level])"
  by pat_completeness auto
termination
  by (relation "measure (\<lambda>(sha3, level). length level)") auto

declare sig_levels.simps [simp del]

fun sig_path :: "hash list list \<Rightarrow> nat \<Rightarrow> hash list \<times> u8 list" where
  "sig_path [] idx = ([], [])"
| "sig_path (level # levels) idx =
    (let sibling_idx = (if idx mod 2 = 0 then idx + 1 else idx - 1);
         (path, indices) = sig_path levels (idx div 2)
     in if sibling_idx < length level
        then (level ! sibling_idx # path, of_nat (idx mod 2) # indices)
        else (path, indices))"

definition generate_proof :: "nat \<Rightarrow> hash list list \<Rightarrow> signature_merkle_proof" where
  "generate_proof leaf_idx levels =
    (let (path, indices) = sig_path (butlast levels) leaf_idx
     in \<lparr> sp_path = path, sp_indices = indices \<rparr>)"

definition sig_build_tree :: "(bytes \<Rightarrow> hash) \<Rightarrow> hash list \<Rightarrow> hash \<times> signature_merkle_proof list" where
  "sig_build_tree sha3 leaves =
    (if leaves = [] then (replicate 32 0, []) else
     if length leaves = 1 then (leaves ! 0, [\<lparr> sp_path = [], sp_indices = [] \<rparr>]) else
     let levels = sig_levels sha3 leaves
     in (last levels ! 0, map (\<lambda>i. generate_proof i levels) [0..<length leaves]))"

fun sig_climb :: "(bytes \<Rightarrow> hash) \<Rightarrow> hash \<Rightarrow> (hash \<times> u8) list \<Rightarrow> hash" where
  "sig_climb sha3 current [] = current"
| "sig_climb sha3 current ((sibling, direction) # rest) =
    sig_climb sha3
      (if direction = 0 then hash_pair sha3 current sibling else hash_pair sha3 sibling current) rest"

definition sig_verify_merkle_proof ::
  "(bytes \<Rightarrow> hash) \<Rightarrow> hash \<Rightarrow> signature_merkle_proof \<Rightarrow> hash \<Rightarrow> bool" where
  "sig_verify_merkle_proof sha3 leaf p root \<longleftrightarrow>
    sig_climb sha3 leaf (zip (sp_path p) (sp_indices p)) = root"

definition aggregate ::
  "(bytes \<Rightarrow> hash) \<Rightarrow> nat \<Rightarrow> bytes list \<Rightarrow> bytes list \<Rightarrow> bytes \<Rightarrow>
    aggregation_error + aggregated_signature" where
  "aggregate sha3 max_signatures signatures public_keys message =
    (if signatures = [] then Inl EmptySignatures else
     if length signatures \<noteq> length public_keys then Inl LengthMismatch else
     if length signatures > max_signatures then Inl TooManySignatures else
     let commitments = map (\<lambda>(sig, pk). compute_commitment sha3 sig pk message) (zip signatures public_keys);
         (root, proofs) = sig_build_tree sha3 commitments
     in Inr \<lparr> as_root = root, as_signatures = signatures, as_merkle_proofs = proofs,
          as_public_keys = public_keys, as_message = message \<rparr>)"

text \<open>The loop of \<open>verify\<close>: the answer of the signature check is looked at only for an error.\<close>

fun verify_loop ::
  "(bytes \<Rightarrow> hash) \<Rightarrow> (bytes \<Rightarrow> bytes \<Rightarrow> bytes \<Rightarrow> string + bool) \<Rightarrow> aggregated_signature \<Rightarrow> nat list \<Rightarrow>
    aggregation_error + bool" where
  "verify_loop sha3 verify agg [] = Inr True"
| "verify_loop sha3 verify agg (i # is) =
    (let commitment = compute_commitment sha3 (as_signatures agg ! i) (as_public_keys agg ! i) (as_message agg) in
     if \<not> sig_verify_merkle_proof sha3 commitment (as_merkle_proofs agg ! i) (as_root agg) then Inr False else
     case verify (as_public_keys agg ! i) (as_message agg) (as_signatures agg ! i) of
       Inl _ \<Rightarrow> Inr False
     | Inr _ \<Rightarrow> verify_loop sha3 verify agg is)"

definition aggregator_verify ::
  "(bytes \<Rightarrow> hash) \<Rightarrow> (bytes \<Rightarrow> bytes \<Rightarrow> bytes \<Rightarrow> string + bool) \<Rightarrow> aggregated_signature \<Rightarrow>
    aggregation_error + bool" where
  "aggregator_verify sha3 verify agg =
    (if length (as_signatures agg) \<noteq> length (as_public_keys agg) then Inl LengthMismatch else
     if length (as_signatures agg) \<noteq> length (as_merkle_proofs agg) then Inl LengthMismatch else
     verify_loop sha3 verify agg [0..<length (as_signatures agg)])"

definition full_aggregated_size :: "aggregated_signature \<Rightarrow> nat" where
  "full_aggregated_size agg =
    32 + sum_list (map length (as_signatures agg)) + sum_list (map length (as_public_keys agg)) +
    sum_list (map (\<lambda>p. length (sp_path p) * 32 + length (sp_indices p)) (as_merkle_proofs agg)) +
    length (as_message agg)"

section \<open>Compact signatures\<close>

record signer_bitmap =
  sb_bits :: "u8 list"
  sb_committee_size :: u32

fun set_bits :: "nat \<Rightarrow> nat list \<Rightarrow> u8 list \<Rightarrow> u8 list" where
  "set_bits committee_size [] bits = bits"
| "set_bits committee_size (idx # indices) bits =
    set_bits committee_size indices
      (if idx < committee_size
       then bits[idx div 8 := (bits ! (idx div 8)) OR push_bit (idx mod 8) 1]
       else bits)"

definition from_indices :: "nat \<Rightarrow> nat list \<Rightarrow> signer_bitmap" where
  "from_indices committee_size indices =
    \<lparr> sb_bits = set_bits committee_size indices (replicate ((committee_size + 7) div 8) 0),
      sb_committee_size = of_nat committee_size \<rparr>"

definition count_ones :: "u8 \<Rightarrow> nat" where
  "count_ones b = length (filter (bit b) [0..<8])"

definition count_signers :: "signer_bitmap \<Rightarrow> nat" where
  "count_signers bm = sum_list (map count_ones (sb_bits bm))"

definition has_signed :: "signer_bitmap \<Rightarrow> nat \<Rightarrow> bool option" where
  "has_signed bm idx =
    (if idx \<ge> unat (sb_committee_size bm) then Some False else
     if idx div 8 \<ge> length (sb_bits bm) then None else
     Some ((sb_bits bm ! (idx div 8)) AND push_bit (idx mod 8) 1 \<noteq> 0))"

definition size_bytes :: "signer_bitmap \<Rightarrow> nat" where
  "size_bytes bm = length (sb_bits bm) + 4"

record compact_block_signature =
  cb_root :: hash
  cb_signer_bitmap :: signer_bitmap
  cb_signer_count :: u32
  cb_message_hash :: hash

definition encoded_size :: "compact_block_signature \<Rightarrow> nat" where
  "encoded_size c = 32 + size_bytes (cb_signer_bitmap c) + 4 + 32"

definition compact ::
  "(bytes \<Rightarrow> hash) \<Rightarrow> aggregated_signature \<Rightarrow> nat \<Rightarrow> nat list \<Rightarrow> compact_block_signature" where
  "compact sha3 agg committee_size signer_indices =
    \<lparr> cb_root = as_root agg, cb_signer_bitmap = from_indices committee_size signer_indices,
      cb_signer_count = of_nat (length signer_indices), cb_message_hash = sha3 (as_message agg) \<rparr>"

text \<open>The indices below \<open>n\<close> that a bitmap marks, None when a lookup panics.\<close>

fun marked :: "signer_bitmap \<Rightarrow> nat list \<Rightarrow> nat list option" where
  "marked bm [] = Some []"
| "marked bm (i # is) =
    (case has_signed bm i of
       None \<Rightarrow> None
     | Some b \<Rightarrow> map_option (\<lambda>js. if b then i # js else js) (marked bm is))"

definition verify_compact ::
  "(bytes \<Rightarrow> hash) \<Rightarrow> (bytes \<Rightarrow> bytes \<Rightarrow> bytes \<Rightarrow> string + bool) \<Rightarrow> compact_block_signature \<Rightarrow> bytes list \<Rightarrow>
    bytes \<Rightarrow> bytes list \<Rightarrow> (aggregation_error + bool) option" where
  "verify_compact sha3 verify c committee_pks message signatures =
    (if sha3 message \<noteq> cb_message_hash c then Some (Inr False) else
     if count_signers (cb_signer_bitmap c) \<noteq> unat (cb_signer_count c) then Some (Inr False) else
     let quorum = length committee_pks * 2 div 3 + 1 in
     if cb_signer_count c < of_nat quorum then Some (Inr False) else
     case marked (cb_signer_bitmap c) [0..<length committee_pks] of
       None \<Rightarrow> None
     | Some signer_indices \<Rightarrow>
         if length signer_indices \<noteq> length signatures then Some (Inr False) else
         if \<not> verify_all_valid verify
             (map (\<lambda>(idx, sig). (committee_pks ! idx, message, sig)) (zip signer_indices signatures))
         then Some (Inr False) else
         let commitments = map (\<lambda>(idx, sig). compute_commitment sha3 sig (committee_pks ! idx) message)
               (zip signer_indices signatures) in
         if fst (sig_build_tree sha3 commitments) \<noteq> cb_root c then Some (Inr False)
         else Some (Inr True))"

section \<open>Lemmas on commitment trees\<close>

lemma promote_up_nth:
  assumes "i < length level"
  defines "j \<equiv> if i mod 2 = 0 then i + 1 else i - 1"
  shows "promote_up sha3 level ! (i div 2) =
    (if j < length level
     then (if i mod 2 = 0 then hash_pair sha3 (level ! i) (level ! j) else hash_pair sha3 (level ! j) (level ! i))
     else level ! i)"
  using assms(1) unfolding j_def
proof (induction sha3 level arbitrary: i rule: promote_up.induct)
  case (3 sha3 a b rest)
  consider "i = 0" | "i = 1" | k where "i = Suc (Suc k)" by (cases i; cases "i - 1") auto
  then show ?case
  proof cases
    case (3 k)
    with "3.IH" [of k] "3.prems" show ?thesis by (cases k) auto
  qed simp_all
qed simp_all

lemma sig_levels_not_Nil [simp]: "sig_levels sha3 level \<noteq> []"
  by (subst sig_levels.simps) simp

lemma sig_climb_path:
  "i < length leaves \<Longrightarrow>
    sig_climb sha3 (leaves ! i)
      (zip (fst (sig_path (butlast (sig_levels sha3 leaves)) i)) (snd (sig_path (butlast (sig_levels sha3 leaves)) i)))
    = last (sig_levels sha3 leaves) ! 0"
proof (induction sha3 leaves arbitrary: i rule: sig_levels.induct)
  case (1 sha3 level)
  show ?case
  proof (cases "length level > 1")
    case False
    then have "i = 0" using "1.prems" by simp
    with False show ?thesis by (simp add: sig_levels.simps [of sha3 level])
  next
    case True
    let ?up = "promote_up sha3 level"
    have "i div 2 < length ?up" using "1.prems" by simp
    from "1.IH" [OF True this] promote_up_nth [OF "1.prems", of sha3] True show ?thesis
      by (cases "i mod 2 = 0") (auto simp: sig_levels.simps [of sha3 level] Let_def split: prod.split)
  qed
qed

lemma sig_build_tree_proofs:
  assumes "leaves \<noteq> []"
  shows "length (snd (sig_build_tree sha3 leaves)) = length leaves"
    and "i < length leaves \<Longrightarrow> sig_verify_merkle_proof sha3 (leaves ! i) (snd (sig_build_tree sha3 leaves) ! i)
      (fst (sig_build_tree sha3 leaves))"
  using assms sig_climb_path [of i leaves sha3]
  by (auto simp: sig_build_tree_def sig_verify_merkle_proof_def generate_proof_def Let_def length_Suc_conv
      split: prod.splits)

lemma verify_loop_True:
  assumes "\<And>pk m s. \<exists>b. verify pk m s = Inr b"
    and "\<And>i. i \<in> set is \<Longrightarrow> sig_verify_merkle_proof sha3
      (compute_commitment sha3 (as_signatures agg ! i) (as_public_keys agg ! i) (as_message agg))
      (as_merkle_proofs agg ! i) (as_root agg)"
  shows "verify_loop sha3 verify agg is = Inr True"
  using assms(2)
proof (induction "is")
  case (Cons i "is")
  obtain b where "verify (as_public_keys agg ! i) (as_message agg) (as_signatures agg ! i) = Inr b"
    using assms(1) by blast
  with Cons show ?case by (simp add: Let_def)
qed simp

section \<open>Lemmas on bitmaps\<close>

definition marks :: "u8 list \<Rightarrow> nat set" where
  "marks bits = {j. j div 8 < length bits \<and> bit (bits ! (j div 8)) (j mod 8)}"

lemma eq_iff_div_mod: "j = i \<longleftrightarrow> j div 8 = i div 8 \<and> j mod 8 = i mod 8" for i j :: nat
  by (metis div_mult_mod_eq)

lemma marks_set_bits:
  "n \<le> 8 * length bits \<Longrightarrow> marks (set_bits n is bits) = marks bits \<union> {i \<in> set is. i < n} \<and>
    length (set_bits n is bits) = length bits"
proof (induction "is" arbitrary: bits)
  case (Cons i "is")
  have "marks (bits[i div 8 := (bits ! (i div 8)) OR push_bit (i mod 8) 1]) = insert i (marks bits)"
    if "i < n"
  proof -
    have "i div 8 < length bits" using that Cons.prems by auto
    then have "j \<in> marks (bits[i div 8 := (bits ! (i div 8)) OR push_bit (i mod 8) 1]) \<longleftrightarrow> j = i \<or> j \<in> marks bits" for j
      unfolding eq_iff_div_mod [of j i]
      by (cases "j div 8 = i div 8") (auto simp: marks_def bit_simps)
    then show ?thesis by auto
  qed
  with Cons show ?case by auto
qed simp

lemma marks_snoc: "marks (bits @ [b]) = marks bits \<union> (\<lambda>k. 8 * length bits + k) ` {k. k < 8 \<and> bit b k}"
proof -
  have new: "(\<exists>k < 8. bit b k \<and> j = 8 * length bits + k) \<longleftrightarrow> j div 8 = length bits \<and> bit b (j mod 8)" for j
  proof
    assume "j div 8 = length bits \<and> bit b (j mod 8)"
    moreover have "j = 8 * (j div 8) + j mod 8" by simp
    ultimately show "\<exists>k < 8. bit b k \<and> j = 8 * length bits + k"
      by (intro exI [of _ "j mod 8"]) simp
  qed auto
  have "j \<in> marks (bits @ [b]) \<longleftrightarrow> j \<in> marks bits \<or> (\<exists>k < 8. bit b k \<and> j = 8 * length bits + k)" for j
    unfolding new by (cases "j div 8 < length bits") (auto simp: marks_def nth_append less_Suc_eq)
  then show ?thesis by auto
qed

lemma count_marks: "sum_list (map count_ones bits) = card (marks bits) \<and> finite (marks bits)"
proof (induction bits rule: rev_induct)
  case Nil
  show ?case by (simp add: marks_def)
next
  case (snoc b bits)
  let ?new = "(\<lambda>k. 8 * length bits + k) ` {k. k < 8 \<and> bit b k}"
  have "card ?new = card {k. k < 8 \<and> bit b k}" by (rule card_image) (simp add: inj_on_def)
  also have "\<dots> = count_ones b"
  proof -
    have "{k. k < 8 \<and> bit b k} = set (filter (bit b) [0..<8])" by auto
    then show ?thesis by (simp only: count_ones_def distinct_card distinct_filter distinct_upt)
  qed
  finally have "card ?new = count_ones b" .
  moreover have "marks bits \<inter> ?new = {}" by (auto simp: marks_def)
  ultimately show ?case using snoc by (simp add: marks_snoc card_Un_disjoint)
qed

lemma has_signed_marks:
  assumes "i < unat (sb_committee_size bm)" "i div 8 < length (sb_bits bm)"
  shows "has_signed bm i = Some (i \<in> marks (sb_bits bm))"
  using assms by (simp add: has_signed_def marks_def bit_iff_and_push_bit_not_eq_0)

lemma marked_filter:
  "marked bm is = Some js \<Longrightarrow> js = filter (\<lambda>i. has_signed bm i = Some True) is"
  by (induction "is" arbitrary: js) (auto split: option.splits if_splits)

text \<open>A bitmap as \<open>from_indices\<close> builds them: of the size of its committee, and no mark beyond it.\<close>

definition bitmap_wf :: "signer_bitmap \<Rightarrow> bool" where
  "bitmap_wf bm \<longleftrightarrow> unat (sb_committee_size bm) \<le> 8 * length (sb_bits bm) \<and>
    marks (sb_bits bm) \<subseteq> {..<unat (sb_committee_size bm)}"

section \<open>Properties of aggregates\<close>

text \<open>C34: Whatever byte strings are aggregated as signatures, \<open>verify\<close> accepts the aggregate: every
  Merkle proof is right, and of the signature check, which never reports an error, only an error is
  looked at.\<close>

theorem aggregate_always_verifies:
  assumes "signatures \<noteq> []" "length signatures = length public_keys" "length signatures \<le> max_signatures"
    and "\<And>pk m s. \<exists>b. verify pk m s = Inr b"
  shows "\<exists>agg. aggregate sha3 max_signatures signatures public_keys message = Inr agg \<and>
    aggregator_verify sha3 verify agg = Inr True"
proof -
  let ?cs = "map (\<lambda>(sig, pk). compute_commitment sha3 sig pk message) (zip signatures public_keys)"
  obtain root proofs where t: "sig_build_tree sha3 ?cs = (root, proofs)" by fastforce
  let ?agg = "\<lparr> as_root = root, as_signatures = signatures, as_merkle_proofs = proofs,
    as_public_keys = public_keys, as_message = message \<rparr>"
  have ne: "?cs \<noteq> []" using assms(1,2) by auto
  have "aggregate sha3 max_signatures signatures public_keys message = Inr ?agg"
    using assms(1-3) t by (simp add: aggregate_def Let_def)
  moreover have "sig_verify_merkle_proof sha3 (compute_commitment sha3 (signatures ! i) (public_keys ! i) message)
      (proofs ! i) root" if "i < length signatures" for i
    using sig_build_tree_proofs(2) [OF ne, of i sha3] that assms(2) t by simp
  then have "verify_loop sha3 verify ?agg [0..<length signatures] = Inr True"
    by (intro verify_loop_True [OF assms(4)]) simp
  moreover have "length proofs = length signatures"
    using sig_build_tree_proofs(1) [OF ne, of sha3] assms(2) t by simp
  ultimately show ?thesis using assms(2) by (simp add: aggregator_verify_def)
qed

theorem aggregate_always_verifies_witness:
  "\<exists>agg. aggregate (take 32) 10 [[0], [0], [0]] [[1], [2], [3]] [7] = Inr agg \<and>
    aggregator_verify (take 32) (\<lambda>pk m s. Inr False) agg = Inr True"
  by (rule aggregate_always_verifies) auto

text \<open>A bitmap made from a list of indices marks exactly the listed members of the committee, and
  its number of signers is the number of different members listed.\<close>

theorem bitmap_roundtrip:
  assumes "n < 2 ^ 32"
  shows "has_signed (from_indices n indices) i = Some (i < n \<and> i \<in> set indices) \<and>
    count_signers (from_indices n indices) = card {i \<in> set indices. i < n}"
proof -
  let ?z = "replicate ((n + 7) div 8) (0 :: u8)"
  have "n \<le> 8 * length ?z" by simp
  moreover have "marks ?z = {}" by (auto simp: marks_def)
  ultimately have "marks (set_bits n indices ?z) = {i \<in> set indices. i < n}"
    "length (set_bits n indices ?z) = (n + 7) div 8"
    using marks_set_bits [of n ?z indices] by simp_all
  then have
    m: "marks (sb_bits (from_indices n indices)) = {i \<in> set indices. i < n}"
    "length (sb_bits (from_indices n indices)) = (n + 7) div 8"
    by (simp_all add: from_indices_def)
  have sz: "unat (sb_committee_size (from_indices n indices)) = n"
    using assms by (simp add: from_indices_def unat_of_nat)
  have "i div 8 < (n + 7) div 8" if "i < n" using that by auto
  then have "has_signed (from_indices n indices) i = Some (i < n \<and> i \<in> set indices)"
    using has_signed_marks [of i "from_indices n indices"] m sz by (auto simp: has_signed_def)
  then show ?thesis using m count_marks by (simp add: count_signers_def)
qed

theorem bitmap_roundtrip_witness:
  "has_signed (from_indices 12 [0, 9, 9, 40]) 9 = Some True \<and> count_signers (from_indices 12 [0, 9, 9, 40]) = 2"
proof -
  have "{i \<in> set [0, 9, 9, 40 :: nat]. i < 12} = {0, 9}" by auto
  with bitmap_roundtrip [of 12 "[0, 9, 9, 40]" 9] show ?thesis by simp
qed

text \<open>A compact signature with a well-formed bitmap for the committee is accepted only with valid
  signatures of the message by more than two thirds of the committee.\<close>

theorem verify_compact_quorum:
  assumes "verify_compact sha3 verify c pks message signatures = Some (Inr True)"
    and "bitmap_wf (cb_signer_bitmap c)" "unat (sb_committee_size (cb_signer_bitmap c)) = length pks"
    and "length pks < 2 ^ 31"
  shows "\<exists>signers. distinct signers \<and> set signers \<subseteq> {..<length pks} \<and> 2 * length pks < 3 * length signers \<and>
    length signatures = length signers \<and>
    (\<forall>k < length signers. verify (pks ! (signers ! k)) message (signatures ! k) = Inr True)"
proof -
  let ?bm = "cb_signer_bitmap c"
  define q where "q = length pks * 2 div 3 + 1"
  obtain js where js: "marked ?bm [0..<length pks] = Some js" and len: "length js = length signatures"
    and cnt: "count_signers ?bm = unat (cb_signer_count c)" and quo: "\<not> cb_signer_count c < of_nat q"
    and val: "verify_all_valid verify (map (\<lambda>(idx, sig). (pks ! idx, message, sig)) (zip js signatures))"
    using assms(1) unfolding verify_compact_def Let_def q_def [symmetric]
    by (auto split: if_splits option.splits)
  have sig: "has_signed ?bm i = Some (i \<in> marks (sb_bits ?bm))" if "i < length pks" for i
    using that assms(2,3) by (intro has_signed_marks) (auto simp: bitmap_wf_def)
  have js_eq: "js = filter (\<lambda>i. i \<in> marks (sb_bits ?bm)) [0..<length pks]"
    using marked_filter [OF js] sig by (auto intro: filter_cong)
  have "set js = marks (sb_bits ?bm)" using assms(2,3) by (auto simp: js_eq bitmap_wf_def)
  moreover have d: "distinct js" by (simp add: js_eq)
  ultimately have "length js = count_signers ?bm" by (metis count_marks count_signers_def distinct_card)
  moreover have "q < 2 ^ 32" using assms(4) by (simp add: q_def)
  ultimately have "q \<le> length js"
    using quo cnt by (simp add: word_less_nat_alt unat_of_nat not_less)
  then have "2 * length pks < 3 * length js" unfolding q_def by linarith
  moreover have "verify (pks ! (js ! k)) message (signatures ! k) = Inr True" if "k < length js" for k
    using val len that
    by (cases "verify (pks ! (js ! k)) message (signatures ! k)")
      (auto simp: verify_all_valid_def list_all_length verify_one_def dest!: spec [of _ k])
  ultimately show ?thesis using d len by (intro exI [of _ js]) (auto simp: js_eq)
qed

theorem verify_compact_quorum_witness:
  "\<exists>signers. distinct signers \<and> set signers \<subseteq> {..<1 :: nat} \<and> length signers = 1"
proof -
  let ?c = "\<lparr> cb_root = [9, 1, 7], cb_signer_bitmap = \<lparr> sb_bits = [1], sb_committee_size = 1 \<rparr>,
    cb_signer_count = 1, cb_message_hash = [7] \<rparr>"
  have ones: "count_ones 1 = 1" by (simp add: count_ones_def upt_rec bit_1_iff)
  have "verify_compact (\<lambda>x. x) (\<lambda>pk m s. Inr True) ?c [[1]] [7] [[9]] = Some (Inr True)"
    by (simp add: verify_compact_def count_signers_def ones has_signed_def verify_all_valid_def verify_one_def
        sig_build_tree_def compute_commitment_def Let_def)
  moreover have "marks [1] = {0}" by (auto simp: marks_def bit_1_iff)
  then have "bitmap_wf (cb_signer_bitmap ?c)" by (simp add: bitmap_wf_def)
  ultimately show ?thesis using verify_compact_quorum [of "\<lambda>x. x" "\<lambda>pk m s. Inr True" ?c "[[1]]" "[7]" "[[9]]"]
    by fastforce
qed

text \<open>The quorum test counts marks beyond the committee: with a bitmap that has such marks, the
  signature of one member of a committee of four is accepted as a quorum.\<close>

theorem verify_compact_stray_marks:
  assumes "verify pk0 message s = Inr True"
  shows "\<exists>c. verify_compact sha3 verify c [pk0, pk1, pk2, pk3] message [s] = Some (Inr True)"
proof -
  let ?c = "\<lparr> cb_root = compute_commitment sha3 s pk0 message,
    cb_signer_bitmap = \<lparr> sb_bits = [0xF1], sb_committee_size = 4 \<rparr>,
    cb_signer_count = 5, cb_message_hash = sha3 message \<rparr>"
  define pks where "pks = [pk0, pk1, pk2, pk3]"
  have pks: "length pks = 4" "pks ! 0 = pk0" by (simp_all add: pks_def)
  have upt: "[0..<8] = [0, 1, 2, 3, 4, 5, 6, 7 :: nat]" "[0..<4] = [0, 1, 2, 3 :: nat]"
    by (simp_all add: upt_conv_Cons)
  have ones: "count_ones 0xF1 = 5" unfolding count_ones_def upt by simp
  have "marked (cb_signer_bitmap ?c) [0..<4] = Some [0]" unfolding upt by (simp add: has_signed_def)
  then have "verify_compact sha3 verify ?c pks message [s] = Some (Inr True)"
    unfolding verify_compact_def pks(1)
    using assms pks(2) by (simp add: count_signers_def ones verify_all_valid_def verify_one_def
        sig_build_tree_def compute_commitment_def Let_def)
  then show ?thesis unfolding pks_def by blast
qed

theorem verify_compact_stray_marks_witness:
  "\<exists>c. verify_compact (take 32) (\<lambda>pk m s. Inr (pk = [1])) c [[1], [2], [3], [4]] [7] [[9]] = Some (Inr True)"
  by (rule verify_compact_stray_marks) simp

end
