(* ===== verification/Batch_Aggregation.thy ===== *)
theory Batch_Aggregation
  imports Aggregation
begin

text \<open>
  The delta-compressed batch of signatures of \<open>crypto/aggregation.rs\<close>: adding a signature, the
  collector that aggregates messages with enough signatures, decompression and verification.
\<close>

section \<open>Batches\<close>

datatype crypto_error = KeyGenerationFailed string | InvalidSignature

definition MAX_AGGREGATED_SIGNATURES :: nat where "MAX_AGGREGATED_SIGNATURES = 1000"
definition MAX_COMPRESSED_DATA_SIZE :: nat where "MAX_COMPRESSED_DATA_SIZE = 10 * 1024 * 1024"

record batch_signature =
  bs_signer_bitmap :: "u8 list"
  bs_count :: u32
  bs_signature_root :: hash
  bs_compressed_data :: bytes
  bs_signature_hashes :: "hash list"
  bs_signature_lengths :: "nat list"

definition batch_new :: batch_signature where
  "batch_new = \<lparr> bs_signer_bitmap = replicate 1024 0, bs_count = 0, bs_signature_root = replicate 32 0,
     bs_compressed_data = [], bs_signature_hashes = [], bs_signature_lengths = [] \<rparr>"

definition update_root :: "(bytes \<Rightarrow> hash) \<Rightarrow> batch_signature \<Rightarrow> batch_signature" where
  "update_root sha3 s =
    (if bs_signature_hashes s = [] then s\<lparr>bs_signature_root := replicate 32 0\<rparr>
     else s\<lparr>bs_signature_root := merkle_root sha3 (bs_signature_hashes s)\<rparr>)"

text \<open>A signature against the first one: the common prefix is xored, the rest kept.\<close>

definition delta_encode :: "nat \<Rightarrow> bytes \<Rightarrow> bytes \<Rightarrow> bytes" where
  "delta_encode first_sig_len compressed_data signature =
    (let base_len = min first_sig_len (length signature);
         delta = map (\<lambda>(a, b). a XOR b) (zip (take base_len signature) (take base_len compressed_data))
     in delta @ drop base_len signature)"

definition batch_add_signature ::
  "(bytes \<Rightarrow> hash) \<Rightarrow> u32 \<Rightarrow> bytes \<Rightarrow> batch_signature \<Rightarrow> (crypto_error + unit) \<times> batch_signature" where
  "batch_add_signature sha3 signer_index signature s =
    (if unat (bs_count s) \<ge> MAX_AGGREGATED_SIGNATURES
     then (Inl (KeyGenerationFailed ''Max aggregated signatures reached''), s) else
     let byte_index = unat (signer_index div 8); bit_index = unat (signer_index mod 8) in
     if byte_index \<ge> length (bs_signer_bitmap s)
     then (Inl (KeyGenerationFailed ''Signer index out of range''), s) else
     if drop_bit bit_index (bs_signer_bitmap s ! byte_index) AND 1 = 1
     then (Inl (KeyGenerationFailed ''Signer already added''), s) else
     let s = s\<lparr>bs_signer_bitmap := (bs_signer_bitmap s)
               [byte_index := (bs_signer_bitmap s ! byte_index) OR push_bit bit_index 1]\<rparr>;
         s = s\<lparr>bs_signature_hashes := bs_signature_hashes s @ [sha3 signature],
               bs_signature_lengths := bs_signature_lengths s @ [length signature]\<rparr> in
     if bs_compressed_data s = [] then
       if length signature > MAX_COMPRESSED_DATA_SIZE
       then (Inl (KeyGenerationFailed ''Signature too large''), s)
       else (Inr (), update_root sha3 (s\<lparr>bs_compressed_data := signature, bs_count := bs_count s + 1\<rparr>))
     else
       if length (bs_compressed_data s) + length signature > MAX_COMPRESSED_DATA_SIZE
       then (Inl (KeyGenerationFailed ''Compressed data size limit exceeded''), s)
       else (Inr (), update_root sha3
         (s\<lparr>bs_compressed_data := bs_compressed_data s @
              delta_encode (bs_signature_lengths s ! 0) (bs_compressed_data s) signature,
            bs_count := bs_count s + 1\<rparr>)))"

definition batch_len :: "batch_signature \<Rightarrow> nat" where
  "batch_len s = unat (bs_count s)"

definition batch_is_empty :: "batch_signature \<Rightarrow> bool" where
  "batch_is_empty s \<longleftrightarrow> bs_count s = 0"

definition batch_get_signers :: "batch_signature \<Rightarrow> u32 list" where
  "batch_get_signers s =
    concat (map (\<lambda>byte_idx. map (\<lambda>bit_idx. of_nat (byte_idx * 8 + bit_idx))
        (filter (\<lambda>bit_idx. drop_bit bit_idx (bs_signer_bitmap s ! byte_idx) AND 1 = 1) [0..<8]))
      [0..<length (bs_signer_bitmap s)])"

definition batch_has_signed :: "batch_signature \<Rightarrow> u32 \<Rightarrow> bool" where
  "batch_has_signed s index =
    (let byte_index = unat (index div 8); bit_index = unat (index mod 8) in
     if byte_index \<ge> length (bs_signer_bitmap s) then False
     else drop_bit bit_index (bs_signer_bitmap s ! byte_index) AND 1 = 1)"

section \<open>Collecting\<close>

record batch_aggregator =
  ba_pending :: "hash \<rightharpoonup> (u32 \<times> bytes) list"
  ba_threshold :: nat

definition batch_aggregator_new :: "nat \<Rightarrow> batch_aggregator" where
  "batch_aggregator_new threshold = \<lparr> ba_pending = Map.empty, ba_threshold = threshold \<rparr>"

definition batch_add :: "hash \<Rightarrow> u32 \<Rightarrow> bytes \<Rightarrow> batch_aggregator \<Rightarrow> batch_aggregator" where
  "batch_add message_hash signer_index signature a =
    a\<lparr>ba_pending := (ba_pending a)(message_hash \<mapsto>
        unwrap_or (ba_pending a message_hash) [] @ [(signer_index, signature)])\<rparr>"

text \<open>A signature that is refused is skipped.\<close>

fun add_all :: "(bytes \<Rightarrow> hash) \<Rightarrow> (u32 \<times> bytes) list \<Rightarrow> batch_signature \<Rightarrow> batch_signature" where
  "add_all sha3 [] s = s"
| "add_all sha3 ((index, sig) # sigs) s = add_all sha3 sigs (snd (batch_add_signature sha3 index sig s))"

fun aggregate_each ::
  "(bytes \<Rightarrow> hash) \<Rightarrow> hash list \<Rightarrow> batch_aggregator \<Rightarrow> (hash \<times> batch_signature) list \<times> batch_aggregator" where
  "aggregate_each sha3 [] a = ([], a)"
| "aggregate_each sha3 (h # hs) a =
    (case ba_pending a h of
       None \<Rightarrow> aggregate_each sha3 hs a
     | Some sigs \<Rightarrow>
         (let (rest, a) = aggregate_each sha3 hs (a\<lparr>ba_pending := (ba_pending a)(h := None)\<rparr>)
          in ((h, add_all sha3 sigs batch_new) # rest, a)))"

definition aggregate_ready ::
  "(bytes \<Rightarrow> hash) \<Rightarrow> (hash set \<Rightarrow> hash list) \<Rightarrow> batch_aggregator \<Rightarrow>
    (hash \<times> batch_signature) list \<times> batch_aggregator" where
  "aggregate_ready sha3 iter a =
    aggregate_each sha3
      (filter (\<lambda>h. case ba_pending a h of Some sigs \<Rightarrow> length sigs \<ge> ba_threshold a | None \<Rightarrow> False)
        (iter (dom (ba_pending a)))) a"

definition batch_clear :: "batch_aggregator \<Rightarrow> batch_aggregator" where
  "batch_clear a = a\<lparr>ba_pending := Map.empty\<rparr>"

section \<open>Decompression and verification\<close>

fun decompress_rest :: "nat \<Rightarrow> bytes \<Rightarrow> nat \<Rightarrow> nat list \<Rightarrow> crypto_error + bytes list" where
  "decompress_rest first_sig_len data offset [] = Inr []"
| "decompress_rest first_sig_len data offset (sig_len # lens) =
    (if offset + sig_len > length data then Inl InvalidSignature else
     let base_len = min first_sig_len sig_len;
         decompressed = map (\<lambda>i. (data ! i) XOR (data ! (offset + i))) [0..<base_len] @
           take (sig_len - base_len) (drop (offset + base_len) data)
     in case decompress_rest first_sig_len data (offset + sig_len) lens of
          Inl e \<Rightarrow> Inl e
        | Inr sigs \<Rightarrow> Inr (decompressed # sigs))"

definition decompress_signatures :: "batch_signature \<Rightarrow> crypto_error + bytes list" where
  "decompress_signatures s =
    (case bs_signature_lengths s of
       [] \<Rightarrow> Inr []
     | first_sig_len # lens \<Rightarrow>
         if length (bs_compressed_data s) < first_sig_len then Inl InvalidSignature else
         (case decompress_rest first_sig_len (bs_compressed_data s) first_sig_len lens of
            Inl e \<Rightarrow> Inl e
          | Inr sigs \<Rightarrow> Inr (take first_sig_len (bs_compressed_data s) # sigs)))"

definition verify_aggregated_signature ::
  "(bytes \<Rightarrow> bytes \<Rightarrow> bytes \<Rightarrow> string + bool) \<Rightarrow> batch_signature \<Rightarrow> bytes \<Rightarrow> bytes list \<Rightarrow> u32 list \<Rightarrow>
    crypto_error + bool" where
  "verify_aggregated_signature verify s message public_keys signer_indices =
    (if \<not> list_all (batch_has_signed s) signer_indices then Inr False else
     if unat (bs_count s) \<noteq> length signer_indices then Inr False else
     if length public_keys \<noteq> length signer_indices then Inr False else
     case decompress_signatures s of
       Inl e \<Rightarrow> Inl e
     | Inr signatures \<Rightarrow>
         if length signatures \<noteq> length signer_indices then Inr False
         else Inr (list_all (\<lambda>(sig, pubkey). verify_one verify (pubkey, message, sig)) (zip signatures public_keys)))"

section \<open>Lemmas\<close>

text \<open>A batch that holds exactly the signatures \<open>sigs\<close>.\<close>

definition delta :: "bytes \<Rightarrow> bytes \<Rightarrow> bytes" where
  "delta first x = delta_encode (length first) first x"

definition holds :: "(bytes \<Rightarrow> hash) \<Rightarrow> bytes list \<Rightarrow> batch_signature \<Rightarrow> bool" where
  "holds sha3 sigs s \<longleftrightarrow> bs_signature_lengths s = map length sigs \<and> unat (bs_count s) = length sigs \<and>
    length sigs \<le> MAX_AGGREGATED_SIGNATURES \<and>
    bs_signature_hashes s = map sha3 sigs \<and> bs_signature_root s = merkle_root sha3 (map sha3 sigs) \<and>
    bs_compressed_data s = (case sigs of [] \<Rightarrow> [] | x # xs \<Rightarrow> x @ concat (map (delta x) xs))"

lemma length_delta [simp]: "length (delta x y) = length y"
  by (simp add: delta_def delta_encode_def Let_def min_def)

lemma delta_Nil [simp]: "delta [] y = y"
  by (simp add: delta_def delta_encode_def)

lemma delta_eq_Nil [simp]: "delta x y = [] \<longleftrightarrow> y = []"
  by (metis length_0_conv length_delta)

lemma delta_encode_prefix: "delta_encode (length x) (x @ r) y = delta x y"
  by (simp add: delta_def delta_encode_def Let_def)

lemma holds_new: "holds sha3 [] batch_new"
  by (simp add: holds_def batch_new_def merkle_root_def)

lemma holds_add:
  assumes h: "holds sha3 sigs s" and ok: "batch_add_signature sha3 i y s = (Inr (), s')"
  shows "holds sha3 (sigs @ [y]) s'"
proof -
  have n: "length sigs < 1000" and cnt: "unat (bs_count s) = length sigs"
    using ok h by (auto simp: batch_add_signature_def holds_def MAX_AGGREGATED_SIGNATURES_def Let_def split: if_splits)
  then have "unat (bs_count s + 1) = Suc (length sigs)"
    by (subst unat_add_no_overflow) simp_all
  moreover have "bs_compressed_data s' = (case sigs @ [y] of [] \<Rightarrow> [] | x # xs \<Rightarrow> x @ concat (map (delta x) xs))"
  proof (cases sigs)
    case Nil
    with h have "bs_compressed_data s = []" by (simp add: holds_def)
    with ok Nil show ?thesis
      by (auto simp: batch_add_signature_def update_root_def Let_def split: if_splits)
  next
    case (Cons x xs)
    with h have d: "bs_compressed_data s = x @ concat (map (delta x) xs)" "bs_signature_lengths s = length x # map length xs"
      by (simp_all add: holds_def)
    show ?thesis
    proof (cases "bs_compressed_data s = []")
      case True
      then have "x = []" using d by simp
      moreover have "\<forall>y \<in> set xs. y = []" using True d by simp
      ultimately have "x = []" "concat xs = []" by simp_all
      with ok True Cons show ?thesis
        by (auto simp: batch_add_signature_def update_root_def Let_def split: if_splits)
    next
      case False
      with ok d Cons show ?thesis
        by (auto simp: batch_add_signature_def update_root_def Let_def delta_encode_prefix split: if_splits)
    qed
  qed
  ultimately show ?thesis
    using ok h n
    by (auto simp: holds_def batch_add_signature_def update_root_def Let_def MAX_AGGREGATED_SIGNATURES_def
        split: if_splits)
qed

lemma xor_delta:
  assumes "i < min (length x) (length y)"
  shows "(x ! i) XOR (delta x y ! i) = y ! i"
proof -
  have "delta x y ! i = (y ! i) XOR (x ! i)"
    using assms by (simp add: delta_def delta_encode_def Let_def nth_append)
  then show ?thesis by (intro bit_word_eqI) (auto simp: bit_xor_iff)
qed

lemma drop_delta: "drop (min (length x) (length y)) (delta x y) = drop (min (length x) (length y)) y"
  by (simp add: delta_def delta_encode_def Let_def min_def)

lemma decompress_one:
  assumes "data = x @ before @ delta x y @ after"
  shows "map (\<lambda>i. (data ! i) XOR (data ! (length x + length before + i))) [0..<min (length x) (length y)] @
    take (length y - min (length x) (length y)) (drop (length x + length before + min (length x) (length y)) data) = y"
proof -
  let ?m = "min (length x) (length y)"
  have "map (\<lambda>i. (data ! i) XOR (data ! (length x + length before + i))) [0..<?m] = take ?m y"
    by (rule nth_equalityI) (auto simp: assms nth_append xor_delta [of _ x y])
  moreover have "take (length y - ?m) (drop (length x + length before + ?m) data) = drop ?m y"
    by (simp add: assms drop_delta)
  ultimately show ?thesis by simp
qed

lemma decompress_rest_deltas:
  "data = x @ before @ concat (map (delta x) xs) \<Longrightarrow>
    decompress_rest (length x) data (length x + length before) (map length xs) = Inr xs"
proof (induction xs arbitrary: before)
  case (Cons y ys)
  have "decompress_rest (length x) data (length x + length (before @ delta x y)) (map length ys) = Inr ys"
    using Cons.prems by (intro Cons.IH) simp
  moreover have "length x + length before + length y \<le> length data" using Cons.prems by simp
  ultimately show ?case
    using decompress_one [of data x before y "concat (map (delta x) ys)"] Cons.prems
    by (simp add: Let_def add.assoc)
qed simp

lemma decompress_holds: "holds sha3 sigs s \<Longrightarrow> decompress_signatures s = Inr sigs"
  using decompress_rest_deltas [of "bs_compressed_data s" "hd sigs" "[]" "tl sigs"]
  by (cases sigs) (auto simp: holds_def decompress_signatures_def)

fun add_checked :: "(bytes \<Rightarrow> hash) \<Rightarrow> (u32 \<times> bytes) list \<Rightarrow> batch_signature \<Rightarrow> batch_signature option" where
  "add_checked sha3 [] s = Some s"
| "add_checked sha3 ((i, y) # sigs) s =
    (case batch_add_signature sha3 i y s of
       (Inl _, _) \<Rightarrow> None
     | (Inr _, s) \<Rightarrow> add_checked sha3 sigs s)"

lemma add_checked_holds:
  "holds sha3 ys s \<Longrightarrow> add_checked sha3 sigs s = Some s' \<Longrightarrow> holds sha3 (ys @ map snd sigs) s'"
proof (induction sigs arbitrary: ys s)
  case (Cons q sigs)
  obtain i y where q: "q = (i, y)" by fastforce
  obtain s1 where s1: "batch_add_signature sha3 i y s = (Inr (), s1)" "add_checked sha3 sigs s1 = Some s'"
    using Cons.prems(2) q by (auto split: prod.splits sum.splits)
  from Cons.IH [OF holds_add [OF Cons.prems(1) s1(1)] s1(2)] q show ?case by simp
qed simp

section \<open>Properties\<close>

text \<open>Signatures added one after the other to a new batch, each of them accepted, are recovered
  unchanged and in order by decompression, for every choice of lengths, and the batch counts them and
  commits to their hashes.\<close>

theorem batch_roundtrip:
  assumes "add_checked sha3 sigs batch_new = Some s"
  shows "decompress_signatures s = Inr (map snd sigs) \<and> batch_len s = length sigs \<and>
    bs_signature_root s = merkle_root sha3 (map (sha3 \<circ> snd) sigs)"
proof -
  have h: "holds sha3 (map snd sigs) s"
    using add_checked_holds [OF holds_new [of sha3] assms] by simp
  then show ?thesis using decompress_holds [OF h] by (simp add: holds_def batch_len_def)
qed

theorem batch_roundtrip_witness:
  "\<exists>s. add_checked (take 32) [(0, [1, 2, 3]), (5, [1, 7]), (9, [4, 4, 4, 4])] batch_new = Some s \<and>
    decompress_signatures s = Inr [[1, 2, 3], [1, 7], [4, 4, 4, 4]]"
proof -
  have "\<exists>s. add_checked (take 32) [(0, [1, 2, 3]), (5, [1, 7]), (9, [4, 4, 4, 4])] batch_new = Some s"
    by (simp add: batch_add_signature_def batch_new_def update_root_def MAX_AGGREGATED_SIGNATURES_def
        MAX_COMPRESSED_DATA_SIZE_def delta_encode_def Let_def)
  then obtain s where s: "add_checked (take 32) [(0, [1, 2, 3]), (5, [1, 7]), (9, [4, 4, 4, 4])] batch_new = Some s"
    by blast
  from batch_roundtrip [OF s] s show ?thesis by simp
qed

end
