(* ===== verification/Finality.thy ===== *)
theory Finality
  imports DAG Aggregation
begin

text \<open>
  Checkpoints and their finalization (\<open>types/checkpoint.rs\<close>, \<open>consensus/finality.rs\<close>): a checkpoint
  is created from the tips of the DAG, collects signatures of validators and is finalized, with
  everything reachable from its tips, once the signed stake passes two thirds.

  SHA3-256, ML-DSA-65 and the serialization of the compact signature are parameters, gathered in the
  record \<open>finality_env\<close> (\<open>fe_debug\<close> is the debug rendering of an error of the verification whose
  display text is given); the failures of the database are the arguments \<open>disk\<close> and \<open>put_error\<close> of
  a call.
\<close>

section \<open>Checkpoints\<close>

record checkpoint =
  cp_epoch :: u64
  cp_slot :: u64
  cp_state_root :: hash
  cp_dag_root :: hash
  cp_vertex_count :: u64
  cp_transaction_count :: u64
  cp_validators :: "address list"
  cp_signature :: bytes
  cp_timestamp :: u64
  cp_previous_checkpoint :: hash

definition MAX_CHECKPOINT_VALIDATORS :: nat where "MAX_CHECKPOINT_VALIDATORS = 1000"
definition MAX_FINALITY_SIGNATURES :: nat where "MAX_FINALITY_SIGNATURES = 1000"

definition checkpoint_new ::
  "u64 \<Rightarrow> u64 \<Rightarrow> u64 \<Rightarrow> hash \<Rightarrow> hash \<Rightarrow> u64 \<Rightarrow> u64 \<Rightarrow> hash \<Rightarrow> checkpoint" where
  "checkpoint_new now epoch slot state_root dag_root vertex_count transaction_count previous =
    \<lparr> cp_epoch = epoch, cp_slot = slot, cp_state_root = state_root, cp_dag_root = dag_root,
      cp_vertex_count = vertex_count, cp_transaction_count = transaction_count, cp_validators = [],
      cp_signature = [], cp_timestamp = now, cp_previous_checkpoint = previous \<rparr>"

definition checkpoint_add_validator :: "address \<Rightarrow> checkpoint \<Rightarrow> (string + unit) \<times> checkpoint" where
  "checkpoint_add_validator a c =
    (if length (cp_validators c) \<ge> MAX_CHECKPOINT_VALIDATORS
     then (Inl (''Checkpoint validator limit reached: '' @ decimal MAX_CHECKPOINT_VALIDATORS), c) else
     if a \<in> set (cp_validators c) then (Inl ''Validator already in checkpoint'', c)
     else (Inr (), c\<lparr>cp_validators := cp_validators c @ [a]\<rparr>))"

definition checkpoint_preimage :: "checkpoint \<Rightarrow> bytes" where
  "checkpoint_preimage c =
    to_le_bytes (cp_epoch c) @ to_le_bytes (cp_slot c) @ cp_state_root c @ cp_dag_root c @
    to_le_bytes (cp_vertex_count c) @ to_le_bytes (cp_transaction_count c) @
    cp_previous_checkpoint c @ to_le_bytes (cp_timestamp c)"

definition checkpoint_hash :: "(bytes \<Rightarrow> hash) \<Rightarrow> checkpoint \<Rightarrow> hash" where
  "checkpoint_hash hash_data c = hash_data (checkpoint_preimage c)"

definition checkpoint_signing_data :: "(bytes \<Rightarrow> hash) \<Rightarrow> checkpoint \<Rightarrow> bytes" where
  "checkpoint_signing_data hash_data c = with_domain DOMAIN_CHECKPOINT (checkpoint_hash hash_data c)"

definition checkpoint_genesis :: checkpoint where
  "checkpoint_genesis =
    \<lparr> cp_epoch = 0, cp_slot = 0, cp_state_root = replicate 32 0, cp_dag_root = replicate 32 0,
      cp_vertex_count = 0, cp_transaction_count = 0, cp_validators = [], cp_signature = [],
      cp_timestamp = 0, cp_previous_checkpoint = replicate 32 0 \<rparr>"

record validator_signature =
  sg_validator :: address
  sg_signature :: bytes
  sg_timestamp :: u64

definition validator_signature_new :: "u64 \<Rightarrow> address \<Rightarrow> bytes \<Rightarrow> validator_signature" where
  "validator_signature_new now validator signature =
    \<lparr> sg_validator = validator, sg_signature = signature, sg_timestamp = now \<rparr>"

record finality_proof =
  fp_checkpoint :: checkpoint
  fp_signatures :: "validator_signature list"
  fp_total_stake_signed :: u128
  fp_stake_threshold :: u128

definition finality_proof_new :: "checkpoint \<Rightarrow> u128 \<Rightarrow> finality_proof" where
  "finality_proof_new c threshold =
    \<lparr> fp_checkpoint = c, fp_signatures = [], fp_total_stake_signed = 0, fp_stake_threshold = threshold \<rparr>"

definition proof_add_signature ::
  "(bytes \<Rightarrow> hash) \<Rightarrow> (bytes \<Rightarrow> bytes \<Rightarrow> bytes \<Rightarrow> 'e + bool) \<Rightarrow> ('e \<Rightarrow> string) \<Rightarrow>
    validator_signature \<Rightarrow> u128 \<Rightarrow> bytes \<Rightarrow> finality_proof \<Rightarrow> (string + unit) \<times> finality_proof" where
  "proof_add_signature hash_data verify debug sig stake validator_pubkey p =
    (if length (fp_signatures p) \<ge> MAX_FINALITY_SIGNATURES
     then (Inl (''Finality proof signature limit reached: '' @ decimal MAX_FINALITY_SIGNATURES), p) else
     if list_ex (\<lambda>s. sg_validator s = sg_validator sig) (fp_signatures p)
     then (Inl ''Duplicate validator signature'', p) else
     case verify validator_pubkey (checkpoint_signing_data hash_data (fp_checkpoint p)) (sg_signature sig) of
       Inr True \<Rightarrow>
         (Inr (), p\<lparr>fp_signatures := fp_signatures p @ [sig],
                    fp_total_stake_signed := saturating_add (fp_total_stake_signed p) stake\<rparr>)
     | Inr False \<Rightarrow> (Inl ''Invalid finality signature: verification failed'', p)
     | Inl e \<Rightarrow> (Inl (''Signature verification error: '' @ debug e), p))"

definition is_finalized :: "finality_proof \<Rightarrow> bool" where
  "is_finalized p \<longleftrightarrow> fp_total_stake_signed p \<ge> fp_stake_threshold p"

record committee_info =
  ci_committee_id :: u16
  ci_shard_id :: u16
  ci_validators :: "address list"
  ci_total_stake :: u128

record epoch_info =
  ei_epoch :: u64
  ei_start_slot :: u64
  ei_end_slot :: u64
  ei_validator_set_hash :: hash
  ei_total_stake :: u128
  ei_committees :: "committee_info list"

definition info_quorum_threshold :: "committee_info \<Rightarrow> u128" where
  "info_quorum_threshold c = ci_total_stake c * 2 div 3 + 1"

section \<open>The finality layer\<close>

record finality_env =
  fe_hash :: "bytes \<Rightarrow> hash"
  fe_verify :: verify_fn
  fe_debug :: "string \<Rightarrow> string"
  fe_serialize :: "compact_block_signature \<Rightarrow> bytes option"

record pending_checkpoint =
  pc_checkpoint :: checkpoint
  pc_dag_tips :: "hash list"
  pc_signatures :: "validator_signature list"
  pc_signers :: "address set"
  pc_total_stake_signed :: u128

text \<open>The fields \<open>fl_stored_*\<close> and \<open>fl_latest\<close> are the database columns the layer writes,
  \<open>fl_state_roots\<close> the one it reads.\<close>

record finality =
  fl_dag :: dag
  fl_committee_manager :: committee_manager
  fl_pending :: "hash \<rightharpoonup> pending_checkpoint"
  fl_finalized :: "checkpoint list"
  fl_checkpoint_interval :: u64
  fl_last_checkpoint_slot :: u64
  fl_num_shards :: u16
  fl_state_roots :: "u64 \<rightharpoonup> hash"
  fl_stored :: "u64 \<times> u64 \<rightharpoonup> checkpoint"
  fl_stored_by_hash :: "hash \<rightharpoonup> checkpoint"
  fl_latest :: "checkpoint option"

definition finality_new ::
  "(u64 \<rightharpoonup> hash) \<Rightarrow> (u64 \<times> u64 \<rightharpoonup> checkpoint) \<Rightarrow> (hash \<rightharpoonup> checkpoint) \<Rightarrow> checkpoint option \<Rightarrow>
    dag \<Rightarrow> committee_manager \<Rightarrow> u64 \<Rightarrow> u16 \<Rightarrow> finality" where
  "finality_new state_roots stored by_hash latest d cm interval num_shards =
    \<lparr> fl_dag = d, fl_committee_manager = cm, fl_pending = Map.empty, fl_finalized = [],
      fl_checkpoint_interval = interval, fl_last_checkpoint_slot = 0, fl_num_shards = num_shards,
      fl_state_roots = state_roots, fl_stored = stored, fl_stored_by_hash = by_hash, fl_latest = latest \<rparr>"

definition collect_dag_state :: "finality \<Rightarrow> hash list" where
  "collect_dag_state f = concat (map (\<lambda>i. get_tips (of_nat i) (fl_dag f)) [0..<unat (fl_num_shards f)])"

definition count_transactions_since_last_checkpoint :: "finality \<Rightarrow> u64" where
  "count_transactions_since_last_checkpoint f = 0"

definition create_checkpoint ::
  "finality_env \<Rightarrow> u64 \<Rightarrow> string option \<Rightarrow> u64 \<Rightarrow> finality \<Rightarrow> (consensus_error + checkpoint) \<times> finality" where
  "create_checkpoint env now read_err slot f =
    (let epoch = slot div 32;
         previous = (if fl_finalized f = [] then replicate 32 0
                     else checkpoint_hash (fe_hash env) (last (fl_finalized f)));
         dag_tips = collect_dag_state f;
         dag_root = merkle_root (fe_hash env) dag_tips in
     case read_err of
       Some e \<Rightarrow> (Inl (StorageError e), f)
     | None \<Rightarrow>
         (let state_root = unwrap_or (fl_state_roots f slot) (replicate 32 0);
              c = checkpoint_new now epoch slot state_root dag_root
                    (of_nat (dg_vertex_count (fl_dag f))) (count_transactions_since_last_checkpoint f) previous
          in (Inr c, f\<lparr>fl_pending := (fl_pending f)(checkpoint_hash (fe_hash env) c \<mapsto>
                \<lparr> pc_checkpoint = c, pc_dag_tips = dag_tips, pc_signatures = [], pc_signers = {},
                  pc_total_stake_signed = 0 \<rparr>)\<rparr>)))"

definition maybe_create_checkpoint ::
  "finality_env \<Rightarrow> u64 \<Rightarrow> string option \<Rightarrow> u64 \<Rightarrow> finality \<Rightarrow>
    (consensus_error + checkpoint option) \<times> finality" where
  "maybe_create_checkpoint env now read_err current_slot f =
    (if current_slot - fl_last_checkpoint_slot f < fl_checkpoint_interval f then (Inr None, f) else
     let (r, f) = create_checkpoint env now read_err current_slot f in
     or_return r f (\<lambda>c. (Inr (Some c), f\<lparr>fl_last_checkpoint_slot := current_slot\<rparr>)))"

text \<open>\<open>sign_checkpoint\<close>: the key pair is given by its public key and its signing function.\<close>

definition sign_checkpoint ::
  "finality_env \<Rightarrow> u64 \<Rightarrow> hash \<Rightarrow> address \<Rightarrow> bytes \<Rightarrow> (bytes \<Rightarrow> string + bytes) \<Rightarrow> finality \<Rightarrow>
    consensus_error + validator_signature" where
  "sign_checkpoint env now key validator public_key sign f =
    (case fl_pending f key of
       None \<Rightarrow> Inl CheckpointVerificationFailed
     | Some p \<Rightarrow>
         (case get_validator validator (cm_validator_set (fl_committee_manager f)) of
            None \<Rightarrow> Inl (InvalidValidator (''Validator '' @ debug_bytes validator @ '' not found''))
          | Some v \<Rightarrow>
              if val_finality_public_key v \<noteq> public_key
              then Inl (Unauthorized (''Finality public key mismatch for validator '' @ debug_bytes validator))
              else (case sign (checkpoint_signing_data (fe_hash env) (pc_checkpoint p)) of
                 Inl e \<Rightarrow> Inl (CryptoError e)
               | Inr signature \<Rightarrow> Inr (validator_signature_new now validator signature))))"

section \<open>Finalization\<close>

text \<open>The signers of a pending checkpoint in the order of the validator set: index, key, signature.\<close>

definition signer_entries :: "pending_checkpoint \<Rightarrow> validator list \<Rightarrow> (nat \<times> bytes \<times> bytes) list" where
  "signer_entries p vs =
    List.map_filter (\<lambda>(i, v).
        if val_address v \<in> pc_signers p
        then map_option (\<lambda>s. (i, val_finality_public_key v, sg_signature s))
               (find (\<lambda>s. sg_validator s = val_address v) (pc_signatures p))
        else None)
      (zip [0..<length vs] vs)"

definition compact_signature ::
  "finality_env \<Rightarrow> pending_checkpoint \<Rightarrow> validator list \<Rightarrow> checkpoint \<Rightarrow> bytes" where
  "compact_signature env p vs c =
    (let entries = signer_entries p vs;
         raw_sigs = map (\<lambda>(i, pk, s). s) entries;
         public_keys = map (\<lambda>(i, pk, s). pk) entries;
         signer_indices = map (\<lambda>(i, pk, s). i) entries
     in if raw_sigs = [] then cp_signature c else
        case aggregate (fe_hash env) (length vs) raw_sigs public_keys (checkpoint_signing_data (fe_hash env) c) of
          Inl _ \<Rightarrow> cp_signature c
        | Inr agg \<Rightarrow>
            (case fe_serialize env (compact (fe_hash env) agg (length vs) signer_indices) of
               Some data \<Rightarrow> data
             | None \<Rightarrow> cp_signature c))"

definition sealed_checkpoint :: "finality_env \<Rightarrow> pending_checkpoint \<Rightarrow> validator list \<Rightarrow> checkpoint" where
  "sealed_checkpoint env p vs =
    (let c = (pc_checkpoint p)\<lparr>cp_validators := map sg_validator (pc_signatures p)\<rparr>
     in c\<lparr>cp_signature := compact_signature env p vs c\<rparr>)"

text \<open>\<open>put_checkpoint\<close> of the storage: one batch for the three keys.\<close>

definition put_checkpoint ::
  "finality_env \<Rightarrow> string option \<Rightarrow> checkpoint \<Rightarrow> finality \<Rightarrow> (consensus_error + unit) \<times> finality" where
  "put_checkpoint env put_error c f =
    (case put_error of
       Some e \<Rightarrow> (Inl (StorageError e), f)
     | None \<Rightarrow> (Inr (), f\<lparr>fl_stored := (fl_stored f)((cp_epoch c, cp_slot c) \<mapsto> c),
         fl_stored_by_hash := (fl_stored_by_hash f)(checkpoint_hash (fe_hash env) c \<mapsto> c),
         fl_latest := Some c\<rparr>))"

definition mark_vertices_finalized ::
  "disk \<Rightarrow> hash list \<Rightarrow> finality \<Rightarrow> (consensus_error + unit) \<times> finality" where
  "mark_vertices_finalized d dag_tips f =
    (let (r, g) = finalize_reachable_from_tips d dag_tips (fl_dag f);
         f = f\<lparr>fl_dag := g\<rparr> in
     case r of
       Inl e \<Rightarrow> (Inl (StorageError (dag_error_string e)), f)
     | Inr _ \<Rightarrow> (Inr (), f))"

record finalized_checkpoint =
  fc_checkpoint :: checkpoint
  fc_signatures :: "validator_signature list"

definition finalize_checkpoint ::
  "finality_env \<Rightarrow> disk \<Rightarrow> string option \<Rightarrow> hash \<Rightarrow> finality \<Rightarrow>
    (consensus_error + finalized_checkpoint) \<times> finality" where
  "finalize_checkpoint env d put_error key f =
    (case fl_pending f key of
       None \<Rightarrow> (Inl (InvalidData ''pending checkpoint missing during finalization''), f)
     | Some p \<Rightarrow>
         (let f = f\<lparr>fl_pending := (fl_pending f)(key := None)\<rparr>;
              vs = vs_validators (cm_validator_set (fl_committee_manager f));
              c = sealed_checkpoint env p vs;
              (r, f) = put_checkpoint env put_error c f in
          or_return r f (\<lambda>_.
          let f = f\<lparr>fl_finalized := fl_finalized f @ [c]\<rparr>;
              (r, f) = mark_vertices_finalized d (pc_dag_tips p) f in
          or_return r f (\<lambda>_.
          (Inr \<lparr> fc_checkpoint = c, fc_signatures = pc_signatures p \<rparr>, f)))))"

definition finality_threshold :: "validator_set \<Rightarrow> u128" where
  "finality_threshold s = total_active_stake s * 2 div 3 + 1"

text \<open>The checks of \<open>receive_checkpoint_signature\<close> before a signature is counted.\<close>

definition check_signature ::
  "finality_env \<Rightarrow> validator_set \<Rightarrow> pending_checkpoint \<Rightarrow> validator_signature \<Rightarrow> consensus_error + validator" where
  "check_signature env vset p sig =
    (case get_validator (sg_validator sig) vset of
       None \<Rightarrow> Inl (InvalidValidator
         (''Validator '' @ debug_bytes (sg_validator sig) @ '' not found for checkpoint signature''))
     | Some v \<Rightarrow>
         if \<not> val_active v \<or> val_jailed v
         then Inl (Unauthorized
           (''Validator '' @ debug_bytes (sg_validator sig) @ '' is not active in the finality set'')) else
         if val_finality_public_key v = []
         then Inl (InvalidValidator
           (''Validator '' @ debug_bytes (sg_validator sig) @ '' has no registered finality public key'')) else
         (case fe_verify env (val_finality_public_key v)
                 (checkpoint_signing_data (fe_hash env) (pc_checkpoint p)) (sg_signature sig) of
            Inl e \<Rightarrow> Inl (CryptoError e)
          | Inr False \<Rightarrow> Inl (Unauthorized
              (''Invalid checkpoint signature from validator '' @ debug_bytes (sg_validator sig)))
          | Inr True \<Rightarrow> Inr v))"

definition receive_checkpoint_signature ::
  "finality_env \<Rightarrow> disk \<Rightarrow> string option \<Rightarrow> hash \<Rightarrow> validator_signature \<Rightarrow> finality \<Rightarrow>
    (consensus_error + finalized_checkpoint option) \<times> finality" where
  "receive_checkpoint_signature env d put_error key sig f =
    (case fl_pending f key of
       None \<Rightarrow> (Inr None, f)
     | Some p \<Rightarrow>
         if sg_validator sig \<in> pc_signers p then (Inr None, f) else
         let vset = cm_validator_set (fl_committee_manager f) in
         or_return (check_signature env vset p sig) f (\<lambda>v.
         let p = p\<lparr>pc_signers := insert (sg_validator sig) (pc_signers p),
                   pc_signatures := pc_signatures p @ [sig]\<rparr> in
         case checked_add (pc_total_stake_signed p) (effective_stake v) of
           None \<Rightarrow> (Inl (ArithmeticOverflow ''Checkpoint signed stake overflow''),
             f\<lparr>fl_pending := (fl_pending f)(key \<mapsto> p)\<rparr>)
         | Some stake \<Rightarrow>
             (let p = p\<lparr>pc_total_stake_signed := stake\<rparr>;
                  f = f\<lparr>fl_pending := (fl_pending f)(key \<mapsto> p)\<rparr> in
              if pc_total_stake_signed p \<ge> finality_threshold vset
              then (let (r, f) = finalize_checkpoint env d put_error key f in
                    or_return r f (\<lambda>c. (Inr (Some c), f)))
              else (Inr None, f))))"

section \<open>Proofs of finality\<close>

fun add_proof_signatures ::
  "finality_env \<Rightarrow> validator_set \<Rightarrow> validator_signature list \<Rightarrow> finality_proof \<Rightarrow> finality_proof" where
  "add_proof_signatures env vset [] p = p"
| "add_proof_signatures env vset (sig # sigs) p =
    (let (stake, pubkey) =
       (case get_validator (sg_validator sig) vset of
          Some v \<Rightarrow> (effective_stake v, val_finality_public_key v)
        | None \<Rightarrow> (0, []))
     in add_proof_signatures env vset sigs
          (snd (proof_add_signature (fe_hash env) (fe_verify env) (fe_debug env) sig stake pubkey p)))"

definition create_finality_proof :: "finality_env \<Rightarrow> checkpoint \<Rightarrow> finality \<Rightarrow> consensus_error + finality_proof" where
  "create_finality_proof env c f =
    (let vset = cm_validator_set (fl_committee_manager f) in
     case fl_pending f (checkpoint_hash (fe_hash env) c) of
       None \<Rightarrow> Inl CheckpointVerificationFailed
     | Some p \<Rightarrow>
         Inr (add_proof_signatures env vset (pc_signatures p)
           (finality_proof_new c (finality_threshold vset))))"

fun verify_proof_loop ::
  "finality_env \<Rightarrow> validator_set \<Rightarrow> bytes \<Rightarrow> validator_signature list \<Rightarrow> address set \<Rightarrow> u128 \<Rightarrow>
    consensus_error + u128 option" where
  "verify_proof_loop env vset data [] seen signed_stake = Inr (Some signed_stake)"
| "verify_proof_loop env vset data (sig # sigs) seen signed_stake =
    (if sg_validator sig \<in> seen then Inr None else
     case get_validator (sg_validator sig) vset of
       None \<Rightarrow> Inr None
     | Some v \<Rightarrow>
         if \<not> val_active v \<or> val_jailed v \<or> val_finality_public_key v = [] then Inr None else
         (case fe_verify env (val_finality_public_key v) data (sg_signature sig) of
            Inl e \<Rightarrow> Inl (CryptoError e)
          | Inr False \<Rightarrow> Inr None
          | Inr True \<Rightarrow>
              verify_proof_loop env vset data sigs (insert (sg_validator sig) seen)
                (saturating_add signed_stake (effective_stake v))))"

definition verify_finality_proof :: "finality_env \<Rightarrow> finality_proof \<Rightarrow> finality \<Rightarrow> consensus_error + bool" where
  "verify_finality_proof env p f =
    (if fp_total_stake_signed p < fp_stake_threshold p then Inr False else
     case verify_proof_loop env (cm_validator_set (fl_committee_manager f))
            (checkpoint_signing_data (fe_hash env) (fp_checkpoint p)) (fp_signatures p) {} 0 of
       Inl e \<Rightarrow> Inl e
     | Inr None \<Rightarrow> Inr False
     | Inr (Some signed_stake) \<Rightarrow>
         Inr (signed_stake \<ge> fp_stake_threshold p \<and> signed_stake = fp_total_stake_signed p))"

definition get_latest_finalized_checkpoint :: "finality \<Rightarrow> checkpoint option" where
  "get_latest_finalized_checkpoint f = (if fl_finalized f = [] then None else Some (last (fl_finalized f)))"

definition get_checkpoint :: "string option \<Rightarrow> u64 \<Rightarrow> u64 \<Rightarrow> finality \<Rightarrow> consensus_error + checkpoint option" where
  "get_checkpoint read_err epoch slot f =
    (case read_err of Some e \<Rightarrow> Inl (StorageError e) | None \<Rightarrow> Inr (fl_stored f (epoch, slot)))"

definition finalized_slot :: "finality \<Rightarrow> u64" where
  "finalized_slot f = unwrap_or (map_option cp_slot (get_latest_finalized_checkpoint f)) 0"

definition finalized_epoch :: "finality \<Rightarrow> u64" where
  "finalized_epoch f = unwrap_or (map_option cp_epoch (get_latest_finalized_checkpoint f)) 0"

section \<open>Operations of the layer\<close>

datatype finality_op =
    MaybeCreate u64 "string option" u64
  | Receive disk "string option" hash validator_signature
  | DagStep dag_op

fun finality_exec :: "finality_env \<Rightarrow> finality_op \<Rightarrow> finality \<Rightarrow> finality" where
  "finality_exec env (MaybeCreate now read_err slot) f = snd (maybe_create_checkpoint env now read_err slot f)"
| "finality_exec env (Receive d put_error key sig) f = snd (receive_checkpoint_signature env d put_error key sig f)"
| "finality_exec env (DagStep x) f = f\<lparr>fl_dag := dag_exec x (fl_dag f)\<rparr>"

abbreviation fl_validators :: "finality \<Rightarrow> validator_set" where
  "fl_validators f \<equiv> cm_validator_set (fl_committee_manager f)"

section \<open>Certified checkpoints\<close>

definition stake_weight :: "validator_set \<Rightarrow> address \<Rightarrow> nat" where
  "stake_weight s a = (case get_validator a s of Some v \<Rightarrow> unat (effective_stake v) | None \<Rightarrow> 0)"

text \<open>A signature of an active validator, under its registered key, on the signing data.\<close>

definition signed_by :: "finality_env \<Rightarrow> validator_set \<Rightarrow> checkpoint \<Rightarrow> validator_signature \<Rightarrow> bool" where
  "signed_by env s c sig \<longleftrightarrow>
    (case get_validator (sg_validator sig) s of
       None \<Rightarrow> False
     | Some v \<Rightarrow> val_active v \<and> \<not> val_jailed v \<and> val_finality_public_key v \<noteq> [] \<and>
         fe_verify env (val_finality_public_key v) (checkpoint_signing_data (fe_hash env) c)
           (sg_signature sig) = Inr True)"

text \<open>The validators a checkpoint lists are distinct, each has signed it, and together they hold more
  than two thirds of the active stake.\<close>

definition certified :: "finality_env \<Rightarrow> validator_set \<Rightarrow> checkpoint \<Rightarrow> bool" where
  "certified env s c \<longleftrightarrow>
    (\<exists>sigs. map sg_validator sigs = cp_validators c \<and> list_all (signed_by env s c) sigs) \<and>
    distinct (cp_validators c) \<and>
    2 * unat (total_active_stake s) < 3 * sum_list (map (stake_weight s) (cp_validators c))"

text \<open>A consistent validator set whose active stake stays below the wrap-around of the doubling.\<close>

definition stake_ok :: "validator_set \<Rightarrow> bool" where
  "stake_ok s \<longleftrightarrow> vs_inv s \<and> unat (total_active_stake s) < 2 ^ 127"

definition pending_ok :: "finality_env \<Rightarrow> validator_set \<Rightarrow> hash \<Rightarrow> pending_checkpoint \<Rightarrow> bool" where
  "pending_ok env s key p \<longleftrightarrow>
    key = checkpoint_hash (fe_hash env) (pc_checkpoint p) \<and>
    pc_signers p = sg_validator ` set (pc_signatures p) \<and>
    distinct (map sg_validator (pc_signatures p)) \<and>
    list_all (signed_by env s (pc_checkpoint p)) (pc_signatures p) \<and>
    unat (pc_total_stake_signed p) = sum_list (map (\<lambda>sig. stake_weight s (sg_validator sig)) (pc_signatures p)) \<and>
    pc_total_stake_signed p < finality_threshold s"

definition finality_inv :: "finality_env \<Rightarrow> validator_set \<Rightarrow> finality \<Rightarrow> bool" where
  "finality_inv env s f \<longleftrightarrow> fl_validators f = s \<and> stake_ok s \<and> dag_inv (fl_dag f) \<and>
    (\<forall>key p. fl_pending f key = Some p \<longrightarrow> pending_ok env s key p) \<and>
    list_all (certified env s) (fl_finalized f)"

section \<open>Lemmas on stake\<close>

lemma effective_stake_le: "unat (effective_stake v) \<le> unat (val_stake v)"
  by (simp add: effective_stake_def)

lemma sum_effective_less:
  assumes "vs_inv s"
  shows "sum_list (map (\<lambda>v. unat (effective_stake v)) (vs_validators s)) < 2 ^ 128"
proof -
  have "sum_list (map (\<lambda>v. unat (effective_stake v)) (vs_validators s))
      \<le> sum_list (map (\<lambda>v. unat (val_stake v)) (vs_validators s))"
    by (rule sum_list_mono) (rule effective_stake_le)
  also have "\<dots> < 2 ^ 128" using assms unat_less_exp [of "vs_total_stake s"] by (simp add: vs_inv_def)
  finally show ?thesis .
qed

lemma unat_total_active_stake:
  assumes "vs_inv s"
  shows "unat (total_active_stake s) = sum_list (map (\<lambda>v. unat (effective_stake v)) (vs_validators s))"
  using unat_sum_list_word [of "map effective_stake (vs_validators s)"] sum_effective_less [OF assms]
  by (simp add: total_active_stake_def comp_def)

lemma sum_stake_weight:
  assumes inv: "vs_inv s"
  shows "(\<Sum>a\<in>val_address ` set (vs_validators s). stake_weight s a) = unat (total_active_stake s)"
proof -
  let ?vs = "vs_validators s"
  have d: "distinct (map val_address ?vs)" using inv by (simp add: vs_inv_def)
  have "(\<Sum>a\<in>val_address ` set ?vs. stake_weight s a) = (\<Sum>v\<in>set ?vs. stake_weight s (val_address v))"
    using d by (intro sum.reindex_cong [OF _ refl refl]) (simp add: distinct_map)
  also have "\<dots> = (\<Sum>v\<in>set ?vs. unat (effective_stake v))"
    using d by (intro sum.cong) (auto simp: stake_weight_def get_validator_def find_distinct)
  also have "\<dots> = sum_list (map (\<lambda>v. unat (effective_stake v)) ?vs)"
    using d by (simp add: sum_list_distinct_conv_sum_set distinct_map)
  finally show ?thesis by (simp add: unat_total_active_stake [OF inv])
qed

lemma finality_threshold_value:
  assumes "stake_ok s"
  shows "unat (finality_threshold s) = 2 * unat (total_active_stake s) div 3 + 1"
proof -
  have "unat (total_active_stake s * 2) = unat (total_active_stake s) * 2"
    using assms by (simp add: stake_ok_def unat_word_ariths)
  then have "unat (total_active_stake s * 2 div 3) = 2 * unat (total_active_stake s) div 3"
    by (simp add: unat_div mult.commute)
  moreover have "2 * unat (total_active_stake s) div 3 < 2 ^ 128 - 1"
    using assms by (simp add: stake_ok_def div_less_iff_less_mult)
  ultimately show ?thesis
    unfolding finality_threshold_def by (subst unat_add_no_overflow) simp_all
qed

interpretation fq: stake_quorum
  "\<lambda>s. val_address ` set (vs_validators s)" stake_weight "\<lambda>s. unat (finality_threshold s)" stake_ok
proof
  fix s assume "stake_ok s"
  then show "2 * (\<Sum>a\<in>val_address ` set (vs_validators s). stake_weight s a) < 3 * unat (finality_threshold s)"
    using sum_stake_weight [of s] two_thirds_plus_one by (simp add: finality_threshold_value stake_ok_def)
qed simp

lemma signed_by_member: "signed_by env s c sig \<Longrightarrow> sg_validator sig \<in> val_address ` set (vs_validators s)"
  by (auto simp: signed_by_def get_validator_def find_Some_iff image_iff split: option.splits) (metis nth_mem)

text \<open>Distinct members never hold more than the active stake, so their sum does not overflow.\<close>

lemma distinct_weight_le:
  assumes "vs_inv s" "distinct as" "set as \<subseteq> val_address ` set (vs_validators s)"
  shows "sum_list (map (stake_weight s) as) \<le> unat (total_active_stake s)"
proof -
  have "sum_list (map (stake_weight s) as) = (\<Sum>a\<in>set as. stake_weight s a)"
    using assms(2) by (simp add: sum_list_distinct_conv_sum_set)
  also have "\<dots> \<le> (\<Sum>a\<in>val_address ` set (vs_validators s). stake_weight s a)"
    using assms(3) by (intro sum_mono2) auto
  finally show ?thesis by (simp add: sum_stake_weight [OF assms(1)])
qed

section \<open>Lemmas on the operations\<close>

lemma checkpoint_hash_sealed [simp]:
  "checkpoint_hash h (c\<lparr>cp_validators := vs\<rparr>) = checkpoint_hash h c"
  "checkpoint_hash h (c\<lparr>cp_signature := sig\<rparr>) = checkpoint_hash h c"
  by (simp_all add: checkpoint_hash_def checkpoint_preimage_def)

lemma signed_by_same_hash:
  "checkpoint_hash (fe_hash env) c = checkpoint_hash (fe_hash env) c' \<Longrightarrow> signed_by env s c = signed_by env s c'"
  unfolding signed_by_def [abs_def] checkpoint_signing_data_def by (simp cong: option.case_cong)

lemma sealed_checkpoint_simps [simp]:
  "checkpoint_hash h (sealed_checkpoint env p vs) = checkpoint_hash h (pc_checkpoint p)"
  "cp_validators (sealed_checkpoint env p vs) = map sg_validator (pc_signatures p)"
  by (simp_all add: sealed_checkpoint_def Let_def)

lemma check_signature_signed:
  "check_signature env s p sig = Inr v \<Longrightarrow>
   signed_by env s (pc_checkpoint p) sig \<and> get_validator (sg_validator sig) s = Some v"
  by (auto simp: check_signature_def signed_by_def split: option.splits if_splits sum.splits bool.splits)

lemma signed_check_signature:
  "signed_by env s (pc_checkpoint p) sig \<Longrightarrow>
   \<exists>v. check_signature env s p sig = Inr v \<and> get_validator (sg_validator sig) s = Some v"
  by (auto simp: check_signature_def signed_by_def split: option.splits)

text \<open>Counting one signature.\<close>

definition counted :: "validator_set \<Rightarrow> validator_signature \<Rightarrow> pending_checkpoint \<Rightarrow> pending_checkpoint" where
  "counted s sig p = p\<lparr>pc_signers := insert (sg_validator sig) (pc_signers p),
     pc_signatures := pc_signatures p @ [sig],
     pc_total_stake_signed := pc_total_stake_signed p +
       (case get_validator (sg_validator sig) s of Some v \<Rightarrow> effective_stake v | None \<Rightarrow> 0)\<rparr>"

lemma finalize_checkpoint_cases:
  assumes "fl_pending f key = Some p"
  obtains "snd (finalize_checkpoint env d put_error key f) = f\<lparr>fl_pending := (fl_pending f)(key := None)\<rparr>"
      "put_error \<noteq> None"
  | g' where "put_error = None"
      "fl_pending (snd (finalize_checkpoint env d put_error key f)) = (fl_pending f)(key := None)"
      "fl_committee_manager (snd (finalize_checkpoint env d put_error key f)) = fl_committee_manager f"
      "fl_finalized (snd (finalize_checkpoint env d put_error key f)) =
         fl_finalized f @ [sealed_checkpoint env p (vs_validators (fl_validators f))]"
      "fl_dag (snd (finalize_checkpoint env d put_error key f)) =
         snd (finalize_reachable_from_tips d (pc_dag_tips p) (fl_dag f))"
proof (cases put_error)
  case None
  then show ?thesis
    using that(2) assms
    by (auto simp: finalize_checkpoint_def put_checkpoint_def mark_vertices_finalized_def Let_def
        split: prod.splits sum.splits or_return_splits)
next
  case (Some e)
  then show ?thesis
    using that(1) assms by (simp add: finalize_checkpoint_def put_checkpoint_def Let_def)
qed

text \<open>The sum of a pending checkpoint never overflows while the validators are the ones it was signed
  under.\<close>

lemma pending_counted:
  assumes ok: "stake_ok s" and p: "pending_ok env s key p"
    and sig: "sg_validator sig \<notin> pc_signers p" "signed_by env s (pc_checkpoint p) sig"
  shows "unat (pc_total_stake_signed p) + stake_weight s (sg_validator sig) < 2 ^ 128"
    "unat (pc_total_stake_signed (counted s sig p)) =
       sum_list (map (\<lambda>sig. stake_weight s (sg_validator sig)) (pc_signatures (counted s sig p)))"
    "finality_threshold s > pc_total_stake_signed (counted s sig p) \<Longrightarrow> pending_ok env s key (counted s sig p)"
proof -
  let ?sigs = "pc_signatures p @ [sig]"
  have members: "set (map sg_validator ?sigs) \<subseteq> val_address ` set (vs_validators s)"
    using p sig(2) by (auto simp: pending_ok_def list_all_iff signed_by_member)
  have "distinct (map sg_validator ?sigs)" using p sig(1) by (auto simp: pending_ok_def)
  then have "sum_list (map (stake_weight s) (map sg_validator ?sigs)) \<le> unat (total_active_stake s)"
    using ok members by (intro distinct_weight_le) (auto simp: stake_ok_def)
  then show less: "unat (pc_total_stake_signed p) + stake_weight s (sg_validator sig) < 2 ^ 128"
    using p ok by (simp add: pending_ok_def stake_ok_def comp_def)
  obtain v where v: "get_validator (sg_validator sig) s = Some v"
    using sig(2) by (auto simp: signed_by_def split: option.splits)
  show total: "unat (pc_total_stake_signed (counted s sig p)) =
      sum_list (map (\<lambda>sig. stake_weight s (sg_validator sig)) (pc_signatures (counted s sig p)))"
    using less p v unat_add_no_overflow [of "pc_total_stake_signed p" "effective_stake v"]
    by (simp add: counted_def pending_ok_def stake_weight_def)
  assume "finality_threshold s > pc_total_stake_signed (counted s sig p)"
  with total p sig show "pending_ok env s key (counted s sig p)"
    by (auto simp: pending_ok_def counted_def)
qed

text \<open>The three things \<open>receive_checkpoint_signature\<close> can do in a consistent state.\<close>

lemma receive_cases:
  assumes inv: "finality_inv env s f"
  obtains (ignored) "snd (receive_checkpoint_signature env d put_error key sig f) = f"
      "\<forall>r. fst (receive_checkpoint_signature env d put_error key sig f) \<noteq> Inr (Some r)"
      "\<forall>p. fl_pending f key = Some p \<longrightarrow>
         sg_validator sig \<in> pc_signers p \<or> \<not> signed_by env s (pc_checkpoint p) sig"
  | (counted) p where "fl_pending f key = Some p" "sg_validator sig \<notin> pc_signers p"
      "signed_by env s (pc_checkpoint p) sig" "pc_total_stake_signed (counted s sig p) < finality_threshold s"
      "receive_checkpoint_signature env d put_error key sig f =
         (Inr None, f\<lparr>fl_pending := (fl_pending f)(key \<mapsto> counted s sig p)\<rparr>)"
  | (quorum) p where "fl_pending f key = Some p" "sg_validator sig \<notin> pc_signers p"
      "signed_by env s (pc_checkpoint p) sig" "finality_threshold s \<le> pc_total_stake_signed (counted s sig p)"
      "receive_checkpoint_signature env d put_error key sig f =
         (let (r, f) = finalize_checkpoint env d put_error key
            (f\<lparr>fl_pending := (fl_pending f)(key \<mapsto> counted s sig p)\<rparr>) in
          or_return r f (\<lambda>c. (Inr (Some c), f)))"
proof (cases "fl_pending f key")
  case None
  then show ?thesis using ignored by (simp add: receive_checkpoint_signature_def)
next
  case (Some p)
  have ok: "stake_ok s" "pending_ok env s key p" "fl_validators f = s"
    using inv Some by (auto simp: finality_inv_def)
  show ?thesis
  proof (cases "sg_validator sig \<in> pc_signers p")
    case True
    with Some show ?thesis using ignored by (simp add: receive_checkpoint_signature_def)
  next
    case False
    show ?thesis
    proof (cases "check_signature env s p sig")
      case (Inl e)
      then have "\<not> signed_by env s (pc_checkpoint p) sig" using signed_check_signature [of env s p sig] by auto
      with Inl Some False ok show ?thesis using ignored by (simp add: receive_checkpoint_signature_def Let_def)
    next
      case (Inr v)
      note signed = check_signature_signed [OF Inr]
      then have "unat (pc_total_stake_signed p) + unat (effective_stake v) < 2 ^ 128"
        using pending_counted(1) [OF ok(1,2) False] by (simp add: stake_weight_def)
      then have add: "checked_add (pc_total_stake_signed p) (effective_stake v) =
          Some (pc_total_stake_signed p + effective_stake v)"
        by (simp add: checked_add_def)
      show ?thesis
      proof (cases "finality_threshold s \<le> pc_total_stake_signed (counted s sig p)")
        case True
        then show ?thesis using quorum [OF Some False] signed Some False Inr add ok
          by (simp add: receive_checkpoint_signature_def Let_def counted_def)
      next
        case low: False
        then show ?thesis using counted [OF Some False] signed Some False Inr add ok
          by (simp add: receive_checkpoint_signature_def Let_def counted_def)
      qed
    qed
  qed
qed

lemma certified_sealed:
  assumes ok: "stake_ok s" and p: "pending_ok env s key p"
    and sig: "sg_validator sig \<notin> pc_signers p" "signed_by env s (pc_checkpoint p) sig"
    and quo: "finality_threshold s \<le> pc_total_stake_signed (counted s sig p)"
  shows "certified env s (sealed_checkpoint env (counted s sig p) vs)"
proof -
  let ?q = "counted s sig p"
  have q: "pc_checkpoint ?q = pc_checkpoint p" "pc_signatures ?q = pc_signatures p @ [sig]"
    by (simp_all add: counted_def)
  have "signed_by env s (sealed_checkpoint env ?q vs) = signed_by env s (pc_checkpoint p)"
    by (rule signed_by_same_hash) (simp add: q)
  then have "list_all (signed_by env s (sealed_checkpoint env ?q vs)) (pc_signatures ?q)"
    using p sig(2) by (simp add: q pending_ok_def)
  moreover have "distinct (map sg_validator (pc_signatures ?q))" using p sig(1) by (auto simp: q pending_ok_def)
  moreover have "2 * unat (total_active_stake s) < 3 * unat (finality_threshold s)"
    using finality_threshold_value [OF ok] two_thirds_plus_one by simp
  moreover have "unat (finality_threshold s) \<le> sum_list (map (stake_weight s) (map sg_validator (pc_signatures ?q)))"
    using pending_counted(2) [OF ok p sig] quo by (simp add: word_le_nat_alt comp_def)
  ultimately show ?thesis unfolding certified_def by auto
qed

lemma receive_inv:
  assumes inv: "finality_inv env s f"
  shows "finality_inv env s (snd (receive_checkpoint_signature env d put_error key sig f))"
  using inv
proof (cases rule: receive_cases [of env s f d put_error key sig])
  case ignored
  with inv show ?thesis by simp
next
  case (counted p)
  with inv show ?thesis using pending_counted(3) [of s env key p sig] by (simp add: finality_inv_def)
next
  case (quorum p)
  let ?f = "f\<lparr>fl_pending := (fl_pending f)(key \<mapsto> counted s sig p)\<rparr>"
  let ?f' = "snd (finalize_checkpoint env d put_error key ?f)"
  have r: "snd (receive_checkpoint_signature env d put_error key sig f) = ?f'"
    using quorum(5) by (auto simp: split: prod.splits or_return_splits)
  have cert: "certified env s (sealed_checkpoint env (counted s sig p) vs)" for vs
  proof (rule certified_sealed [OF _ _ quorum(2-4)])
    show "stake_ok s" "pending_ok env s key p" using inv quorum(1) by (auto simp: finality_inv_def)
  qed
  have "fl_pending ?f key = Some (counted s sig p)" by simp
  then show ?thesis unfolding r
    by (cases rule: finalize_checkpoint_cases [of ?f key "counted s sig p" env d put_error])
      (use inv cert in \<open>auto simp: finality_inv_def finalize_inv\<close>)
qed

lemma maybe_create_inv:
  assumes inv: "finality_inv env s f"
  shows "finality_inv env s (snd (maybe_create_checkpoint env now read_err slot f))"
proof -
  have "0 < finality_threshold s"
    using inv finality_threshold_value [of s] by (simp add: finality_inv_def word_less_nat_alt)
  with inv show ?thesis
    by (cases read_err) (auto simp: maybe_create_checkpoint_def create_checkpoint_def Let_def finality_inv_def
        pending_ok_def)
qed

lemma finality_exec_inv: "finality_inv env s f \<Longrightarrow> finality_inv env s (finality_exec env x f)"
  by (cases x) (auto simp: receive_inv maybe_create_inv, simp add: finality_inv_def dag_exec_inv)

interpretation fl: op_system "finality_exec env" "\<lambda>_. True" "finality_inv env s" for env s
  by unfold_locales (rule finality_exec_inv)

lemma finality_new_inv:
  "stake_ok (cm_validator_set cm) \<Longrightarrow> dag_inv d \<Longrightarrow>
   finality_inv env (cm_validator_set cm) (finality_new roots stored by_hash latest d cm interval shards)"
  by (simp add: finality_new_def finality_inv_def)

lemma finality_run_inv:
  "stake_ok (cm_validator_set cm) \<Longrightarrow> dag_inv d \<Longrightarrow>
   finality_inv env (cm_validator_set cm)
     (fold (finality_exec env) ops (finality_new roots stored by_hash latest d cm interval shards))"
  by (rule fl.run_invar) (auto simp: finality_new_inv list_all_iff)

section \<open>Proofs of finality of pending checkpoints\<close>

lemma add_proof_signatures_stake:
  "unat (fp_total_stake_signed (add_proof_signatures env s sigs p)) \<le>
     unat (fp_total_stake_signed p) + sum_list (map (\<lambda>sig. stake_weight s (sg_validator sig)) sigs) \<and>
   fp_stake_threshold (add_proof_signatures env s sigs p) = fp_stake_threshold p"
proof (induction sigs arbitrary: p)
  case (Cons sig sigs)
  obtain stake key where v: "(case get_validator (sg_validator sig) s of
      Some v \<Rightarrow> (effective_stake v, val_finality_public_key v) | None \<Rightarrow> (0, [])) = (stake, key)" by fastforce
  let ?p = "snd (proof_add_signature (fe_hash env) (fe_verify env) (fe_debug env) sig stake key p)"
  have "unat stake = stake_weight s (sg_validator sig)"
    using v by (auto simp: stake_weight_def split: option.splits)
  then have "unat (fp_total_stake_signed ?p) \<le> unat (fp_total_stake_signed p) + stake_weight s (sg_validator sig)"
    "fp_stake_threshold ?p = fp_stake_threshold p"
    by (auto simp: proof_add_signature_def unat_saturating_add split: sum.splits bool.splits)
  with Cons.IH [of ?p] v show ?case by simp
qed simp

section \<open>Lemmas on collecting signatures\<close>

lemma receive_quorum:
  assumes inv: "finality_inv env s f" and p: "fl_pending f key = Some p"
    and sig: "sg_validator sig \<notin> pc_signers p" "signed_by env s (pc_checkpoint p) sig"
    and quo: "finality_threshold s \<le> pc_total_stake_signed (counted s sig p)"
  shows "receive_checkpoint_signature env d put_error key sig f =
    (let (r, f) = finalize_checkpoint env d put_error key
       (f\<lparr>fl_pending := (fl_pending f)(key \<mapsto> counted s sig p)\<rparr>) in
     or_return r f (\<lambda>c. (Inr (Some c), f)))"
  using inv
proof (cases rule: receive_cases [of env s f d put_error key sig])
  case ignored
  then show ?thesis using p sig by simp
next
  case (counted p')
  then show ?thesis using p quo by (simp add: not_le [symmetric])
next
  case (quorum p')
  then show ?thesis using p by simp
qed

lemma receive_state:
  "receive_checkpoint_signature env d put_error key sig f =
    (let (r, f) = finalize_checkpoint env d put_error key f' in or_return r f (\<lambda>c. (Inr (Some c), f))) \<Longrightarrow>
   snd (receive_checkpoint_signature env d put_error key sig f) = snd (finalize_checkpoint env d put_error key f')"
  by (auto split: prod.splits or_return_splits)

lemma receive_finalized_mono:
  assumes inv: "finality_inv env s f"
  shows "set (fl_finalized f) \<subseteq> set (fl_finalized (snd (receive_checkpoint_signature env d put_error key sig f)))"
  using inv
proof (cases rule: receive_cases [of env s f d put_error key sig])
  case (quorum p)
  let ?f = "f\<lparr>fl_pending := (fl_pending f)(key \<mapsto> counted s sig p)\<rparr>"
  have "fl_pending ?f key = Some (counted s sig p)" by simp
  then show ?thesis unfolding receive_state [OF quorum(5)]
    by (cases rule: finalize_checkpoint_cases [of ?f key "counted s sig p" env d put_error]) auto
qed auto

abbreviation collect :: "finality_env \<Rightarrow> disk \<Rightarrow> hash \<Rightarrow> validator_signature list \<Rightarrow> finality \<Rightarrow> finality" where
  "collect env d key sigs f \<equiv> fold (\<lambda>sig f. snd (receive_checkpoint_signature env d None key sig f)) sigs f"

lemma collect_mono:
  "finality_inv env s f \<Longrightarrow> set (fl_finalized f) \<subseteq> set (fl_finalized (collect env d key sigs f))"
proof (induction sigs arbitrary: f)
  case (Cons sig sigs)
  from subset_trans [OF receive_finalized_mono [OF Cons.prems] Cons.IH [OF receive_inv [OF Cons.prems]]]
  show ?case by simp
qed simp

lemma pending_weight_less:
  assumes "pending_ok env s key p" "A \<subseteq> pc_signers p"
  shows "(\<Sum>a\<in>A. stake_weight s a) < unat (finality_threshold s)"
proof -
  have "(\<Sum>a\<in>A. stake_weight s a) \<le> (\<Sum>a\<in>pc_signers p. stake_weight s a)"
    using assms by (intro sum_mono2) (auto simp: pending_ok_def)
  also have "\<dots> = sum_list (map (stake_weight s) (map sg_validator (pc_signatures p)))"
    using assms(1) by (simp add: pending_ok_def sum_list_distinct_conv_sum_set del: map_map)
  also have "\<dots> = unat (pc_total_stake_signed p)" using assms(1) by (simp add: pending_ok_def comp_def)
  finally show ?thesis using assms(1) by (simp add: pending_ok_def word_less_nat_alt)
qed

lemma collect_finalizes:
  assumes "finality_inv env s f" "fl_pending f key = Some p" "list_all (signed_by env s (pc_checkpoint p)) sigs"
    and "A \<subseteq> pc_signers p \<union> sg_validator ` set sigs" "unat (finality_threshold s) \<le> (\<Sum>a\<in>A. stake_weight s a)"
  shows "\<exists>c\<in>set (fl_finalized (collect env d key sigs f)). checkpoint_hash (fe_hash env) c = key"
  using assms
proof (induction sigs arbitrary: f p)
  case Nil
  then show ?case using pending_weight_less [of env s key p A] by (auto simp: finality_inv_def)
next
  case (Cons sig sigs)
  let ?f = "snd (receive_checkpoint_signature env d None key sig f)"
  have inv: "finality_inv env s ?f" by (rule receive_inv [OF Cons.prems(1)])
  from Cons.prems(1) show ?case
  proof (cases rule: receive_cases [of env s f d None key sig])
    case ignored
    then have "sg_validator sig \<in> pc_signers p" using Cons.prems(2,3) by simp
    then show ?thesis using Cons.IH [OF Cons.prems(1,2)] Cons.prems(3-5) ignored(1) by auto
  next
    case (counted p')
    then have p: "fl_pending ?f key = Some (counted s sig p)" using Cons.prems(2) by simp
    show ?thesis using Cons.IH [OF inv p] Cons.prems(3-5) by (auto simp: counted_def)
  next
    case (quorum p')
    let ?g = "f\<lparr>fl_pending := (fl_pending f)(key \<mapsto> counted s sig p')\<rparr>"
    have "fl_pending ?g key = Some (counted s sig p')" by simp
    then have "fl_finalized ?f = fl_finalized ?g @ [sealed_checkpoint env (counted s sig p') (vs_validators (fl_validators ?g))]"
      unfolding receive_state [OF quorum(5)]
      by (cases rule: finalize_checkpoint_cases [of ?g key "counted s sig p'" env d None]) auto
    moreover have "checkpoint_hash (fe_hash env) (pc_checkpoint p') = key"
      using Cons.prems(1) quorum(1) by (auto simp: finality_inv_def pending_ok_def)
    ultimately have "\<exists>c\<in>set (fl_finalized ?f). checkpoint_hash (fe_hash env) c = key"
      by (simp add: counted_def)
    with collect_mono [OF inv, of d key sigs] show ?thesis by auto
  qed
qed

lemma verify_proof_loop_exact:
  assumes "vs_inv s"
    and "distinct (map sg_validator done_sigs)" "list_all (signed_by env s c) done_sigs"
    and "seen = sg_validator ` set done_sigs"
    and "unat acc = sum_list (map (\<lambda>sig. stake_weight s (sg_validator sig)) done_sigs)"
  shows "verify_proof_loop env s (checkpoint_signing_data (fe_hash env) c) sigs seen acc = Inr (Some t) \<longleftrightarrow>
    distinct (map sg_validator (done_sigs @ sigs)) \<and> list_all (signed_by env s c) sigs \<and>
    unat t = sum_list (map (\<lambda>sig. stake_weight s (sg_validator sig)) (done_sigs @ sigs))"
  using assms
proof (induction sigs arbitrary: done_sigs seen acc)
  case Nil
  then show ?case by (auto simp: unsigned_word_eqI word_unat_eq_iff)
next
  case (Cons sig sigs)
  show ?case
  proof (cases "sg_validator sig \<in> seen \<or> \<not> signed_by env s c sig")
    case True
    then show ?thesis using Cons.prems
      by (auto simp: signed_by_def split: option.splits sum.splits bool.splits)
  next
    case False
    then obtain v where v: "get_validator (sg_validator sig) s = Some v" "val_active v" "\<not> val_jailed v"
      "val_finality_public_key v \<noteq> []"
      "fe_verify env (val_finality_public_key v) (checkpoint_signing_data (fe_hash env) c) (sg_signature sig) = Inr True"
      by (auto simp: signed_by_def split: option.splits)
    let ?sigs = "done_sigs @ [sig]"
    have d: "distinct (map sg_validator ?sigs)" using Cons.prems False by auto
    have signed: "list_all (signed_by env s c) ?sigs" using Cons.prems False by simp
    then have "set (map sg_validator ?sigs) \<subseteq> val_address ` set (vs_validators s)"
      by (auto simp: list_all_iff signed_by_member)
    from distinct_weight_le [OF Cons.prems(1) d this] have "unat acc + unat (effective_stake v) < 2 ^ 128"
      using Cons.prems(5) v(1) unat_less_exp [of "total_active_stake s"] by (simp add: comp_def stake_weight_def)
    then have "unat (saturating_add acc (effective_stake v)) =
        sum_list (map (\<lambda>sig. stake_weight s (sg_validator sig)) ?sigs)"
      using Cons.prems(5) v(1) by (simp add: unat_saturating_add stake_weight_def)
    from Cons.IH [OF Cons.prems(1) d signed _ this, of "insert (sg_validator sig) seen"] False v Cons.prems(4)
    show ?thesis by simp
  qed
qed

section \<open>Properties\<close>

definition sample_env :: finality_env where
  "sample_env = \<lparr> fe_hash = (\<lambda>_. addr 9), fe_verify = (\<lambda>_ _ _. Inr True), fe_debug = id,
     fe_serialize = (\<lambda>_. None) \<rparr>"

definition sample_signature :: "u8 \<Rightarrow> validator_signature" where
  "sample_signature b = \<lparr> sg_validator = addr b, sg_signature = [b], sg_timestamp = 0 \<rparr>"

definition sample_cm :: "amount \<Rightarrow> committee_manager" where
  "sample_cm stake = sample_manager\<lparr>cm_validator_set :=
     \<lparr> vs_validators = [sample_validator 1 stake, sample_validator 2 stake], vs_total_stake = stake + stake,
       vs_epoch = 0 \<rparr>\<rparr>"

definition sample_layer :: "amount \<Rightarrow> finality" where
  "sample_layer stake =
    finality_new Map.empty Map.empty Map.empty None sample_dag (sample_cm stake) 1 1"

definition sample_round :: "u64 \<Rightarrow> finality_op list" where
  "sample_round slot = [MaybeCreate 1 None slot, Receive good_disk None (addr 9) (sample_signature 1),
     Receive good_disk None (addr 9) (sample_signature 2)]"

lemma compact_signature_unserialized:
  "fe_serialize env = (\<lambda>_. None) \<Longrightarrow> compact_signature env p vs c = cp_signature c"
  by (simp add: compact_signature_def Let_def split: sum.splits)

lemmas sample_states = sample_env_def sample_signature_def sample_layer_def sample_cm_def finality_new_def
  sample_manager_def sample_validator_def committee_manager_new_def

lemmas finality_ops = maybe_create_checkpoint_def create_checkpoint_def collect_dag_state_def
  receive_checkpoint_signature_def check_signature_def finalize_checkpoint_def put_checkpoint_def
  mark_vertices_finalized_def finalize_reachable_from_tips_def finalize_loop.simps get_tips_def
  sealed_checkpoint_def compact_signature_unserialized checkpoint_hash_def checkpoint_new_def
  get_validator_def effective_stake_def finality_threshold_def total_active_stake_def checked_add_def

lemma sample_stake_ok: "stake_ok (cm_validator_set (sample_cm 10))"
  by (simp add: stake_ok_def vs_inv_def total_active_stake_def effective_stake_def MAX_VALIDATORS_def
      sample_states)

lemma sample_rounds:
  "\<exists>c c'. fl_finalized (fold (finality_exec sample_env) (sample_round 5 @ sample_round 9) (sample_layer 10)) = [c, c'] \<and>
     cp_slot c = 5 \<and> cp_slot c' = 9 \<and> cp_validators c' = [addr 1, addr 2]"
  by (simp add: sample_round_def finality_ops sample_states dag_samples Let_def)







text \<open>When a signature completes a quorum and the call succeeds, the reported checkpoint is the last
  final one, and exactly the vertices reachable from the tips recorded at its creation have become
  final.\<close>

theorem receive_finalizes_tips:
  assumes "stake_ok (cm_validator_set cm)" "dag_inv g"
    and "f = fold (finality_exec env) ops (finality_new roots stored by_hash latest g cm interval shards)"
    and "fl_pending f key = Some p"
    and "receive_checkpoint_signature env d put_error key sig f = (Inr (Some fc), f')"
  shows "fc_checkpoint fc = last (fl_finalized f') \<and>
    vertex_of (fl_dag f') h = (if h \<in> (parent_rel (fl_dag f))\<^sup>* `` set (pc_dag_tips p)
      then map_option (vx_status_update (\<lambda>_. VFinalized)) (vertex_of (fl_dag f) h) else vertex_of (fl_dag f) h)"
proof -
  let ?s = "cm_validator_set cm"
  let ?p = "counted ?s sig p"
  let ?f = "f\<lparr>fl_pending := (fl_pending f)(key \<mapsto> ?p)\<rparr>"
  have inv: "finality_inv env ?s f" unfolding assms(3) by (rule finality_run_inv [OF assms(1,2)])
  then have run: "(let (r, f) = finalize_checkpoint env d put_error key ?f in
      or_return r f (\<lambda>c. (Inr (Some c), f))) = (Inr (Some fc), f')"
    using assms(4,5) by (cases rule: receive_cases [of env ?s f d put_error key sig]) auto
  then have fin: "finalize_checkpoint env d put_error key ?f = (Inr fc, f')"
    by (auto split: prod.splits or_return_splits)
  then obtain r dag' where marked: "finalize_reachable_from_tips d (pc_dag_tips p) (fl_dag f) = (Inr r, dag')"
    and fc: "fc_checkpoint fc = last (fl_finalized f')" "fl_dag f' = dag'"
    by (cases put_error) (auto simp: finalize_checkpoint_def put_checkpoint_def mark_vertices_finalized_def
        Let_def counted_def split: prod.splits sum.splits or_return_splits)
  have "dag_inv (fl_dag f)" using inv by (simp add: finality_inv_def)
  from finalize_vertex_of [OF this marked, of h] fc show ?thesis by simp
qed

theorem receive_finalizes_tips_witness:
  "\<exists>fc f'. receive_checkpoint_signature sample_env good_disk None (addr 9) (sample_signature 2)
      (fold (finality_exec sample_env) [MaybeCreate 1 None 5,
        Receive good_disk None (addr 9) (sample_signature 1)] (sample_layer 10)) = (Inr (Some fc), f') \<and>
    fc_checkpoint fc = last (fl_finalized f') \<and> vertex_of (fl_dag f') (addr 3) = Some (sample_vertex 3 [] 0)"
proof -
  let ?f = "fold (finality_exec sample_env) [MaybeCreate 1 None 5,
    Receive good_disk None (addr 9) (sample_signature 1)] (sample_layer 10)"
  obtain p where p: "fl_pending ?f (addr 9) = Some p" "pc_dag_tips p = []"
    by (simp add: finality_ops sample_states dag_samples Let_def)
  obtain fc f' where run: "receive_checkpoint_signature sample_env good_disk None (addr 9) (sample_signature 2) ?f
      = (Inr (Some fc), f')"
    by (simp add: finality_ops sample_states dag_samples Let_def)
  have "vertex_of (fl_dag ?f) (addr 3) = Some (sample_vertex 3 [] 0)"
    by (simp add: finality_ops sample_states dag_samples vertex_of_def Let_def)
  with receive_finalizes_tips [OF sample_stake_ok sample_dag_inv refl p(1) [unfolded sample_layer_def]
      run [unfolded sample_layer_def], of "addr 3"] p(2) run
  show ?thesis unfolding sample_layer_def by auto
qed

text \<open>C15: \<open>verify_finality_proof\<close> accepts exactly the proofs whose signatures come from distinct active
  validators, are valid, and add up to the recorded stake, which reaches the threshold the proof itself
  states.\<close>

theorem verify_finality_proof_exact:
  assumes "stake_ok (fl_validators f)"
  shows "verify_finality_proof env pr f = Inr True \<longleftrightarrow>
    distinct (map sg_validator (fp_signatures pr)) \<and>
    list_all (signed_by env (fl_validators f) (fp_checkpoint pr)) (fp_signatures pr) \<and>
    unat (fp_total_stake_signed pr) =
      sum_list (map (\<lambda>sig. stake_weight (fl_validators f) (sg_validator sig)) (fp_signatures pr)) \<and>
    fp_stake_threshold pr \<le> fp_total_stake_signed pr"
proof -
  let ?s = "fl_validators f"
  have inv: "vs_inv ?s" using assms by (simp add: stake_ok_def)
  have loop: "verify_proof_loop env ?s (checkpoint_signing_data (fe_hash env) (fp_checkpoint pr))
      (fp_signatures pr) {} 0 = Inr (Some t) \<longleftrightarrow>
      distinct (map sg_validator (fp_signatures pr)) \<and>
      list_all (signed_by env ?s (fp_checkpoint pr)) (fp_signatures pr) \<and>
      unat t = sum_list (map (\<lambda>sig. stake_weight ?s (sg_validator sig)) (fp_signatures pr))" for t
    using verify_proof_loop_exact [OF inv, of "[]" env "fp_checkpoint pr" "{}" 0 "fp_signatures pr" t] by simp
  have "verify_finality_proof env pr f = Inr True \<longleftrightarrow>
      verify_proof_loop env ?s (checkpoint_signing_data (fe_hash env) (fp_checkpoint pr))
        (fp_signatures pr) {} 0 = Inr (Some (fp_total_stake_signed pr)) \<and>
      fp_stake_threshold pr \<le> fp_total_stake_signed pr"
    by (auto simp: verify_finality_proof_def not_less split: sum.splits option.splits)
  then show ?thesis using loop by auto
qed

theorem verify_finality_proof_exact_witness:
  "verify_finality_proof sample_env (add_proof_signatures sample_env (cm_validator_set (sample_cm 10))
     [sample_signature 2, sample_signature 1] (finality_proof_new checkpoint_genesis 14)) (sample_layer 10) = Inr True"
proof -
  have "stake_ok (fl_validators (sample_layer 10))"
    using sample_stake_ok by (simp add: sample_layer_def finality_new_def)
  from verify_finality_proof_exact [OF this] show ?thesis
    by (simp add: proof_add_signature_def finality_proof_new_def MAX_FINALITY_SIGNATURES_def signed_by_def
        stake_weight_def saturating_add_def finality_ops sample_states)
qed


text \<open>\<open>create_finality_proof\<close> only looks at pending checkpoints, and a checkpoint leaves the pending
  ones when it reaches the threshold: no proof it returns shows finality.\<close>

theorem created_proof_not_final:
  assumes "stake_ok (cm_validator_set cm)" "dag_inv g"
    and "create_finality_proof env c
      (fold (finality_exec env) ops (finality_new roots stored by_hash latest g cm interval shards)) = Inr pr"
  shows "\<not> is_finalized pr"
proof -
  let ?s = "cm_validator_set cm"
  let ?f = "fold (finality_exec env) ops (finality_new roots stored by_hash latest g cm interval shards)"
  have inv: "finality_inv env ?s ?f" by (rule finality_run_inv [OF assms(1,2)])
  then obtain p where p: "pending_ok env ?s (checkpoint_hash (fe_hash env) c) p"
    and pr: "pr = add_proof_signatures env ?s (pc_signatures p) (finality_proof_new c (finality_threshold ?s))"
    using assms(3) by (auto simp: create_finality_proof_def Let_def finality_inv_def split: option.splits)
  then show ?thesis
    using add_proof_signatures_stake [of env ?s "pc_signatures p" "finality_proof_new c (finality_threshold ?s)"]
    by (auto simp: is_finalized_def finality_proof_new_def pending_ok_def word_less_nat_alt word_le_nat_alt)
qed

theorem created_proof_not_final_witness:
  "\<exists>c pr. create_finality_proof sample_env c
      (fold (finality_exec sample_env) [MaybeCreate 1 None 5,
        Receive good_disk None (addr 9) (sample_signature 1)] (sample_layer 10)) = Inr pr \<and> \<not> is_finalized pr"
proof -
  obtain pr where run: "create_finality_proof sample_env checkpoint_genesis
      (fold (finality_exec sample_env) [MaybeCreate 1 None 5,
        Receive good_disk None (addr 9) (sample_signature 1)] (sample_layer 10)) = Inr pr"
    by (simp add: create_finality_proof_def finality_ops sample_states dag_samples Let_def)
  with created_proof_not_final [OF sample_stake_ok sample_dag_inv run [unfolded sample_layer_def]]
  show ?thesis by blast
qed

text \<open>When the signature that completes a quorum arrives and the checkpoint cannot be written, the
  collected signatures are gone: the call fails, the checkpoint is neither pending nor final, and
  further signatures for it are ignored.\<close>

theorem finality_write_error_forgets:
  assumes "finality_inv env s f" "fl_pending f key = Some p"
    and "sg_validator sig \<notin> pc_signers p" "signed_by env s (pc_checkpoint p) sig"
    and "finality_threshold s \<le> pc_total_stake_signed (counted s sig p)"
    and "receive_checkpoint_signature env d (Some e) key sig f = (r, f')"
  shows "r = Inl (StorageError e) \<and> fl_finalized f' = fl_finalized f \<and>
    receive_checkpoint_signature env d' put_error key sig' f' = (Inr None, f')"
  using assms(6) unfolding receive_quorum [OF assms(1-5)]
  by (auto simp: finalize_checkpoint_def put_checkpoint_def Let_def receive_checkpoint_signature_def)

theorem finality_write_error_forgets_witness:
  "fst (receive_checkpoint_signature sample_env good_disk (Some ''disk full'') (addr 9) (sample_signature 2)
     (fold (finality_exec sample_env) [MaybeCreate 1 None 5,
        Receive good_disk None (addr 9) (sample_signature 1)] (sample_layer 10))) =
   Inl (StorageError ''disk full'')"
proof -
  let ?f = "fold (finality_exec sample_env) [MaybeCreate 1 None 5,
    Receive good_disk None (addr 9) (sample_signature 1)] (sample_layer 10)"
  have inv: "finality_inv sample_env (cm_validator_set (sample_cm 10)) ?f"
    unfolding sample_layer_def by (rule finality_run_inv [OF sample_stake_ok sample_dag_inv])
  obtain p where p: "fl_pending ?f (addr 9) = Some p" "pc_signers p = {addr 1}" "pc_total_stake_signed p = 10"
    by (simp add: finality_ops sample_states dag_samples Let_def)
  obtain r f' where run: "receive_checkpoint_signature sample_env good_disk (Some ''disk full'') (addr 9)
      (sample_signature 2) ?f = (r, f')" by fastforce
  have "r = Inl (StorageError ''disk full'')"
    by (rule finality_write_error_forgets [OF inv p(1) _ _ _ run, THEN conjunct1])
      (simp_all add: p counted_def signed_by_def finality_ops sample_states)
  with run show ?thesis by simp
qed


end
