(* ===== verification/Revert_Reason.thy ===== *)
theory Revert_Reason
  imports Transaction
begin

text \<open>
  The text a reverted contract call is reported with (\<open>state/manager.rs\<close>): the decoding of ABI- and
  SCALE-encoded revert data, and the payload of a deployment (\<open>vm/contract.rs\<close>).  The data is
  chosen by the contract, so the decoder must not fail on any input; a panic is the value None.

  Of the standard library the section models what the decoder uses: the 64-bit \<open>usize\<close> with its
  wrapping addition, slices, UTF-8 validation and trimming.  A string is the list of its UTF-8 bytes,
  as characters.  The hexadecimal rendering is a parameter.
\<close>

section \<open>Standard library\<close>

definition USIZE_MAX :: nat where "USIZE_MAX = 2 ^ 64 - 1"

definition usize_add :: "nat \<Rightarrow> nat \<Rightarrow> nat" where
  "usize_add a b = (a + b) mod 2 ^ 64"

definition usize_saturating_add :: "nat \<Rightarrow> nat \<Rightarrow> nat" where
  "usize_saturating_add a b = min (a + b) USIZE_MAX"

text \<open>\<open>&data[a..b]\<close>, which panics out of range.\<close>

definition subslice :: "nat \<Rightarrow> nat \<Rightarrow> 'a list \<Rightarrow> 'a list option" where
  "subslice a b xs = (if a \<le> b \<and> b \<le> length xs then Some (take (b - a) (drop a xs)) else None)"

definition text_of :: "bytes \<Rightarrow> string" where
  "text_of bs = map (\<lambda>b. char_of (unat b)) bs"

definition continuation :: "u8 \<Rightarrow> bool" where
  "continuation b \<longleftrightarrow> 0x80 \<le> b \<and> b \<le> 0xBF"

fun utf8_valid :: "bytes \<Rightarrow> bool" where
  "utf8_valid [] = True"
| "utf8_valid (a # bs) =
    (if a \<le> 0x7F then utf8_valid bs else
     if 0xC2 \<le> a \<and> a \<le> 0xDF
     then (case bs of b # cs \<Rightarrow> continuation b \<and> utf8_valid cs | _ \<Rightarrow> False) else
     if 0xE0 \<le> a \<and> a \<le> 0xEF
     then (case bs of b # c # ds \<Rightarrow>
         (if a = 0xE0 then 0xA0 \<le> b \<and> b \<le> 0xBF else if a = 0xED then 0x80 \<le> b \<and> b \<le> 0x9F else continuation b) \<and>
         continuation c \<and> utf8_valid ds
       | _ \<Rightarrow> False) else
     if 0xF0 \<le> a \<and> a \<le> 0xF4
     then (case bs of b # c # d # es \<Rightarrow>
         (if a = 0xF0 then 0x90 \<le> b \<and> b \<le> 0xBF else if a = 0xF4 then 0x80 \<le> b \<and> b \<le> 0x8F else continuation b) \<and>
         continuation c \<and> continuation d \<and> utf8_valid es
       | _ \<Rightarrow> False)
     else False)"

text \<open>The UTF-8 encodings of the characters that \<open>str::trim\<close> removes.\<close>

definition whitespace :: "string list" where
  "whitespace = map text_of
    ([[0x09], [0x0A], [0x0B], [0x0C], [0x0D], [0x20], [0xC2, 0x85], [0xC2, 0xA0], [0xE1, 0x9A, 0x80]] @
     map (\<lambda>b. [0xE2, 0x80, b]) [0x80, 0x81, 0x82, 0x83, 0x84, 0x85, 0x86, 0x87, 0x88, 0x89, 0x8A, 0xA8, 0xA9, 0xAF] @
     [[0xE2, 0x81, 0x9F], [0xE3, 0x80, 0x80]])"

definition starts_with :: "string \<Rightarrow> string \<Rightarrow> bool" where
  "starts_with p s \<longleftrightarrow> take (length p) s = p"

definition ends_with :: "string \<Rightarrow> string \<Rightarrow> bool" where
  "ends_with p s \<longleftrightarrow> starts_with (rev p) (rev s)"

text \<open>Removal of any number of the given strings at the front; the fuel is the length of the text,
  since every removal shortens it.\<close>

fun strip_front :: "nat \<Rightarrow> string list \<Rightarrow> string \<Rightarrow> string" where
  "strip_front 0 ps s = s"
| "strip_front (Suc n) ps s =
    (case find (\<lambda>p. starts_with p s) ps of
       Some p \<Rightarrow> strip_front n ps (drop (length p) s)
     | None \<Rightarrow> s)"

definition trim_start_of :: "string list \<Rightarrow> string \<Rightarrow> string" where
  "trim_start_of ps s = strip_front (length s) ps s"

definition trim_end_of :: "string list \<Rightarrow> string \<Rightarrow> string" where
  "trim_end_of ps s = rev (strip_front (length s) (map rev ps) (rev s))"

definition str_trim :: "string \<Rightarrow> string" where
  "str_trim s = trim_end_of whitespace (trim_start_of whitespace s)"

section \<open>Decoding revert data\<close>

definition decode_abi_usize :: "bytes \<Rightarrow> nat option" where
  "decode_abi_usize word =
    (if length word \<noteq> 32 \<or> list_ex (\<lambda>b. b \<noteq> 0) (take 24 word) then None
     else Some (unat (from_be_bytes (drop 24 word) :: u64)))"

definition decode_scale_compact_usize :: "bytes \<Rightarrow> (nat \<times> nat) option" where
  "decode_scale_compact_usize data =
    (case data of
       [] \<Rightarrow> None
     | first # _ \<Rightarrow>
         if first AND 3 = 0 then Some (unat (drop_bit 2 first), 1) else
         if first AND 3 = 1 then
           (case data of
              _ # second # _ \<Rightarrow> Some (unat (drop_bit 2 (from_le_bytes [first, second] :: u16)), 2)
            | _ \<Rightarrow> None) else
         if first AND 3 = 2 then
           (if length data < 4 then None
            else Some (unat (drop_bit 2 (from_le_bytes (take 4 data) :: u32)), 4)) else
         (let byte_len = unat (drop_bit 2 first) + 4 in
          if length data < 1 + byte_len then None else
          let len_bytes = take byte_len (drop 1 data) in
          if length len_bytes > 8 then None
          else Some (unat (from_le_bytes len_bytes :: u64), 1 + byte_len)))"

definition decode_uint256_le_u128 :: "bytes \<Rightarrow> u128 option" where
  "decode_uint256_le_u128 data = (if length data < 16 then None else Some (from_le_bytes (take 16 data)))"

definition ERROR_SELECTOR :: bytes where "ERROR_SELECTOR = [0x08, 0xC3, 0x79, 0xA0]"

text \<open>The ABI branch: None is a panic, Some None falls through to the next encoding.\<close>

definition abi_reason :: "bytes \<Rightarrow> string option option" where
  "abi_reason data =
    (if length data < 68 \<or> take 4 data \<noteq> ERROR_SELECTOR then Some None else
     case decode_abi_usize (take 32 (drop 4 data)) of
       None \<Rightarrow> Some None
     | Some offset \<Rightarrow>
         (let length_pos = usize_add 4 offset in
          if usize_add length_pos 32 > length data then Some None else
          case subslice length_pos (usize_add length_pos 32) data of
            None \<Rightarrow> None
          | Some word \<Rightarrow>
              (case decode_abi_usize word of
                 None \<Rightarrow> Some None
               | Some str_len \<Rightarrow>
                   (let str_start = usize_add length_pos 32;
                        str_end = usize_saturating_add str_start str_len in
                    if str_end > length data then Some None else
                    map_option (\<lambda>reason. if utf8_valid reason then Some (text_of reason) else None)
                      (subslice str_start str_end data)))))"

definition scale_reason :: "bytes \<Rightarrow> string option option" where
  "scale_reason data =
    (if length data < 5 \<or> take 4 data \<noteq> ERROR_SELECTOR then Some None else
     let payload = drop 4 data in
     case decode_scale_compact_usize payload of
       None \<Rightarrow> Some None
     | Some (str_len, prefix_len) \<Rightarrow>
         (let str_start = prefix_len; str_end = usize_saturating_add str_start str_len in
          if str_end > length payload then Some None else
          map_option (\<lambda>reason. if utf8_valid reason then Some (text_of reason) else None)
            (subslice str_start str_end payload)))"

definition decode_contract_revert_reason :: "(bytes \<Rightarrow> string) \<Rightarrow> bytes \<Rightarrow> string option" where
  "decode_contract_revert_reason hex data =
    (if data = [] then Some ''No revert reason provided'' else
     case abi_reason data of
       None \<Rightarrow> None
     | Some (Some reason) \<Rightarrow> Some reason
     | Some None \<Rightarrow>
         (case scale_reason data of
            None \<Rightarrow> None
          | Some (Some reason) \<Rightarrow> Some reason
          | Some None \<Rightarrow> Some (if utf8_valid data then text_of data else ''0x'' @ hex data)))"

text \<open>The reason taken from the debug messages when there is no return data: the last message that is
  not empty after trimming and not a marker of the runtime.\<close>

definition debug_reason :: "string list \<Rightarrow> string" where
  "debug_reason messages =
    unwrap_or (find (\<lambda>m. m \<noteq> [] \<and> \<not> starts_with ''call:'' m \<and> \<not> starts_with ''runtime_error:'' m)
      (map (\<lambda>m. trim_end_of ['',''] (str_trim m)) (rev messages))) ''No revert reason provided''"

section \<open>Deployment payloads\<close>

definition CONTRACT_DEPLOY_PAYLOAD_MAGIC :: bytes where
  "CONTRACT_DEPLOY_PAYLOAD_MAGIC = ascii ''QDP1''"

text \<open>The only error is \<open>VmError::InvalidBytecode\<close>, given by its text.\<close>

definition decode_contract_deploy_payload :: "bytes \<Rightarrow> string + (bytes \<times> bytes)" where
  "decode_contract_deploy_payload data =
    (if length data \<ge> 4 \<and> take 4 data = 0 # ascii ''asm'' then Inr (data, []) else
     if length data < 12 \<or> take 4 data \<noteq> CONTRACT_DEPLOY_PAYLOAD_MAGIC then Inl ''Invalid bytecode'' else
     let bytecode_len = unat (from_le_bytes (take 4 (drop 4 data)) :: u32);
         constructor_len = unat (from_le_bytes (take 4 (drop 8 data)) :: u32);
         expected_len = 12 + bytecode_len + constructor_len in
     if expected_len > USIZE_MAX then Inl ''Invalid bytecode'' else
     if bytecode_len = 0 \<or> expected_len \<noteq> length data then Inl ''Invalid bytecode'' else
     Inr (take bytecode_len (drop 12 data), drop (12 + bytecode_len) data))"

section \<open>Lemmas\<close>

lemma subslice_eq_None: "subslice a b xs = None \<longleftrightarrow> b < a \<or> length xs < b"
  by (auto simp: subslice_def)

lemma subslice_eq_Some:
  "subslice a b xs = Some ys \<longleftrightarrow> a \<le> b \<and> b \<le> length xs \<and> ys = take (b - a) (drop a xs)"
  by (auto simp: subslice_def)

lemma usize_add_less: "usize_add a b < 2 ^ 64"
  by (simp add: usize_add_def)

lemma usize_add_small: "a + b < 2 ^ 64 \<Longrightarrow> usize_add a b = a + b"
  by (simp add: usize_add_def)

lemma decode_abi_usize_less: "decode_abi_usize w = Some n \<Longrightarrow> n < 2 ^ 64"
  using unat_u64_less [of "from_be_bytes (drop 24 w)"] by (auto simp: decode_abi_usize_def split: if_splits)

lemma usize_saturating_ge: "a \<le> USIZE_MAX \<Longrightarrow> a \<le> usize_saturating_add a b"
  by (simp add: usize_saturating_add_def)

text \<open>The end of the length word lies before its start only when the addition wrapped.\<close>

lemma length_word_wraps:
  assumes "offset < 2 ^ 64" "68 \<le> n"
  shows "usize_add (usize_add 4 offset) 32 \<le> n \<and> usize_add (usize_add 4 offset) 32 < usize_add 4 offset \<longleftrightarrow>
    2 ^ 64 - 36 \<le> offset \<and> offset < 2 ^ 64 - 4"
proof (cases "offset < 2 ^ 64 - 4")
  case small: True
  then have lp: "usize_add 4 offset = 4 + offset" by (simp add: usize_add_small)
  show ?thesis
  proof (cases "offset < 2 ^ 64 - 36")
    case True
    then have "usize_add (4 + offset) 32 = 4 + offset + 32" by (simp add: usize_add_small)
    with True lp show ?thesis by simp
  next
    case False
    then have "usize_add (4 + offset) 32 = 4 + offset + 32 - 2 ^ 64"
      using small by (simp add: usize_add_def mod_if)
    with False small lp assms show ?thesis by auto
  qed
next
  case False
  then have "usize_add 4 offset = 4 + offset - 2 ^ 64" using assms(1) by (simp add: usize_add_def mod_if)
  moreover from this have "usize_add (usize_add 4 offset) 32 = usize_add 4 offset + 32"
    using assms(1) by (simp add: usize_add_small)
  ultimately show ?thesis using False by auto
qed

lemma scale_reason_returns: "scale_reason data \<noteq> None"
proof -
  have prefix: "p \<le> 68" if "decode_scale_compact_usize payload = Some (n, p)" for payload n p
  proof -
    have "unat (drop_bit 2 b) \<le> 63" for b :: u8
      using unat_less_exp [of b] by (simp add: drop_bit_eq_div unat_div)
    note bound = this
    have "unat (drop_bit 2 b) + 5 \<le> 68" for b :: u8 using bound [of b] by simp
    with that show ?thesis
      by (auto simp: decode_scale_compact_usize_def Let_def split: list.splits if_splits)
  qed
  show ?thesis
  proof (cases "decode_scale_compact_usize (drop 4 data)")
    case (Some r)
    obtain n p where r: "r = (n, p)" by fastforce
    have "p \<le> usize_saturating_add p n"
      using prefix [of "drop 4 data" n p] Some r by (intro usize_saturating_ge) (simp add: USIZE_MAX_def)
    with Some r show ?thesis by (simp add: scale_reason_def Let_def subslice_def not_less)
  qed (simp add: scale_reason_def Let_def)
qed

lemma abi_reason_panics:
  "abi_reason data = None \<longleftrightarrow> 68 \<le> length data \<and> take 4 data = ERROR_SELECTOR \<and>
    (\<exists>offset. decode_abi_usize (take 32 (drop 4 data)) = Some offset \<and>
       2 ^ 64 - 36 \<le> offset \<and> offset < 2 ^ 64 - 4)"
proof (cases "68 \<le> length data \<and> take 4 data = ERROR_SELECTOR")
  case True
  show ?thesis
  proof (cases "decode_abi_usize (take 32 (drop 4 data))")
    case None
    with True show ?thesis by (simp add: abi_reason_def)
  next
    case (Some offset)
    let ?lp = "usize_add 4 offset"
    let ?e = "usize_add ?lp 32"
    have second: "subslice ?e (usize_saturating_add ?e n) data \<noteq> None"
      if "\<not> length data < usize_saturating_add ?e n" for n
      using that usize_saturating_ge [of ?e n] usize_add_less [of ?lp 32]
      by (simp add: USIZE_MAX_def subslice_eq_None)
    have "abi_reason data = None \<longleftrightarrow> ?e \<le> length data \<and> ?e < ?lp"
    proof (cases "subslice ?lp ?e data")
      case None
      then have "?e < ?lp \<or> length data < ?e" by (simp add: subslice_eq_None)
      with None True Some show ?thesis by (auto simp: abi_reason_def Let_def)
    next
      case sub: (Some word)
      then have "?lp \<le> ?e" by (simp add: subslice_eq_Some)
      moreover have "abi_reason data \<noteq> None"
        using True Some sub second
        by (auto simp: abi_reason_def Let_def split: option.splits)
      ultimately show ?thesis by simp
    qed
    also have "\<dots> \<longleftrightarrow> 2 ^ 64 - 36 \<le> offset \<and> offset < 2 ^ 64 - 4"
      using length_word_wraps [OF decode_abi_usize_less [OF Some]] True by blast
    finally show ?thesis using True Some by simp
  qed
qed (auto simp: abi_reason_def)

text \<open>A word of the ABI: a 64-bit number in the last eight of thirty-two bytes.\<close>

definition abi_word :: "u64 \<Rightarrow> bytes" where
  "abi_word n = replicate 24 0 @ to_be_bytes n"

lemma decode_abi_word: "decode_abi_usize (abi_word n) = Some (unat n)"
  by (simp add: decode_abi_usize_def abi_word_def from_to_be_bytes list_ex_iff)

lemma length_abi_word [simp]: "length (abi_word n) = 32"
  by (simp add: abi_word_def)

section \<open>Properties\<close>

text \<open>C10: The decoder of revert data returns a text for every input a contract can choose, except one
  family: data with the error selector whose offset word lies within thirty-two of the wrap-around of
  \<open>usize\<close>, for which the slice of the length word ends before it starts and the call panics.\<close>

theorem revert_reason_panics_iff:
  "decode_contract_revert_reason hex data = None \<longleftrightarrow>
    68 \<le> length data \<and> take 4 data = ERROR_SELECTOR \<and>
    (\<exists>offset. decode_abi_usize (take 32 (drop 4 data)) = Some offset \<and>
       2 ^ 64 - 36 \<le> offset \<and> offset < 2 ^ 64 - 4)"
proof -
  have "decode_contract_revert_reason hex data = None \<longleftrightarrow> abi_reason data = None"
    using scale_reason_returns [of data] abi_reason_panics [of data]
    by (auto simp: decode_contract_revert_reason_def split: option.splits)
  then show ?thesis by (simp only: abi_reason_panics)
qed

text \<open>C11: The revert data a Solidity contract produces for an error string is decoded to that string,
  whatever follows it.\<close>

theorem revert_reason_roundtrip:
  assumes "utf8_valid reason" "length reason < 2 ^ 63"
  shows "decode_contract_revert_reason hex
      (ERROR_SELECTOR @ abi_word 32 @ abi_word (of_nat (length reason)) @ reason @ padding) =
    Some (text_of reason)"
proof -
  let ?n = "length reason"
  let ?data = "ERROR_SELECTOR @ abi_word 32 @ abi_word (of_nat ?n) @ reason @ padding"
  have sel: "length ERROR_SELECTOR = 4" by (simp add: ERROR_SELECTOR_def)
  have off: "usize_add 4 32 = 36" "usize_add 36 32 = 68" by (simp_all add: usize_add_def)
  have word: "take 32 (drop 4 ?data) = abi_word 32" "subslice 36 68 ?data = Some (abi_word (of_nat ?n))"
    by (simp_all add: sel subslice_def)
  have n: "unat (of_nat ?n :: u64) = ?n" using assms(2) by (simp add: unat_of_nat)
  have "abi_reason ?data = Some (Some (text_of reason))"
    using assms n by (simp add: abi_reason_def sel word decode_abi_word off Let_def usize_saturating_add_def
        USIZE_MAX_def subslice_def)
  then show ?thesis by (simp add: decode_contract_revert_reason_def ERROR_SELECTOR_def)
qed

theorem revert_reason_roundtrip_witness:
  "decode_contract_revert_reason (\<lambda>_. []) (ERROR_SELECTOR @ abi_word 32 @ abi_word 2 @ [110, 111] @ replicate 30 0) =
   Some ''no''"
  using revert_reason_roundtrip [of "[110, 111]" "\<lambda>_. []" "replicate 30 0"]
  by (simp add: text_of_def) (simp add: char_of_def bit_0)

end
