(* ===== verification/Sparse_Merkle.thy ===== *)
theory Sparse_Merkle
  imports Transaction "HOL-Library.List_Lexorder"
begin

text \<open>
  The state root (\<open>state/manager.rs\<close>): a sparse Merkle tree of depth 256 over the account hashes,
  computed level by level over an ordered map that holds only the nodes with an account below them.
  The reference is the full binary tree over all \<open>2 ^ 256\<close> keys.  SHA3-256 is a parameter.

  A \<open>BTreeMap\<close> is its list of entries in key order; byte arrays are ordered lexicographically.
\<close>

section \<open>Ordered maps\<close>

type_synonym ('k, 'v) btree = "('k \<times> 'v) list"

fun btree_insert :: "'k::linorder \<Rightarrow> 'v \<Rightarrow> ('k, 'v) btree \<Rightarrow> ('k, 'v) btree" where
  "btree_insert k v [] = [(k, v)]"
| "btree_insert k v ((k', v') # t) =
    (if k < k' then (k, v) # (k', v') # t else
     if k = k' then (k, v) # t
     else (k', v') # btree_insert k v t)"

definition btree_ok :: "('k::linorder, 'v) btree \<Rightarrow> bool" where
  "btree_ok t \<longleftrightarrow> sorted_wrt (<) (map fst t)"

lemma map_of_btree_insert [simp]: "map_of (btree_insert k v t) = (map_of t)(k \<mapsto> v)"
  by (induction t) (auto simp: fun_eq_iff)

lemma fst_btree_insert: "fst ` set (btree_insert k v t) = insert k (fst ` set t)"
  by (simp flip: dom_map_of_conv_image_fst)

lemma btree_ok_insert [intro]: "btree_ok t \<Longrightarrow> btree_ok (btree_insert k v t)"
proof (induction t)
  case (Cons e t)
  obtain k' v' where e: "e = (k', v')" by fastforce
  from Cons.prems have t: "btree_ok t" "\<forall>x\<in>fst ` set t. k' < x" by (auto simp: btree_ok_def e)
  have "\<forall>x\<in>fst ` set (btree_insert k v t). k' < x" if "k' < k"
    using t(2) that by (simp add: fst_btree_insert)
  with Cons t show ?case by (auto simp: btree_ok_def e dest: less_trans)
qed (simp add: btree_ok_def)

lemma btree_ok_Nil [simp]: "btree_ok []"
  by (simp add: btree_ok_def)

lemma btree_distinct: "btree_ok t \<Longrightarrow> distinct (map fst t)"
  by (simp add: btree_ok_def strict_sorted_iff)

text \<open>Two ordered maps with the same entries are the same list.\<close>

lemma btree_ext:
  assumes "btree_ok s" "btree_ok t" "map_of s = map_of t"
  shows "s = t"
proof -
  have "fst ` set s = fst ` set t" using assms(3) by (metis dom_map_of_conv_image_fst)
  then have keys: "map fst s = map fst t"
    using assms(1,2) by (intro sorted_distinct_set_unique) (auto simp: btree_ok_def strict_sorted_iff)
  show ?thesis using assms(3) keys
  proof (intro nth_equalityI)
    show len: "length s = length t" using keys by (metis length_map)
    fix i assume i: "i < length s"
    have k: "fst (s ! i) = fst (t ! i)" using keys i len by (metis nth_map)
    have "map_of s (fst (s ! i)) = Some (snd (s ! i))" "map_of t (fst (t ! i)) = Some (snd (t ! i))"
      using btree_distinct [OF assms(1)] btree_distinct [OF assms(2)] i len by (auto intro: map_of_is_SomeI)
    then show "s ! i = t ! i" using k assms(3) by (metis option.inject prod.expand)
  qed
qed

section \<open>The sparse tree\<close>

definition SMT_EMPTY_LEAF_DOMAIN :: bytes where
  "SMT_EMPTY_LEAF_DOMAIN = ascii ''QUANTOS_STATE_SMT_EMPTY_LEAF_V1''"
definition SMT_LEAF_DOMAIN :: bytes where "SMT_LEAF_DOMAIN = ascii ''QUANTOS_STATE_SMT_LEAF_V1''"
definition SMT_NODE_DOMAIN :: bytes where "SMT_NODE_DOMAIN = ascii ''QUANTOS_STATE_SMT_NODE_V1''"

definition smt_hash_leaf :: "(bytes \<Rightarrow> hash) \<Rightarrow> address \<Rightarrow> hash \<Rightarrow> hash" where
  "smt_hash_leaf hash_data a ah = hash_data (SMT_LEAF_DOMAIN @ a @ ah)"

definition smt_hash_node :: "(bytes \<Rightarrow> hash) \<Rightarrow> hash \<Rightarrow> hash \<Rightarrow> hash" where
  "smt_hash_node hash_data left right = hash_data (SMT_NODE_DOMAIN @ left @ right)"

fun smt_default :: "(bytes \<Rightarrow> hash) \<Rightarrow> nat \<Rightarrow> hash" where
  "smt_default hash_data 0 = hash_data SMT_EMPTY_LEAF_DOMAIN"
| "smt_default hash_data (Suc level) =
    smt_hash_node hash_data (smt_default hash_data level) (smt_default hash_data level)"

definition smt_default_hashes :: "(bytes \<Rightarrow> hash) \<Rightarrow> hash list" where
  "smt_default_hashes hash_data = map (smt_default hash_data) [0..<257]"

fun shift_bytes :: "u8 \<Rightarrow> bytes \<Rightarrow> bytes" where
  "shift_bytes carry [] = []"
| "shift_bytes carry (b # bs) = (drop_bit 1 b OR push_bit 7 carry) # shift_bytes (b AND 1) bs"

definition shift_right_one :: "address \<Rightarrow> address" where
  "shift_right_one key = shift_bytes 0 key"

definition toggle_lowest_bit :: "address \<Rightarrow> address" where
  "toggle_lowest_bit key = key[31 := (key ! 31) XOR 1]"

definition smt_parent :: "(bytes \<Rightarrow> hash) \<Rightarrow> hash \<Rightarrow> (address, hash) btree \<Rightarrow> address \<times> hash \<Rightarrow>
    (address, hash) btree \<Rightarrow> (address, hash) btree" where
  "smt_parent hash_data dflt nodes = (\<lambda>(key, h) parents.
    let sibling_key = toggle_lowest_bit key in
    if sibling_key < key \<and> map_of nodes sibling_key \<noteq> None then parents else
    let sibling_hash = unwrap_or (map_of nodes sibling_key) dflt;
        (left, right) = (if (key ! 31) AND 1 = 0 then (h, sibling_hash) else (sibling_hash, h))
    in btree_insert (shift_right_one key) (smt_hash_node hash_data left right) parents)"

definition smt_level :: "(bytes \<Rightarrow> hash) \<Rightarrow> nat \<Rightarrow> (address, hash) btree \<Rightarrow> (address, hash) btree" where
  "smt_level hash_data level nodes =
    fold (smt_parent hash_data (smt_default_hashes hash_data ! level) nodes) nodes []"

definition smt_leaves :: "(bytes \<Rightarrow> hash) \<Rightarrow> (address \<times> hash) list \<Rightarrow> (address, hash) btree" where
  "smt_leaves hash_data account_hashes =
    fold (\<lambda>(a, ah). btree_insert a (smt_hash_leaf hash_data a ah)) account_hashes []"

definition sparse_merkle_root :: "(bytes \<Rightarrow> hash) \<Rightarrow> (address \<times> hash) list \<Rightarrow> hash" where
  "sparse_merkle_root hash_data account_hashes =
    (let defaults = smt_default_hashes hash_data in
     if account_hashes = [] then defaults ! 256 else
     case fold (smt_level hash_data) [0..<256] (smt_leaves hash_data account_hashes) of
       [] \<Rightarrow> defaults ! 256
     | (k, h) # _ \<Rightarrow> h)"

section \<open>The full tree\<close>

text \<open>The number a key stands for, most significant byte first.\<close>

definition key_num :: "bytes \<Rightarrow> nat" where
  "key_num key = foldl (\<lambda>n b. 256 * n + unat b) 0 key"

text \<open>The hash of node \<open>i\<close> at height \<open>n\<close>, for the byte strings \<open>leaf\<close> that the leaves are hashed from.\<close>

fun full_tree :: "(bytes \<Rightarrow> hash) \<Rightarrow> (nat \<Rightarrow> bytes) \<Rightarrow> nat \<Rightarrow> nat \<Rightarrow> hash" where
  "full_tree hash_data leaf 0 i = hash_data (leaf i)"
| "full_tree hash_data leaf (Suc n) i =
    smt_hash_node hash_data (full_tree hash_data leaf n (2 * i)) (full_tree hash_data leaf n (2 * i + 1))"

text \<open>What the leaf of a key is hashed from: the last hash listed for it.\<close>

definition leaf_string :: "(address \<times> hash) list \<Rightarrow> nat \<Rightarrow> bytes" where
  "leaf_string account_hashes i =
    (case find (\<lambda>(a, _). key_num a = i) (rev account_hashes) of
       Some (a, ah) \<Rightarrow> SMT_LEAF_DOMAIN @ a @ ah
     | None \<Rightarrow> SMT_EMPTY_LEAF_DOMAIN)"

section \<open>Lemmas on keys\<close>

lemma key_num_foldl: "foldl (\<lambda>n b. 256 * n + unat (b :: u8)) a bs = a * 256 ^ length bs + key_num bs"
proof (induction bs arbitrary: a)
  case (Cons b bs)
  show ?case using Cons.IH [of "256 * a + unat b"] Cons.IH [of "unat b"] by (simp add: key_num_def algebra_simps)
qed (simp add: key_num_def)

lemma key_num_Nil [simp]: "key_num [] = 0"
  by (simp add: key_num_def)

lemma key_num_Cons [simp]: "key_num (b # bs) = unat b * 256 ^ length bs + key_num bs"
  using key_num_foldl [of "unat b" bs] by (simp add: key_num_def)

lemma unat_u8_less: "unat (b :: u8) < 256"
  using unat_less_exp [of b] by simp

lemma key_num_less: "key_num bs < 256 ^ length bs"
proof (induction bs)
  case (Cons b bs)
  have "unat b * 256 ^ length bs + key_num bs < unat b * 256 ^ length bs + 256 ^ length bs"
    using Cons.IH by simp
  also have "\<dots> = (unat b + 1) * 256 ^ length bs" by simp
  also have "\<dots> \<le> 256 * 256 ^ length bs" using unat_u8_less [of b] by (intro mult_right_mono) auto
  finally show ?case by simp
qed simp

lemma digit_inject:
  fixes m :: nat
  assumes "x * m + a = y * m + b" "a < m" "b < m"
  shows "x = y" "a = b"
proof -
  have "(x * m + a) div m = (y * m + b) div m" by (simp only: assms(1))
  then show "x = y" using assms(2,3) by simp
  with assms(1) show "a = b" by simp
qed

lemma key_num_inject: "length bs = length cs \<Longrightarrow> key_num bs = key_num cs \<longleftrightarrow> bs = cs"
proof (induction bs cs rule: list_induct2)
  case (Cons b bs c cs)
  have less: "key_num bs < 256 ^ length bs" "key_num cs < 256 ^ length bs"
    using key_num_less [of bs] key_num_less [of cs] Cons(1) by simp_all
  show ?case
  proof
    assume "key_num (b # bs) = key_num (c # cs)"
    then have "unat b * 256 ^ length bs + key_num bs = unat c * 256 ^ length bs + key_num cs"
      by (simp only: key_num_Cons Cons(1))
    note eq = digit_inject [OF this less]
    from eq(1) have "b = c" by (simp add: word_unat_eq_iff)
    moreover from eq(2) Cons(2) have "bs = cs" by blast
    ultimately show "b # bs = c # cs" by blast
  qed simp
qed simp

lemma unat_and_one: "unat (b AND 1 :: u8) = unat b mod 2"
  by (simp add: and_one_eq unat_mod)

lemma unat_shifted:
  assumes "c = 0 \<or> c = 1"
  shows "unat (drop_bit 1 b OR push_bit 7 c :: u8) = unat b div 2 + 128 * unat c"
proof -
  have "drop_bit 1 b AND push_bit 7 c = 0"
    by (intro bit_word_eqI) (auto simp: bit_simps dest: bit_imp_le_length)
  then have "drop_bit 1 b OR push_bit 7 c = drop_bit 1 b + push_bit 7 c"
    by (simp add: disjunctive_add_eq_or)
  moreover have half: "unat (drop_bit 1 b) = unat b div 2" by (simp add: drop_bit_eq_div unat_div)
  moreover have top: "unat (push_bit 7 c) = 128 * unat c" using assms by auto
  moreover have "unat (drop_bit 1 b) + unat (push_bit 7 c) < 2 ^ LENGTH(8)"
    unfolding half top using unat_u8_less [of b] assms by auto
  ultimately show ?thesis by (simp add: unat_add_no_overflow)
qed

lemma length_shift_bytes [simp]: "length (shift_bytes c bs) = length bs"
  by (induction bs arbitrary: c) simp_all

lemma shifted_sum: "2 * ((x + 128 * c) * m) + (y * m + k) = c * (256 * m) + ((2 * x + y) * m + k)" for m :: nat
  by (simp add: algebra_simps)

lemma key_num_shift_bytes:
  "c = 0 \<or> c = 1 \<Longrightarrow> key_num (shift_bytes c bs) = (unat c * 256 ^ length bs + key_num bs) div 2"
proof (induction bs arbitrary: c)
  case Nil
  then show ?case by auto
next
  case (Cons b bs)
  let ?m = "256 ^ length bs :: nat"
  have bit: "b AND 1 = 0 \<or> b AND 1 = 1"
    using unat_and_one [of b] by (metis mod_2_eq_odd of_bool_eq unat_eq_zero unat_1 word_unat_eq_iff)
  have m: "even (256 * ?m)" "256 * ?m div 2 = 128 * ?m" by simp_all
  have "key_num (shift_bytes c (b # bs)) =
      (unat b div 2 + 128 * unat c) * ?m + (unat b mod 2 * ?m + key_num bs) div 2"
    using Cons.IH [OF bit] Cons.prems by (simp add: unat_shifted unat_and_one del: One_nat_def)
  also have "\<dots> = (2 * ((unat b div 2 + 128 * unat c) * ?m) + (unat b mod 2 * ?m + key_num bs)) div 2" by simp
  also note shifted_sum
  also have "2 * (unat b div 2) + unat b mod 2 = unat b" by simp
  finally show ?case by simp
qed

lemma length_keys [simp]:
  "length (shift_right_one k) = length k" "length (toggle_lowest_bit k) = length k"
  by (simp_all add: shift_right_one_def toggle_lowest_bit_def)

lemma key_num_shift: "key_num (shift_right_one k) = key_num k div 2"
  by (simp add: shift_right_one_def key_num_shift_bytes)

lemma key_num_snoc: "key_num (bs @ [b]) = 256 * key_num bs + unat b"
  by (simp add: key_num_def)

lemma unat_xor_one: "unat (b XOR 1 :: u8) = (if even (unat b) then unat b + 1 else unat b - 1)"
proof -
  have "unat (b XOR 1) = unat b XOR 1" by (simp add: unsigned_xor_eq)
  then show ?thesis by (auto simp: xor_one_eq xor_nat_unfold)
qed

lemma last_byte:
  assumes "length k = 32"
  obtains bs b where "k = bs @ [b]" "k ! 31 = b" "length bs = 31"
proof -
  from assms have "k \<noteq> []" by auto
  then obtain bs b where k: "k = bs @ [b]" by (metis rev_exhaust)
  with assms that show ?thesis by (auto simp: nth_append)
qed

lemma even_key:
  assumes "length k = 32"
  shows "(k ! 31) AND 1 = 0 \<longleftrightarrow> even (key_num k)"
  using assms
proof (rule last_byte)
  fix bs b assume k: "k = bs @ [b]" "k ! 31 = b"
  have "b AND 1 = 0 \<longleftrightarrow> unat (b AND 1) = 0" by (simp add: unat_eq_0)
  also have "\<dots> \<longleftrightarrow> even (unat b)" unfolding unat_and_one by presburger
  also have "\<dots> \<longleftrightarrow> even (key_num k)" by (simp add: k(1) key_num_snoc)
  finally show ?thesis by (simp only: k(2))
qed

lemma key_num_toggle:
  assumes "length k = 32"
  shows "key_num (toggle_lowest_bit k) = (if even (key_num k) then key_num k + 1 else key_num k - 1)"
  using assms
proof (rule last_byte)
  fix bs b assume k: "k = bs @ [b]" "k ! 31 = b" "length bs = 31"
  then have "toggle_lowest_bit k = bs @ [b XOR 1]" by (simp add: toggle_lowest_bit_def list_update_append)
  moreover have "even (key_num k) \<longleftrightarrow> even (unat b)" by (simp add: k(1) key_num_snoc)
  moreover have "unat b > 0" if "odd (unat b)" using that by (metis gr0I even_zero)
  ultimately show ?thesis using k by (auto simp: key_num_snoc unat_xor_one)
qed

section \<open>Lemmas on levels\<close>

text \<open>The entries of a level by the number of their key.\<close>

definition num_map :: "(address, hash) btree \<Rightarrow> nat \<Rightarrow> hash option" where
  "num_map t = map_of (map (\<lambda>(k, h). (key_num k, h)) t)"

definition keys32 :: "(address, hash) btree \<Rightarrow> bool" where
  "keys32 t \<longleftrightarrow> (\<forall>k\<in>fst ` set t. length k = 32)"

lemma num_map_key: "keys32 t \<Longrightarrow> length k = 32 \<Longrightarrow> num_map t (key_num k) = map_of t k"
  by (induction t) (auto simp: num_map_def keys32_def key_num_inject)

lemma num_map_num: "num_map t i = Some h \<Longrightarrow> \<exists>k\<in>fst ` set t. key_num k = i"
  by (force simp: num_map_def dest!: map_of_SomeD)

lemma num_map_None: "\<not> (\<exists>k\<in>fst ` set t. key_num k = i) \<Longrightarrow> num_map t i = None"
  using num_map_num [of t i] by (cases "num_map t i") blast+

lemma keys32_insert [intro]: "keys32 t \<Longrightarrow> length k = 32 \<Longrightarrow> keys32 (btree_insert k h t)"
  unfolding keys32_def fst_btree_insert by blast

lemma num_map_insert:
  assumes "keys32 t" "length k = 32"
  shows "num_map (btree_insert k h t) = (num_map t)(key_num k \<mapsto> h)"
proof
  fix i
  have t': "keys32 (btree_insert k h t)" using assms by blast
  show "num_map (btree_insert k h t) i = ((num_map t)(key_num k \<mapsto> h)) i"
  proof (cases "\<exists>l\<in>insert k (fst ` set t). key_num l = i")
    case True
    then obtain l where l: "length l = 32" "key_num l = i" using assms by (auto simp: keys32_def)
    show ?thesis
      using num_map_key [OF t' l(1)] num_map_key [OF assms(1) l(1)] l assms(2)
      by (auto simp: key_num_inject)
  next
    case False
    then have "num_map (btree_insert k h t) i = None" "num_map t i = None"
      by (intro num_map_None; simp add: fst_btree_insert)+
    with False show ?thesis by simp
  qed
qed

text \<open>The value a parent gets from its two children.\<close>

definition parent_of :: "(bytes \<Rightarrow> hash) \<Rightarrow> hash \<Rightarrow> (address, hash) btree \<Rightarrow> nat \<Rightarrow> hash" where
  "parent_of hash_data dflt nodes j =
    smt_hash_node hash_data (unwrap_or (num_map nodes (2 * j)) dflt) (unwrap_or (num_map nodes (2 * j + 1)) dflt)"

definition skipped :: "(address, hash) btree \<Rightarrow> address \<Rightarrow> bool" where
  "skipped nodes key \<longleftrightarrow> toggle_lowest_bit key < key \<and> map_of nodes (toggle_lowest_bit key) \<noteq> None"

lemma smt_parent_step:
  assumes "keys32 nodes" "btree_ok nodes" "(key, v) \<in> set nodes"
  shows "smt_parent sha3 dflt nodes (key, v) ps =
    (if skipped nodes key then ps else btree_insert (shift_right_one key) (parent_of sha3 dflt nodes (key_num key div 2)) ps)"
proof -
  have len: "length key = 32" using assms by (force simp: keys32_def)
  have v: "num_map nodes (key_num key) = Some v"
    using assms len btree_distinct [OF assms(2)] by (simp add: num_map_key map_of_is_SomeI)
  have sib: "map_of nodes (toggle_lowest_bit key) = num_map nodes (key_num (toggle_lowest_bit key))"
    using assms len by (simp add: num_map_key)
  show ?thesis
  proof (cases "even (key_num key)")
    case True
    then have "2 * (key_num key div 2) = key_num key" by simp
    with True v sib len show ?thesis
      by (auto simp add: smt_parent_def skipped_def parent_of_def even_key key_num_toggle Let_def)
  next
    case False
    then have "2 * (key_num key div 2) = key_num key - 1" "Suc (key_num key - 1) = key_num key"
      by (auto elim: oddE)
    with False v sib len show ?thesis
      by (auto simp add: smt_parent_def skipped_def parent_of_def even_key key_num_toggle Let_def)
  qed
qed

lemma smt_parents_fold:
  assumes nodes: "keys32 nodes" "btree_ok nodes" and "set xs \<subseteq> set nodes" "keys32 ps" "btree_ok ps"
  shows "keys32 (fold (smt_parent sha3 dflt nodes) xs ps) \<and> btree_ok (fold (smt_parent sha3 dflt nodes) xs ps) \<and>
    num_map (fold (smt_parent sha3 dflt nodes) xs ps) j =
      (if \<exists>key\<in>fst ` set xs. key_num key div 2 = j \<and> \<not> skipped nodes key
       then Some (parent_of sha3 dflt nodes j) else num_map ps j)"
  using assms(3-)
proof (induction xs arbitrary: ps)
  case (Cons x xs)
  obtain key v where x: "x = (key, v)" by fastforce
  have len: "length key = 32" using nodes(1) Cons.prems(1) x by (force simp: keys32_def)
  let ?ps = "smt_parent sha3 dflt nodes x ps"
  have ps: "?ps = (if skipped nodes key then ps
      else btree_insert (shift_right_one key) (parent_of sha3 dflt nodes (key_num key div 2)) ps)"
    unfolding x by (rule smt_parent_step [OF nodes]) (use Cons.prems(1) x in simp)
  have ok: "keys32 ?ps" "btree_ok ?ps"
    using Cons.prems len unfolding ps by auto
  have "num_map ?ps j = (if key_num key div 2 = j \<and> \<not> skipped nodes key
      then Some (parent_of sha3 dflt nodes j) else num_map ps j)"
    using Cons.prems len unfolding ps by (simp add: num_map_insert key_num_shift)
  moreover have "set xs \<subseteq> set nodes" using Cons.prems(1) by simp
  ultimately show ?case using Cons.IH [OF _ ok] x by auto
qed simp

text \<open>Of two siblings at most one is skipped, and a node without its sibling never is.\<close>

lemma unskipped_child:
  assumes nodes: "keys32 nodes" and child: "num_map nodes i = Some h"
  shows "\<exists>key\<in>fst ` set nodes. key_num key div 2 = i div 2 \<and> \<not> skipped nodes key"
proof -
  obtain key where key: "key \<in> fst ` set nodes" "key_num key = i" using num_map_num [OF child] by blast
  then have len: "length key = 32" using nodes by (auto simp: keys32_def)
  show ?thesis
  proof (cases "skipped nodes key")
    case True
    let ?sib = "toggle_lowest_bit key"
    have "?sib \<in> fst ` set nodes" using True by (force simp: skipped_def dest: map_of_SomeD)
    moreover have "toggle_lowest_bit ?sib = key"
      using len key_num_toggle [OF len] key_num_toggle [of ?sib] key_num_inject [of "toggle_lowest_bit ?sib" key]
      by (auto split: if_splits elim: oddE)
    then have "\<not> skipped nodes ?sib" using True by (auto simp: skipped_def)
    moreover have "key_num ?sib div 2 = i div 2" using key_num_toggle [OF len] key(2) by (auto elim: oddE)
    ultimately show ?thesis by blast
  qed (use key in blast)
qed

lemma smt_level_spec:
  assumes nodes: "keys32 nodes" "btree_ok nodes" and level: "level < 257"
  shows "keys32 (smt_level sha3 level nodes)" "btree_ok (smt_level sha3 level nodes)"
    "unwrap_or (num_map (smt_level sha3 level nodes) j) (smt_default sha3 (Suc level)) =
      parent_of sha3 (smt_default sha3 level) nodes j"
    "key \<in> fst ` set (smt_level sha3 level nodes) \<Longrightarrow> \<exists>k\<in>fst ` set nodes. key_num key = key_num k div 2"
proof -
  let ?d = "smt_default sha3 level"
  have dflt: "smt_default_hashes sha3 ! level = ?d" using level by (simp add: smt_default_hashes_def)
  note run = smt_parents_fold [OF nodes order_refl, of "[]" sha3 ?d]
  have empty: "keys32 ([] :: (address, hash) btree)" by (simp add: keys32_def)
  show ok: "keys32 (smt_level sha3 level nodes)" "btree_ok (smt_level sha3 level nodes)"
    using run [OF empty btree_ok_Nil] unfolding smt_level_def dflt by blast+
  have num: "num_map (smt_level sha3 level nodes) j =
      (if \<exists>key\<in>fst ` set nodes. key_num key div 2 = j \<and> \<not> skipped nodes key
       then Some (parent_of sha3 ?d nodes j) else None)" for j
    using run [OF empty btree_ok_Nil, of j] unfolding smt_level_def dflt by (simp add: num_map_def)
  show "unwrap_or (num_map (smt_level sha3 level nodes) j) (smt_default sha3 (Suc level)) = parent_of sha3 ?d nodes j"
  proof (cases "\<exists>key\<in>fst ` set nodes. key_num key div 2 = j \<and> \<not> skipped nodes key")
    case False
    have "num_map nodes (2 * j) = None" "num_map nodes (2 * j + 1) = None"
      using unskipped_child [OF nodes(1), of "2 * j"] unskipped_child [OF nodes(1), of "2 * j + 1"] False
      by (cases "num_map nodes (2 * j)"; cases "num_map nodes (2 * j + 1)"; force)+
    with False show ?thesis unfolding num by (simp add: parent_of_def)
  qed (simp add: num)
  assume key: "key \<in> fst ` set (smt_level sha3 level nodes)"
  then have "length key = 32" using ok(1) unfolding keys32_def by blast
  with key ok(1) have "num_map (smt_level sha3 level nodes) (key_num key) \<noteq> None"
    by (simp add: num_map_key map_of_eq_None_iff)
  then have "\<exists>k\<in>fst ` set nodes. key_num k div 2 = key_num key \<and> \<not> skipped nodes k"
    unfolding num by (simp split: if_splits)
  then show "\<exists>k\<in>fst ` set nodes. key_num key = key_num k div 2" by metis
qed

text \<open>After \<open>n\<close> levels the entries are the nodes of the full tree at height \<open>n\<close>.\<close>

definition level_inv :: "(bytes \<Rightarrow> hash) \<Rightarrow> (nat \<Rightarrow> bytes) \<Rightarrow> nat \<Rightarrow> (address, hash) btree \<Rightarrow> bool" where
  "level_inv sha3 leaf n nodes \<longleftrightarrow> keys32 nodes \<and> btree_ok nodes \<and>
    (\<forall>k\<in>fst ` set nodes. key_num k < 2 ^ (256 - n)) \<and>
    (\<forall>j. unwrap_or (num_map nodes j) (smt_default sha3 n) = full_tree sha3 leaf n j)"

lemma level_inv_step:
  assumes "level_inv sha3 leaf n nodes" "n < 256"
  shows "level_inv sha3 leaf (Suc n) (smt_level sha3 n nodes)"
proof -
  have nodes: "keys32 nodes" "btree_ok nodes" "n < 257" using assms by (auto simp: level_inv_def)
  note level = smt_level_spec [OF this]
  have "256 - n = Suc (256 - Suc n)" using assms(2) by simp
  then have pow: "2 ^ (256 - n) = 2 * (2 ^ (256 - Suc n) :: nat)" by (simp only: power_Suc)
  have small: "key_num k < 2 ^ (256 - Suc n)" if k: "k \<in> fst ` set (smt_level sha3 n nodes)" for k
  proof -
    obtain k' where "k' \<in> fst ` set nodes" "key_num k = key_num k' div 2" using level(4) [OF k] by blast
    with assms(1) show ?thesis unfolding level_inv_def pow by auto
  qed
  moreover have "parent_of sha3 (smt_default sha3 n) nodes j = full_tree sha3 leaf (Suc n) j" for j
    using assms(1) by (simp add: level_inv_def parent_of_def del: One_nat_def)
  ultimately show ?thesis unfolding level_inv_def using level(1-3) by metis
qed

lemma level_inv_fold: "n \<le> 256 \<Longrightarrow> level_inv sha3 leaf 0 nodes \<Longrightarrow>
  level_inv sha3 leaf n (fold (smt_level sha3) [0..<n] nodes)"
  by (induction n) (auto intro: level_inv_step)

lemma smt_leaves_inv:
  "list_all (\<lambda>(a, _). length a = 32) ahs \<Longrightarrow> level_inv sha3 (leaf_string ahs) 0 (smt_leaves sha3 ahs)"
proof (induction ahs rule: rev_induct)
  case Nil
  then show ?case by (simp add: smt_leaves_def level_inv_def keys32_def num_map_def leaf_string_def)
next
  case (snoc x ahs)
  obtain a ah where x: "x = (a, ah)" by fastforce
  let ?t = "smt_leaves sha3 ahs"
  have a: "length a = 32" and inv: "level_inv sha3 (leaf_string ahs) 0 ?t" using snoc x by simp_all
  have t: "smt_leaves sha3 (ahs @ [x]) = btree_insert a (smt_hash_leaf sha3 a ah) ?t"
    by (simp add: smt_leaves_def x)
  have "key_num a < 2 ^ 256" using key_num_less [of a] a by simp
  moreover have "unwrap_or (num_map (btree_insert a (smt_hash_leaf sha3 a ah) ?t) j) (smt_default sha3 0) =
      sha3 (leaf_string (ahs @ [x]) j)" for j
    using inv a by (auto simp: level_inv_def num_map_insert leaf_string_def x smt_hash_leaf_def)
  ultimately show ?case using inv a unfolding t level_inv_def by (auto simp: fst_btree_insert)
qed

lemma smt_level_nil_fold: "fold (smt_level sha3) ns [] = []"
  by (induction ns) (simp_all add: smt_level_def)

lemma sparse_merkle_root_full_tree:
  assumes "list_all (\<lambda>(a, _). length a = 32) ahs"
  shows "sparse_merkle_root sha3 ahs = full_tree sha3 (leaf_string ahs) 256 0"
proof -
  let ?t = "fold (smt_level sha3) [0..<256] (smt_leaves sha3 ahs)"
  have inv: "level_inv sha3 (leaf_string ahs) 256 ?t"
    using smt_leaves_inv [OF assms] by (intro level_inv_fold) simp_all
  have root: "unwrap_or (num_map ?t 0) (smt_default sha3 256) = full_tree sha3 (leaf_string ahs) 256 0"
    using inv unfolding level_inv_def by blast
  have dflt: "smt_default_hashes sha3 ! 256 = smt_default sha3 256" by (simp add: smt_default_hashes_def)
  show ?thesis
  proof (cases ?t)
    case Nil
    then have "smt_default sha3 256 = full_tree sha3 (leaf_string ahs) 256 0" using root by (simp add: num_map_def)
    then show ?thesis unfolding sparse_merkle_root_def Let_def Nil dflt by simp
  next
    case (Cons e t)
    obtain k h where e: "e = (k, h)" by fastforce
    have "key_num k = 0" using inv Cons e by (simp add: level_inv_def)
    then have "num_map ?t 0 = Some h" using Cons e by (simp add: num_map_def)
    moreover have "ahs \<noteq> []"
    proof
      assume "ahs = []"
      then have "?t = []" using smt_leaves_def [of sha3 "[]"] by (simp add: smt_level_nil_fold)
      with Cons show False by simp
    qed
    ultimately show ?thesis using root unfolding sparse_merkle_root_def Let_def Cons e by simp
  qed
qed

section \<open>Binding\<close>

text \<open>The byte strings hashed for the subtree of node \<open>i\<close> at height \<open>n\<close>.\<close>

fun tree_strings :: "(bytes \<Rightarrow> hash) \<Rightarrow> (nat \<Rightarrow> bytes) \<Rightarrow> nat \<Rightarrow> nat \<Rightarrow> bytes set" where
  "tree_strings sha3 leaf 0 i = {leaf i}"
| "tree_strings sha3 leaf (Suc n) i =
    insert (SMT_NODE_DOMAIN @ full_tree sha3 leaf n (2 * i) @ full_tree sha3 leaf n (2 * i + 1))
      (tree_strings sha3 leaf n (2 * i) \<union> tree_strings sha3 leaf n (2 * i + 1))"

definition collision :: "(bytes \<Rightarrow> hash) \<Rightarrow> bytes set \<Rightarrow> bytes set \<Rightarrow> bool" where
  "collision sha3 X Y \<longleftrightarrow> (\<exists>x\<in>X. \<exists>y\<in>Y. x \<noteq> y \<and> sha3 x = sha3 y)"

lemma collision_mono: "collision sha3 X Y \<Longrightarrow> X \<subseteq> X' \<Longrightarrow> Y \<subseteq> Y' \<Longrightarrow> collision sha3 X' Y'"
  unfolding collision_def by blast

lemma full_tree_binding:
  assumes len: "\<And>x. length (sha3 x) = 32"
    and eq: "full_tree sha3 leaf n i = full_tree sha3 leaf' n i" and j: "j div 2 ^ n = i"
  shows "leaf j = leaf' j \<or> collision sha3 (tree_strings sha3 leaf n i) (tree_strings sha3 leaf' n i)"
  using eq j
proof (induction n arbitrary: i)
  case 0
  then show ?case by (auto simp: collision_def)
next
  case (Suc n)
  let ?X = "tree_strings sha3 leaf (Suc n) i" and ?Y = "tree_strings sha3 leaf' (Suc n) i"
  let ?x = "SMT_NODE_DOMAIN @ full_tree sha3 leaf n (2 * i) @ full_tree sha3 leaf n (2 * i + 1)"
  let ?y = "SMT_NODE_DOMAIN @ full_tree sha3 leaf' n (2 * i) @ full_tree sha3 leaf' n (2 * i + 1)"
  have h: "sha3 ?x = sha3 ?y" using Suc.prems(1) by (simp add: smt_hash_node_def)
  show ?case
  proof (cases "?x = ?y")
    case False
    then have "collision sha3 {?x} {?y}" using h by (simp add: collision_def)
    then have "collision sha3 ?X ?Y" by (rule collision_mono) simp_all
    then show ?thesis ..
  next
    case True
    have length_tree: "length (full_tree sha3 l n k) = 32" for l k
      by (cases n) (simp_all add: len smt_hash_node_def)
    with True have eqs: "full_tree sha3 leaf n (2 * i) = full_tree sha3 leaf' n (2 * i)"
      "full_tree sha3 leaf n (2 * i + 1) = full_tree sha3 leaf' n (2 * i + 1)"
      by simp_all
    have "j div 2 ^ n div 2 = i" using Suc.prems(2) by (simp only: power_Suc2 div_mult2_eq)
    then consider "j div 2 ^ n = 2 * i" | "j div 2 ^ n = 2 * i + 1" by linarith
    then show ?thesis
    proof cases
      case 1
      have sub: "tree_strings sha3 l n (2 * i) \<subseteq> tree_strings sha3 l (Suc n) i" for l by auto
      from Suc.IH [OF eqs(1) 1] show ?thesis using collision_mono [OF _ sub sub] by blast
    next
      case 2
      have sub: "tree_strings sha3 l n (2 * i + 1) \<subseteq> tree_strings sha3 l (Suc n) i" for l by auto
      from Suc.IH [OF eqs(2) 2] show ?thesis using collision_mono [OF _ sub sub] by blast
    qed
  qed
qed

text \<open>The account hash recorded for a key.\<close>

definition last_hash :: "(address \<times> hash) list \<Rightarrow> address \<Rightarrow> hash option" where
  "last_hash ahs a = map_of (rev ahs) a"

lemma leaf_string_key:
  assumes "list_all (\<lambda>(a, _). length a = 32) ahs" "length a = 32"
  shows "leaf_string ahs (key_num a) =
    (case last_hash ahs a of Some ah \<Rightarrow> SMT_LEAF_DOMAIN @ a @ ah | None \<Rightarrow> SMT_EMPTY_LEAF_DOMAIN)"
proof -
  have "find (\<lambda>(b, _). key_num b = key_num a) xs = map_option (\<lambda>ah. (a, ah)) (map_of xs a)"
    if "list_all (\<lambda>(a, _). length a = 32) xs" for xs :: "(address \<times> hash) list"
    using that assms(2) by (induction xs) (auto simp: key_num_inject)
  moreover have "list_all (\<lambda>(a, _). length a = 32) (rev ahs)" using assms(1) by simp
  ultimately show ?thesis unfolding leaf_string_def last_hash_def by (auto split: option.splits)
qed

lemma leaf_not_empty: "SMT_LEAF_DOMAIN @ xs \<noteq> SMT_EMPTY_LEAF_DOMAIN"
  by (simp add: SMT_LEAF_DOMAIN_def SMT_EMPTY_LEAF_DOMAIN_def ascii_def)

section \<open>Properties\<close>

text \<open>C7: The level-by-level computation over the ordered map of occupied nodes yields the root of the
  full binary tree of depth 256 over all keys, where the leaf of a key is hashed from its account hash
  or from the empty-leaf tag.\<close>

theorem sparse_root_is_full_root:
  assumes "list_all (\<lambda>(a, _). length a = 32) account_hashes"
  shows "sparse_merkle_root sha3 account_hashes = full_tree sha3 (leaf_string account_hashes) 256 0"
  using assms by (rule sparse_merkle_root_full_tree)

theorem sparse_root_is_full_root_witness:
  "sparse_merkle_root (\<lambda>x. x) [(addr 1, [7])] = full_tree (\<lambda>x. x) (leaf_string [(addr 1, [7])]) 256 0"
  by (rule sparse_root_is_full_root) (simp add: addr_def)

text \<open>The state root binds the accounts: two lists of account hashes with the same root record the
  same hash for every address, unless two different strings hashed for the two trees have the same
  SHA3-256 value.\<close>

theorem state_root_binding:
  assumes "\<And>x. length (sha3 x) = 32"
    and "list_all (\<lambda>(a, _). length a = 32) ahs" "list_all (\<lambda>(a, _). length a = 32) ahs'"
    and "sparse_merkle_root sha3 ahs = sparse_merkle_root sha3 ahs'" "length a = 32"
  shows "last_hash ahs a = last_hash ahs' a \<or>
    collision sha3 (tree_strings sha3 (leaf_string ahs) 256 0) (tree_strings sha3 (leaf_string ahs') 256 0)"
proof -
  have "key_num a div 2 ^ 256 = 0" using key_num_less [of a] assms(5) by simp
  moreover have "full_tree sha3 (leaf_string ahs) 256 0 = full_tree sha3 (leaf_string ahs') 256 0"
    using assms(2-4) by (simp only: sparse_merkle_root_full_tree)
  ultimately have "leaf_string ahs (key_num a) = leaf_string ahs' (key_num a) \<or>
      collision sha3 (tree_strings sha3 (leaf_string ahs) 256 0) (tree_strings sha3 (leaf_string ahs') 256 0)"
    using full_tree_binding [of sha3 "leaf_string ahs" 256 0 "leaf_string ahs'" "key_num a"] assms(1) by blast
  then show ?thesis
    using assms(2,3,5) leaf_not_empty [of "a @ x" for x] leaf_not_empty [of "a @ x" for x, symmetric]
    by (auto simp: leaf_string_key split: option.splits)
qed

theorem state_root_binding_witness:
  "collision (\<lambda>_. addr 0) (tree_strings (\<lambda>_. addr 0) (leaf_string [(addr 1, addr 2)]) 256 0)
     (tree_strings (\<lambda>_. addr 0) (leaf_string [(addr 1, addr 3)]) 256 0)"
proof -
  have root: "sparse_merkle_root (\<lambda>_. addr 0) [(addr 1, addr b)] = addr 0" for b
  proof -
    have "full_tree (\<lambda>_. addr 0) leaf (Suc n) i = addr 0" for leaf n i by (simp add: smt_hash_node_def)
    from this [of _ 255] show ?thesis by (simp add: sparse_merkle_root_full_tree addr_def)
  qed
  have "last_hash [(addr 1, addr 2)] (addr 1) = last_hash [(addr 1, addr 3)] (addr 1) \<or>
      collision (\<lambda>_. addr 0) (tree_strings (\<lambda>_. addr 0) (leaf_string [(addr 1, addr 2)]) 256 0)
        (tree_strings (\<lambda>_. addr 0) (leaf_string [(addr 1, addr 3)]) 256 0)"
    by (rule state_root_binding) (simp_all only: root, simp_all add: addr_def)
  then show ?thesis by (simp add: last_hash_def)
qed

end
