(* ===== verification/State_Exec.thy ===== *)
theory State_Exec
  imports Committee Signatures Revert_Reason Sparse_Merkle
begin

text \<open>
  The state manager (\<open>state/manager.rs\<close>): accounts in a database behind a cache, direct execution of a
  transaction, execution of a block of transactions against an overlay, sequentially or in groups by
  sender, the state root, and the privileged operations.

  SHA3-256, ML-DSA-65, the hexadecimal rendering and the two virtual machines are parameters, fields of
  \<open>state_env\<close>, together with what the outside does during a call: failing database accesses and the
  clock.  The state of the virtual machines has the type parameters \<open>'q\<close> and \<open>'e\<close>.  The groups of a
  parallel execution run one after the other, in the order in which the map of groups is iterated.
  A panic is the pseudo error \<open>Panicked\<close>.
\<close>

section \<open>Errors\<close>

datatype state_error =
    AccountNotFound string
  | InsufficientBalance
  | InvalidNonce u64 u64
  | InvalidSignature
  | StateStorageError string
  | ExecutionError string
  | StateUnauthorized
  | InvalidAmount
  | StateArithmeticOverflow
  | Panicked

fun state_error_string :: "state_error \<Rightarrow> string" where
  "state_error_string (AccountNotFound a) = ''Account not found: '' @ a"
| "state_error_string InsufficientBalance = ''Insufficient balance''"
| "state_error_string (InvalidNonce e g) =
    ''Invalid nonce: expected '' @ decimal (unat e) @ '', got '' @ decimal (unat g)"
| "state_error_string InvalidSignature = ''Invalid signature''"
| "state_error_string (StateStorageError s) = ''Storage error: '' @ s"
| "state_error_string (ExecutionError s) = ''Execution error: '' @ s"
| "state_error_string StateUnauthorized = ''Unauthorized access''"
| "state_error_string InvalidAmount = ''Invalid amount''"
| "state_error_string StateArithmeticOverflow = ''Arithmetic overflow''"
| "state_error_string Panicked = []"

text \<open>The texts of the errors of accounts and validators.\<close>

fun account_error_string :: "account_error \<Rightarrow> string" where
  "account_error_string NonceOverflow = ''Nonce overflow: account has reached maximum nonce''"
| "account_error_string (InvalidVrfKeySize n) =
    ''Invalid VRF public key size: '' @ decimal n @ '' (expected '' @ decimal MIN_VRF_KEY_SIZE @ ''-'' @
    decimal MAX_VRF_KEY_SIZE @ '' bytes)''"
| "account_error_string VrfKeyAllZeros = ''VRF public key is all zeros''"
| "account_error_string (SlashPercentageTooLarge p) =
    ''Slash percentage '' @ decimal (unat p) @ '' exceeds maximum '' @ decimal (unat MAX_COMMISSION_RATE)"
| "account_error_string (CommissionRateTooLarge r) =
    ''Commission rate '' @ decimal (unat r) @ '' exceeds maximum '' @ decimal (unat MAX_COMMISSION_RATE)"
| "account_error_string ValidatorSetFull = ''Validator set full: '' @ decimal MAX_VALIDATORS @ '' validators''"
| "account_error_string ValidatorAlreadyExists = ''Validator already exists''"
| "account_error_string TotalStakeOverflow = ''Total stake overflow''"
| "account_error_string ValidatorNotFound = ''Validator not found''"

fun register_error_string :: "register_error \<Rightarrow> string" where
  "register_error_string ZeroStake = ''Validator stake must be non-zero''"
| "register_error_string (StakeAboveSafeMaximum s) =
    ''Validator stake '' @ decimal (unat s) @ '' exceeds safe maximum''"
| "register_error_string (SetRefused e) = account_error_string e"

section \<open>State and environment\<close>

definition MAX_TRANSACTION_AMOUNT :: u128 where "MAX_TRANSACTION_AMOUNT = ucast (max_value :: u64)"
definition MIN_TRANSACTION_AMOUNT :: u128 where "MIN_TRANSACTION_AMOUNT = 1"

record exec_result =
  xr_success :: bool
  xr_return_data :: bytes
  xr_logs :: "log list"
  xr_debug_messages :: "string list"

record evm_outcome =
  ev_success :: bool
  ev_return_data :: bytes
  ev_logs :: "log list"
  ev_created_address :: "address option"
  ev_deployed_code :: "bytes option"

record ('q, 'e) state_env =
  se_hash :: "bytes \<Rightarrow> hash"
  se_verify :: verify_fn
  se_hex :: "bytes \<Rightarrow> string"
  se_qvm_deploy ::
    "bytes \<Rightarrow> bytes \<Rightarrow> address \<Rightarrow> u64 \<Rightarrow> u64 \<Rightarrow> u64 \<Rightarrow> 'q \<Rightarrow> (string + (address \<times> exec_result option)) \<times> 'q"
  se_qvm_execute :: "address \<Rightarrow> address \<Rightarrow> bytes \<Rightarrow> u64 \<Rightarrow> u64 \<Rightarrow> 'q \<Rightarrow> (string + exec_result) \<times> 'q"
  se_qvm_simulate :: "address \<Rightarrow> address \<Rightarrow> bytes \<Rightarrow> u64 \<Rightarrow> u64 \<Rightarrow> 'q \<Rightarrow> (string + exec_result) \<times> 'q"
  se_evm_deploy :: "address \<Rightarrow> u64 \<Rightarrow> amount \<Rightarrow> bytes \<Rightarrow> u64 \<Rightarrow> u64 \<Rightarrow> 'e \<Rightarrow> (string + evm_outcome) \<times> 'e"
  se_evm_call :: "address \<Rightarrow> address \<Rightarrow> amount \<Rightarrow> bytes \<Rightarrow> u64 \<Rightarrow> u64 \<Rightarrow> 'e \<Rightarrow> (string + evm_outcome) \<times> 'e"
  se_read_fails :: "address \<Rightarrow> bool"
  se_write_error :: "string option"
  se_iter_error :: "string option"
  se_committee_disk_ok :: bool
  se_clock :: "u64 option"

text \<open>The field \<open>st_stored\<close> is the accounts column of the database, in key order.\<close>

record ('q, 'e) state_manager =
  st_stored :: "(address, account) btree"
  st_cache :: "address \<rightharpoonup> account"
  st_pending :: "(address, account) btree"
  st_root :: hash
  st_index :: "(address, hash) btree option"
  st_auth_token :: bytes
  st_counter :: u64
  st_contracts :: "'q option"
  st_evm :: "'e option"
  st_committee :: "committee_manager option"

definition state_manager_new :: "bytes \<Rightarrow> (address, account) btree \<Rightarrow> ('q, 'e) state_manager" where
  "state_manager_new token stored =
    \<lparr> st_stored = stored, st_cache = Map.empty, st_pending = [], st_root = replicate 32 0, st_index = None,
      st_auth_token = token, st_counter = 0, st_contracts = None, st_evm = None, st_committee = None \<rparr>"

definition set_contract_manager :: "'q \<Rightarrow> ('q, 'e) state_manager \<Rightarrow> ('q, 'e) state_manager" where
  "set_contract_manager cm s = s\<lparr>st_contracts := Some cm\<rparr>"

definition set_evm_engine :: "'e \<Rightarrow> ('q, 'e) state_manager \<Rightarrow> ('q, 'e) state_manager" where
  "set_evm_engine evm s = s\<lparr>st_evm := Some evm\<rparr>"

definition set_committee_manager :: "committee_manager \<Rightarrow> ('q, 'e) state_manager \<Rightarrow> ('q, 'e) state_manager" where
  "set_committee_manager cm s = s\<lparr>st_committee := Some cm\<rparr>"

definition current_execution_timestamp :: "('q, 'e) state_env \<Rightarrow> u64 \<Rightarrow> u64" where
  "current_execution_timestamp env fallback = unwrap_or (se_clock env) fallback"

section \<open>Accounts\<close>

definition cache_account ::
  "('q, 'e) state_env \<Rightarrow> account \<Rightarrow> ('q, 'e) state_manager \<Rightarrow> ('q, 'e) state_manager" where
  "cache_account env x s = s\<lparr>st_cache := (st_cache s)(acc_address x \<mapsto> x),
     st_index := map_option (btree_insert (acc_address x) (account_hash (se_hash env) x)) (st_index s)\<rparr>"

definition persist_accounts ::
  "('q, 'e) state_env \<Rightarrow> account list \<Rightarrow> ('q, 'e) state_manager \<Rightarrow> (state_error + unit) \<times> ('q, 'e) state_manager" where
  "persist_accounts env accounts s =
    (case se_write_error env of
       Some e \<Rightarrow> (Inl (StateStorageError (''Failed to persist accounts: '' @ e)), s)
     | None \<Rightarrow>
         (Inr (), fold (cache_account env) accounts
           (s\<lparr>st_stored := fold (\<lambda>x. btree_insert (acc_address x) x) accounts (st_stored s)\<rparr>)))"

definition verify_auth :: "bytes \<Rightarrow> ('q, 'e) state_manager \<Rightarrow> state_error + unit" where
  "verify_auth token s = (if token \<noteq> st_auth_token s then Inl StateUnauthorized else Inr ())"

definition get_account ::
  "('q, 'e) state_env \<Rightarrow> address \<Rightarrow> ('q, 'e) state_manager \<Rightarrow> (state_error + account) \<times> ('q, 'e) state_manager" where
  "get_account env a s =
    (case st_cache s a of
       Some x \<Rightarrow> (Inr x, s)
     | None \<Rightarrow>
         if se_read_fails env a then (Inl (StateStorageError ''Storage access failed''), s) else
         (case map_of (st_stored s) a of
            Some x \<Rightarrow> (Inr x, s\<lparr>st_cache := (st_cache s)(a \<mapsto> x)\<rparr>)
          | None \<Rightarrow> (Inr (account_new a), s)))"

definition get_balance ::
  "('q, 'e) state_env \<Rightarrow> address \<Rightarrow> ('q, 'e) state_manager \<Rightarrow> (state_error + amount) \<times> ('q, 'e) state_manager" where
  "get_balance env a s = (let (r, s) = get_account env a s in or_return r s (\<lambda>x. (Inr (acc_balance x), s)))"

definition get_nonce ::
  "('q, 'e) state_env \<Rightarrow> address \<Rightarrow> ('q, 'e) state_manager \<Rightarrow> (state_error + u64) \<times> ('q, 'e) state_manager" where
  "get_nonce env a s =
    (case st_cache s a of
       Some x \<Rightarrow> (Inr (acc_nonce x), s)
     | None \<Rightarrow> (let (r, s) = get_account env a s in or_return r s (\<lambda>x. (Inr (acc_nonce x), s))))"

definition get_stake ::
  "('q, 'e) state_env \<Rightarrow> address \<Rightarrow> ('q, 'e) state_manager \<Rightarrow> (state_error + amount) \<times> ('q, 'e) state_manager" where
  "get_stake env a s = (let (r, s) = get_account env a s in or_return r s (\<lambda>x. (Inr (acc_stake x), s)))"

section \<open>Validation\<close>

fun requires_amount :: "transaction_type \<Rightarrow> bool" where
  "requires_amount TxTransfer = True"
| "requires_amount TxStake = True"
| "requires_amount TxUnstake = True"
| "requires_amount TxStakeTransfer = True"
| "requires_amount _ = False"

text \<open>The checks that do not look at an account.\<close>

definition check_signed_amount :: "('q, 'e) state_env \<Rightarrow> transaction \<Rightarrow> state_error + unit" where
  "check_signed_amount env t =
    (if public_key_to_address (se_hash env) (tx_public_key t) \<noteq> tx_from t then Inl InvalidSignature else
     case se_verify env (tx_public_key t) (tx_signing_data t) (tx_signature t) of
       Inl _ \<Rightarrow> Inl InvalidSignature
     | Inr False \<Rightarrow> Inl InvalidSignature
     | Inr True \<Rightarrow>
         if requires_amount (tx_type t) \<and> tx_amount t < MIN_TRANSACTION_AMOUNT then Inl InvalidAmount else
         if tx_amount t > MAX_TRANSACTION_AMOUNT then Inl InvalidAmount
         else Inr ())"

definition check_nonce :: "transaction \<Rightarrow> account \<Rightarrow> state_error + unit" where
  "check_nonce t x = (if tx_nonce t \<noteq> acc_nonce x then Inl (InvalidNonce (acc_nonce x) (tx_nonce t)) else Inr ())"

definition validate_transaction ::
  "('q, 'e) state_env \<Rightarrow> transaction \<Rightarrow> ('q, 'e) state_manager \<Rightarrow> (state_error + unit) \<times> ('q, 'e) state_manager" where
  "validate_transaction env t s =
    or_return (check_signed_amount env t) s (\<lambda>_.
    let (r, s) = get_account env (tx_from t) s in
    or_return r s (\<lambda>x. (check_nonce t x, s)))"

section \<open>Effects shared by the two ways of execution\<close>

text \<open>Conversion of an error result whose text gets a prefix.\<close>

definition exec_err :: "string \<Rightarrow> string + 'a \<Rightarrow> state_error + 'a" where
  "exec_err prefix r = (case r of Inl e \<Rightarrow> Inl (ExecutionError (prefix @ e)) | Inr a \<Rightarrow> Inr a)"

text \<open>A guarded update of an account: \<open>if !op() { return Err(e) }\<close>.\<close>

definition guarded :: "state_error \<Rightarrow> bool \<times> account \<Rightarrow> state_error + account" where
  "guarded e r = (if fst r then Inr (snd r) else Inl e)"

definition reverted :: "string \<Rightarrow> string option \<Rightarrow> state_error" where
  "reverted prefix reason = (case reason of None \<Rightarrow> Panicked | Some text \<Rightarrow> ExecutionError (prefix @ text))"

definition register_validator ::
  "('q, 'e) state_env \<Rightarrow> transaction \<Rightarrow> account \<Rightarrow> ('q, 'e) state_manager \<Rightarrow>
    (state_error + account) \<times> ('q, 'e) state_manager" where
  "register_validator env t sender s =
    (let data = tx_data t in
     if length data < 32 then (Inl (ExecutionError ''ValidatorRegister: need VRF key''), s) else
     let vrf_pub = take (min (length data) 256) data;
         comm = (if length data \<ge> 258 then from_le_bytes [data ! 256, data ! 257] else 500) in
     or_return (guarded InsufficientBalance (add_stake (tx_amount t) sender)) s (\<lambda>sender.
     let sender = sender\<lparr>acc_is_validator := True\<rparr> in
     case st_committee s of
       None \<Rightarrow> (Inr sender, s)
     | Some cm \<Rightarrow>
         or_return (map_sum (\<lambda>e. ExecutionError (account_error_string e)) id
             (validator_new (tx_from t) (tx_public_key t) (tx_amount t) vrf_pub)) s (\<lambda>v.
         let (r, cm) = cm_add_validator (se_committee_disk_ok env) (v\<lparr>val_commission_rate := comm\<rparr>) cm;
             s = s\<lparr>st_committee := Some cm\<rparr> in
         or_return (map_sum (\<lambda>e. ExecutionError (register_error_string e)) id r) s (\<lambda>_.
         (Inr sender, s)))))"

definition exit_validator ::
  "state_error \<Rightarrow> ('q, 'e) state_env \<Rightarrow> transaction \<Rightarrow> account \<Rightarrow> ('q, 'e) state_manager \<Rightarrow>
    (state_error + account) \<times> ('q, 'e) state_manager" where
  "exit_validator err env t sender s =
    or_return (guarded err (remove_stake (acc_stake sender) sender)) s (\<lambda>sender.
    let sender = sender\<lparr>acc_is_validator := False\<rparr> in
    (Inr sender, s\<lparr>st_committee :=
       map_option (cm_remove_validator (se_committee_disk_ok env) (tx_from t)) (st_committee s)\<rparr>))"

definition success_receipt :: "signed_transaction \<Rightarrow> log list \<Rightarrow> address \<Rightarrow> receipt" where
  "success_receipt tx logs to = (let t = stx_transaction tx in
    \<lparr> rc_tx_hash = stx_hash tx, rc_status = Finalized, rc_cu_used = tx_max_compute_units t,
      rc_vertex_hash = replicate 32 0, rc_shard_id = tx_shard_id t, rc_logs = logs, rc_slot = 0,
      rc_from = tx_from t, rc_to = to, rc_success = True \<rparr>)"

definition failed_receipt :: "signed_transaction \<Rightarrow> state_error \<Rightarrow> receipt" where
  "failed_receipt tx e = (let t = stx_transaction tx in
    \<lparr> rc_tx_hash = stx_hash tx, rc_status = Failed (state_error_string e), rc_cu_used = tx_max_compute_units t,
      rc_vertex_hash = replicate 32 0, rc_shard_id = tx_shard_id t, rc_logs = [], rc_slot = 0,
      rc_from = tx_from t, rc_to = tx_to t, rc_success = False \<rparr>)"

definition bump_nonce :: "account \<Rightarrow> state_error + account" where
  "bump_nonce x = (let (r, x) = increment_nonce x in
    case r of Inl e \<Rightarrow> Inl (StateStorageError (account_error_string e)) | Inr _ \<Rightarrow> Inr x)"

section \<open>Direct execution\<close>

text \<open>Sender, recipient and logs after the effect of a transaction.\<close>

type_synonym ('q, 'e) effect =
  "(state_error + (account \<times> account \<times> log list)) \<times> ('q, 'e) state_manager"

text \<open>The amount of a contract call, moved when it is not zero.\<close>

definition apply_value :: "transaction \<Rightarrow> account \<Rightarrow> account \<Rightarrow> state_error + (account \<times> account)" where
  "apply_value t sender recipient =
    (if tx_amount t > 0
     then (case guarded InsufficientBalance (sub_balance (tx_amount t) sender) of
             Inl e \<Rightarrow> Inl e
           | Inr sender \<Rightarrow> Inr (sender, snd (add_balance (tx_amount t) recipient)))
     else Inr (sender, recipient))"

definition apply_deploy_qvm ::
  "('q, 'e) state_env \<Rightarrow> transaction \<Rightarrow> account \<Rightarrow> ('q, 'e) state_manager \<Rightarrow> ('q, 'e) effect" where
  "apply_deploy_qvm env t sender s =
    (case st_contracts s of
       None \<Rightarrow> (Inl (ExecutionError ''ContractManager not initialized''), s)
     | Some cm \<Rightarrow>
         or_return (exec_err ''Invalid deploy payload: '' (decode_contract_deploy_payload (tx_data t))) s
           (\<lambda>(bytecode, constructor_data).
         if bytecode = [] then (Inl (ExecutionError ''Empty bytecode in ContractDeploy''), s) else
         let (r, cm) = se_qvm_deploy env bytecode constructor_data (tx_from t) (tx_nonce t) (tx_timestamp t)
               (tx_chain_id t) cm;
             s = s\<lparr>st_contracts := Some cm\<rparr> in
         or_return (exec_err ''ContractDeploy failed: '' r) s (\<lambda>(contract_address, init_result).
         let (r, s) = get_account env contract_address s in
         or_return r s (\<lambda>recipient.
         (Inr (sender, recipient\<lparr>acc_code_hash := Some (se_hash env bytecode)\<rparr>,
            case init_result of Some x \<Rightarrow> xr_logs x | None \<Rightarrow> []), s)))))"

definition apply_deploy_evm ::
  "('q, 'e) state_env \<Rightarrow> transaction \<Rightarrow> account \<Rightarrow> ('q, 'e) state_manager \<Rightarrow> ('q, 'e) effect" where
  "apply_deploy_evm env t sender s =
    (case st_evm s of
       None \<Rightarrow> (Inl (ExecutionError ''EvmEngine not initialized''), s)
     | Some evm \<Rightarrow>
         (let (r, evm) = se_evm_deploy env (tx_from t) (tx_nonce t) (tx_amount t) (tx_data t)
                (tx_max_compute_units t) (tx_chain_id t) evm;
              s = s\<lparr>st_evm := Some evm\<rparr> in
          or_return (exec_err ''EVM deploy failed: '' r) s (\<lambda>out.
          or_return (ok_or (ev_created_address out) (ExecutionError ''EVM deploy missing address'')) s
            (\<lambda>contract_address.
          let (r, s) = get_account env contract_address s in
          or_return r s (\<lambda>recipient.
          (Inr (sender,
             (case ev_deployed_code out of
                Some code \<Rightarrow> recipient\<lparr>acc_code_hash := Some (se_hash env code)\<rparr>
              | None \<Rightarrow> recipient), ev_logs out), s))))))"

definition apply_call_qvm ::
  "('q, 'e) state_env \<Rightarrow> transaction \<Rightarrow> account \<Rightarrow> account \<Rightarrow> ('q, 'e) state_manager \<Rightarrow> ('q, 'e) effect" where
  "apply_call_qvm env t sender recipient s =
    (case st_contracts s of
       None \<Rightarrow> (Inl (ExecutionError ''ContractManager not initialized''), s)
     | Some cm \<Rightarrow>
         or_return (apply_value t sender recipient) s (\<lambda>(sender, recipient).
         let (r, cm) = se_qvm_execute env (tx_to t) (tx_from t) (tx_data t)
               (current_execution_timestamp env (tx_timestamp t)) (tx_chain_id t) cm;
             s = s\<lparr>st_contracts := Some cm\<rparr> in
         or_return (exec_err ''ContractCall failed: '' r) s (\<lambda>result.
         if \<not> xr_success result
         then (Inl (reverted ''ContractCall reverted: ''
                (decode_contract_revert_reason (se_hex env) (xr_return_data result))), s)
         else (Inr (sender, recipient, xr_logs result), s))))"

definition apply_call_evm ::
  "('q, 'e) state_env \<Rightarrow> transaction \<Rightarrow> account \<Rightarrow> account \<Rightarrow> ('q, 'e) state_manager \<Rightarrow> ('q, 'e) effect" where
  "apply_call_evm env t sender recipient s =
    (case st_evm s of
       None \<Rightarrow> (Inl (ExecutionError ''EvmEngine not initialized''), s)
     | Some evm \<Rightarrow>
         or_return (apply_value t sender recipient) s (\<lambda>(sender, recipient).
         let (r, evm) = se_evm_call env (tx_from t) (tx_to t) (tx_amount t) (tx_data t)
               (tx_max_compute_units t) (tx_chain_id t) evm;
             s = s\<lparr>st_evm := Some evm\<rparr> in
         or_return (exec_err ''EVM call failed: '' r) s (\<lambda>out.
         if \<not> ev_success out
         then (Inl (reverted ''EVM call reverted: ''
                (decode_contract_revert_reason (se_hex env) (ev_return_data out))), s)
         else (Inr (sender, recipient, ev_logs out), s))))"

definition apply_effect ::
  "('q, 'e) state_env \<Rightarrow> transaction \<Rightarrow> account \<Rightarrow> account \<Rightarrow> ('q, 'e) state_manager \<Rightarrow> ('q, 'e) effect" where
  "apply_effect env t sender recipient s =
    (case tx_type t of
       TxTransfer \<Rightarrow>
         or_return (guarded InsufficientBalance (sub_balance (tx_amount t) sender)) s (\<lambda>sender.
         (Inr (sender, snd (add_balance (tx_amount t) recipient), []), s))
     | TxStake \<Rightarrow>
         or_return (guarded InsufficientBalance (add_stake (tx_amount t) sender)) s (\<lambda>sender.
         (Inr (sender, recipient, []), s))
     | TxUnstake \<Rightarrow>
         or_return (guarded InsufficientBalance (remove_stake (tx_amount t) sender)) s (\<lambda>sender.
         (Inr (sender, recipient, []), s))
     | TxStakeTransfer \<Rightarrow>
         or_return (guarded InsufficientBalance (subtract_stake (tx_amount t) sender)) s (\<lambda>sender.
         (Inr (sender, add_stake_direct (tx_amount t) recipient, []), s))
     | TxContractDeploy \<Rightarrow>
         (case tx_vm_kind t of
            Qvm \<Rightarrow> apply_deploy_qvm env t sender s
          | Evm \<Rightarrow> apply_deploy_evm env t sender s)
     | TxContractCall \<Rightarrow>
         (case tx_vm_kind t of
            Qvm \<Rightarrow> apply_call_qvm env t sender recipient s
          | Evm \<Rightarrow> apply_call_evm env t sender recipient s)
     | TxValidatorRegister \<Rightarrow>
         (let (r, s) = register_validator env t sender s in
          or_return r s (\<lambda>sender. (Inr (sender, recipient, []), s)))
     | TxValidatorExit \<Rightarrow>
         (let (r, s) = exit_validator InsufficientBalance env t sender s in
          or_return r s (\<lambda>sender. (Inr (sender, recipient, []), s))))"

definition apply_transaction ::
  "('q, 'e) state_env \<Rightarrow> signed_transaction \<Rightarrow> ('q, 'e) state_manager \<Rightarrow>
    (state_error + receipt) \<times> ('q, 'e) state_manager" where
  "apply_transaction env tx s =
    (let t = stx_transaction tx; (r, s) = validate_transaction env t s in
     or_return r s (\<lambda>_.
     let (r, s) = get_account env (tx_from t) s in or_return r s (\<lambda>sender.
     let (r, s) = get_account env (tx_to t) s in or_return r s (\<lambda>recipient.
     let (r, s) = apply_effect env t sender recipient s in or_return r s (\<lambda>(sender, recipient, logs).
     or_return (bump_nonce sender) s (\<lambda>sender.
     let (r, s) = persist_accounts env [sender, recipient] s in or_return r s (\<lambda>_.
     (Inr (success_receipt tx logs (acc_address recipient)), s))))))))"

text \<open>After a panic nothing more is executed.\<close>

fun apply_transactions_batch ::
  "('q, 'e) state_env \<Rightarrow> signed_transaction list \<Rightarrow> ('q, 'e) state_manager \<Rightarrow>
    (state_error + receipt) list \<times> ('q, 'e) state_manager" where
  "apply_transactions_batch env [] s = ([], s)"
| "apply_transactions_batch env (tx # txs) s =
    (let (r, s) = apply_transaction env tx s in
     if r = Inl Panicked then ([r], s)
     else let (rs, s) = apply_transactions_batch env txs s in (r # rs, s))"

section \<open>Execution against an overlay\<close>

text \<open>The overlay is a \<open>HashMap\<close>; it is kept here in key order, which is the order in which its values
  are handed out at the end, and nothing before depends on the order.\<close>

type_synonym ('q, 'e) overlay_state = "('q, 'e) state_manager \<times> (address, account) btree"

definition overlay_account ::
  "('q, 'e) state_env \<Rightarrow> (address, account) btree \<Rightarrow> address \<Rightarrow> ('q, 'e) state_manager \<Rightarrow>
    (state_error + account) \<times> ('q, 'e) state_manager" where
  "overlay_account env overlay a s =
    (case map_of overlay a of Some x \<Rightarrow> (Inr x, s) | None \<Rightarrow> get_account env a s)"

definition validate_transaction_against_overlay ::
  "('q, 'e) state_env \<Rightarrow> transaction \<Rightarrow> (address, account) btree \<Rightarrow> ('q, 'e) state_manager \<Rightarrow>
    (state_error + unit) \<times> ('q, 'e) state_manager" where
  "validate_transaction_against_overlay env t overlay s =
    or_return (check_signed_amount env t) s (\<lambda>_.
    let (r, s) = overlay_account env overlay (tx_from t) s in
    or_return r s (\<lambda>x. (check_nonce t x, s)))"

text \<open>Moving an amount between overlay accounts, where the sender may be the recipient.\<close>

definition overlay_move :: "amount \<Rightarrow> account \<Rightarrow> account \<Rightarrow> state_error + (account \<times> account)" where
  "overlay_move a sender recipient =
    (case guarded InsufficientBalance (sub_balance a sender) of
       Inl e \<Rightarrow> Inl e
     | Inr sender \<Rightarrow>
         if acc_address sender = acc_address recipient
         then Inr (snd (add_balance a sender), recipient)
         else Inr (sender, snd (add_balance a recipient)))"

definition overlay_deploy ::
  "('q, 'e) state_env \<Rightarrow> bool \<Rightarrow> (address, account) btree \<Rightarrow> transaction \<Rightarrow> account \<Rightarrow>
    ('q, 'e) state_manager \<Rightarrow> ('q, 'e) effect" where
  "overlay_deploy env persist_contracts overlay t sender s =
    or_return (exec_err ''Invalid deploy payload: '' (decode_contract_deploy_payload (tx_data t))) s
      (\<lambda>(bytecode, constructor_data).
    if bytecode = [] then (Inl (ExecutionError ''Empty bytecode in ContractDeploy''), s) else
    let bytecode_hash = se_hash env bytecode;
        contract_address = se_hash env (tx_from t @ bytecode_hash @ to_le_bytes (tx_nonce t));
        (r, s) = overlay_account env overlay contract_address s in
    or_return r s (\<lambda>recipient.
    let recipient = recipient\<lparr>acc_code_hash := Some bytecode_hash\<rparr> in
    if \<not> persist_contracts then (Inr (sender, recipient, []), s) else
    case st_contracts s of
      None \<Rightarrow> (Inl (ExecutionError ''ContractManager not initialized''), s)
    | Some cm \<Rightarrow>
        (let (r, cm) = se_qvm_deploy env bytecode constructor_data (tx_from t) (tx_nonce t) (tx_timestamp t)
               (tx_chain_id t) cm;
             s = s\<lparr>st_contracts := Some cm\<rparr> in
         or_return (exec_err ''ContractDeploy failed: '' r) s (\<lambda>(a, init_result).
         let (r, s) = overlay_account env overlay a s in
         or_return r s (\<lambda>recipient.
         (Inr (sender, recipient\<lparr>acc_code_hash := Some bytecode_hash\<rparr>,
            case init_result of Some x \<Rightarrow> xr_logs x | None \<Rightarrow> []), s))))))"

definition overlay_call ::
  "('q, 'e) state_env \<Rightarrow> bool \<Rightarrow> transaction \<Rightarrow> account \<Rightarrow> account \<Rightarrow> ('q, 'e) state_manager \<Rightarrow>
    ('q, 'e) effect" where
  "overlay_call env persist_contracts t sender recipient s =
    or_return (if tx_amount t > 0 then overlay_move (tx_amount t) sender recipient else Inr (sender, recipient)) s
      (\<lambda>(sender, recipient).
    case st_contracts s of
      None \<Rightarrow> (Inl (ExecutionError ''ContractManager not initialized''), s)
    | Some cm \<Rightarrow>
        (let run = (if persist_contracts then se_qvm_execute env else se_qvm_simulate env);
             (r, cm) = run (tx_to t) (tx_from t) (tx_data t)
               (current_execution_timestamp env (tx_timestamp t)) (tx_chain_id t) cm;
             s = s\<lparr>st_contracts := Some cm\<rparr> in
         or_return (exec_err ''ContractCall failed: '' r) s (\<lambda>result.
         if \<not> xr_success result
         then (Inl (reverted ''ContractCall reverted: ''
                (if xr_return_data result \<noteq> []
                 then decode_contract_revert_reason (se_hex env) (xr_return_data result)
                 else Some (debug_reason (xr_debug_messages result)))), s)
         else (Inr (sender, recipient, xr_logs result), s))))"

definition overlay_effect ::
  "('q, 'e) state_env \<Rightarrow> bool \<Rightarrow> (address, account) btree \<Rightarrow> transaction \<Rightarrow> account \<Rightarrow> account \<Rightarrow>
    ('q, 'e) state_manager \<Rightarrow> ('q, 'e) effect" where
  "overlay_effect env persist_contracts overlay t sender recipient s =
    (case tx_type t of
       TxTransfer \<Rightarrow>
         or_return (overlay_move (tx_amount t) sender recipient) s (\<lambda>(sender, recipient).
         (Inr (sender, recipient, []), s))
     | TxStake \<Rightarrow>
         or_return (guarded InsufficientBalance (add_stake (tx_amount t) sender)) s (\<lambda>sender.
         (Inr (sender, recipient, []), s))
     | TxUnstake \<Rightarrow>
         or_return (guarded InsufficientBalance (remove_stake (tx_amount t) sender)) s (\<lambda>sender.
         (Inr (sender, recipient, []), s))
     | TxStakeTransfer \<Rightarrow>
         or_return (guarded InsufficientBalance (subtract_stake (tx_amount t) sender)) s (\<lambda>sender.
         (Inr (sender, add_stake_direct (tx_amount t) recipient, []), s))
     | TxContractDeploy \<Rightarrow> overlay_deploy env persist_contracts overlay t sender s
     | TxContractCall \<Rightarrow> overlay_call env persist_contracts t sender recipient s
     | TxValidatorRegister \<Rightarrow>
         (let (r, s) = register_validator env t sender s in
          or_return r s (\<lambda>sender. (Inr (sender, recipient, []), s)))
     | TxValidatorExit \<Rightarrow>
         (let (r, s) = exit_validator (ExecutionError ''No stake to remove'') env t sender s in
          or_return r s (\<lambda>sender. (Inr (sender, recipient, []), s))))"

definition execute_transaction_overlay ::
  "('q, 'e) state_env \<Rightarrow> bool \<Rightarrow> signed_transaction \<Rightarrow> ('q, 'e) overlay_state \<Rightarrow>
    (state_error + receipt) \<times> ('q, 'e) overlay_state" where
  "execute_transaction_overlay env persist_contracts tx so =
    (let (s, overlay) = so; t = stx_transaction tx;
         (r, s) = validate_transaction_against_overlay env t overlay s in
     or_return r (s, overlay) (\<lambda>_.
     let (r, s) = overlay_account env overlay (tx_from t) s in or_return r (s, overlay) (\<lambda>sender.
     let (r, s) = overlay_account env overlay (tx_to t) s in or_return r (s, overlay) (\<lambda>recipient.
     let (r, s) = overlay_effect env persist_contracts overlay t sender recipient s in
     or_return r (s, overlay) (\<lambda>(sender, recipient, logs).
     or_return (bump_nonce sender) (s, overlay) (\<lambda>sender.
     let receipt_to = acc_address recipient;
         overlay = btree_insert (acc_address sender) sender overlay;
         overlay = (if tx_from t \<noteq> receipt_to then btree_insert receipt_to recipient overlay else overlay) in
     (Inr (success_receipt tx logs receipt_to), (s, overlay))))))))"

text \<open>A list of transactions: a failed one becomes a failed receipt, a panic ends everything.\<close>

fun overlay_run ::
  "('q, 'e) state_env \<Rightarrow> bool \<Rightarrow> signed_transaction list \<Rightarrow> ('q, 'e) overlay_state \<Rightarrow>
    (state_error + receipt list) \<times> ('q, 'e) overlay_state" where
  "overlay_run env persist_contracts [] so = (Inr [], so)"
| "overlay_run env persist_contracts (tx # txs) so =
    (let (r, so) = execute_transaction_overlay env persist_contracts tx so in
     if r = Inl Panicked then (Inl Panicked, so) else
     let (rs, so) = overlay_run env persist_contracts txs so in
     or_return rs so (\<lambda>receipts.
     (Inr ((case r of Inr rc \<Rightarrow> rc | Inl e \<Rightarrow> failed_receipt tx e) # receipts), so)))"

section \<open>The state root\<close>

definition hash_index :: "('q, 'e) state_env \<Rightarrow> account list \<Rightarrow> (address, hash) btree" where
  "hash_index env accounts = fold (\<lambda>x. btree_insert (acc_address x) (account_hash (se_hash env) x)) accounts []"

definition load_account_hash_index ::
  "('q, 'e) state_env \<Rightarrow> ('q, 'e) state_manager \<Rightarrow>
    (state_error + (address, hash) btree) \<times> ('q, 'e) state_manager" where
  "load_account_hash_index env s =
    (case st_index s of
       Some index \<Rightarrow> (Inr index, s)
     | None \<Rightarrow>
         (case se_iter_error env of
            Some e \<Rightarrow> (Inl (StateStorageError e), s)
          | None \<Rightarrow>
              (let index = hash_index env (map snd (st_stored s)) in (Inr index, s\<lparr>st_index := Some index\<rparr>))))"

definition compute_state_root_with_overlay ::
  "('q, 'e) state_env \<Rightarrow> (address, account) btree \<Rightarrow> ('q, 'e) state_manager \<Rightarrow>
    (state_error + hash) \<times> ('q, 'e) state_manager" where
  "compute_state_root_with_overlay env overlay s =
    (let (r, s) = load_account_hash_index env s in
     or_return r s (\<lambda>index.
     (Inr (sparse_merkle_root (se_hash env)
        (fold (\<lambda>x. btree_insert (acc_address x) (account_hash (se_hash env) x)) (map snd overlay) index)), s)))"

definition compute_full_state_root ::
  "('q, 'e) state_env \<Rightarrow> ('q, 'e) state_manager \<Rightarrow> (state_error + hash) \<times> ('q, 'e) state_manager" where
  "compute_full_state_root env s =
    (case se_iter_error env of
       Some e \<Rightarrow> (Inl (StateStorageError e), s)
     | None \<Rightarrow>
         (let index = hash_index env (map snd (st_stored s)) in
          (Inr (sparse_merkle_root (se_hash env) index), s\<lparr>st_index := Some index\<rparr>)))"

definition compute_state_root ::
  "('q, 'e) state_env \<Rightarrow> ('q, 'e) state_manager \<Rightarrow> (state_error + hash) \<times> ('q, 'e) state_manager" where
  "compute_state_root env s = compute_full_state_root env s"

section \<open>Blocks of transactions\<close>

record state_execution =
  sx_state_root :: hash
  sx_receipts :: "receipt list"
  sx_accounts :: "account list"

definition finish_execution ::
  "('q, 'e) state_env \<Rightarrow> receipt list \<Rightarrow> ('q, 'e) overlay_state \<Rightarrow>
    (state_error + state_execution) \<times> ('q, 'e) state_manager" where
  "finish_execution env receipts so =
    (let (s, overlay) = so; (r, s) = compute_state_root_with_overlay env overlay s in
     or_return r s (\<lambda>root.
     (Inr \<lparr> sx_state_root = root, sx_receipts = receipts, sx_accounts = map snd overlay \<rparr>, s)))"

definition execute_transactions_overlay_sequential ::
  "('q, 'e) state_env \<Rightarrow> signed_transaction list \<Rightarrow> bool \<Rightarrow> ('q, 'e) state_manager \<Rightarrow>
    (state_error + state_execution) \<times> ('q, 'e) state_manager" where
  "execute_transactions_overlay_sequential env txs persist_contracts s =
    (let (r, so) = overlay_run env persist_contracts txs (s, []) in
     or_return r (fst so) (\<lambda>receipts. finish_execution env receipts so))"

text \<open>The transactions of each sender, by position; \<open>iter\<close> is the iteration order of the map of groups.\<close>

definition group_indices :: "(address set \<Rightarrow> address list) \<Rightarrow> signed_transaction list \<Rightarrow> nat list list" where
  "group_indices iter txs =
    map (\<lambda>a. filter (\<lambda>i. tx_from (stx_transaction (txs ! i)) = a) [0..<length txs])
      (iter ((\<lambda>tx. tx_from (stx_transaction tx)) ` set txs))"

fun run_groups ::
  "('q, 'e) state_env \<Rightarrow> bool \<Rightarrow> signed_transaction list \<Rightarrow> nat list list \<Rightarrow> ('q, 'e) state_manager \<Rightarrow>
    (state_error + ((nat \<times> receipt) list \<times> (address, account) btree) list) \<times> ('q, 'e) state_manager" where
  "run_groups env persist_contracts txs [] s = (Inr [], s)"
| "run_groups env persist_contracts txs (indices # groups) s =
    (let (r, (s, overlay)) = overlay_run env persist_contracts (map (\<lambda>i. txs ! i) indices) (s, []) in
     or_return r s (\<lambda>receipts.
     let (r, s) = run_groups env persist_contracts txs groups s in
     or_return r s (\<lambda>results. (Inr ((zip indices receipts, overlay) # results), s))))"

definition merge_accounts :: "address \<Rightarrow> account \<Rightarrow> account \<Rightarrow> account \<Rightarrow> account" where
  "merge_accounts a base existing x =
    \<lparr> acc_address = a, acc_balance = acc_balance x + acc_balance existing - acc_balance base,
      acc_nonce = max (acc_nonce x) (acc_nonce existing),
      acc_code_hash = (case acc_code_hash x of Some h \<Rightarrow> Some h | None \<Rightarrow> acc_code_hash existing),
      acc_storage_root = acc_storage_root x,
      acc_stake = acc_stake x + acc_stake existing - acc_stake base,
      acc_is_validator = (acc_is_validator x \<or> acc_is_validator existing) \<rparr>"

definition merge_account ::
  "('q, 'e) state_env \<Rightarrow> address \<times> account \<Rightarrow> ('q, 'e) overlay_state \<Rightarrow> ('q, 'e) overlay_state" where
  "merge_account env = (\<lambda>(a, x) (s, overlay).
    case map_of overlay a of
      None \<Rightarrow> (s, btree_insert a x overlay)
    | Some existing \<Rightarrow>
        (let (r, s) = get_account env a s;
             base = (case r of Inr b \<Rightarrow> b | Inl _ \<Rightarrow> account_new a)
         in (s, btree_insert a (merge_accounts a base existing x) overlay)))"

definition execute_transactions_overlay ::
  "('q, 'e) state_env \<Rightarrow> (address set \<Rightarrow> address list) \<Rightarrow> signed_transaction list \<Rightarrow> bool \<Rightarrow>
    ('q, 'e) state_manager \<Rightarrow> (state_error + state_execution) \<times> ('q, 'e) state_manager" where
  "execute_transactions_overlay env iter txs persist_contracts s =
    (if length txs \<le> 8 then execute_transactions_overlay_sequential env txs persist_contracts s else
     let (r, s) = run_groups env persist_contracts txs (group_indices iter txs) s in
     or_return r s (\<lambda>results.
     let receipts = map snd (sort_key fst (concat (map fst results)));
         so = fold (merge_account env) (concat (map snd results)) (s, [])
     in finish_execution env receipts so))"

definition simulate_transactions ::
  "('q, 'e) state_env \<Rightarrow> (address set \<Rightarrow> address list) \<Rightarrow> signed_transaction list \<Rightarrow> ('q, 'e) state_manager \<Rightarrow>
    (state_error + state_execution) \<times> ('q, 'e) state_manager" where
  "simulate_transactions env iter txs s = execute_transactions_overlay env iter txs False s"

definition prepare_transactions ::
  "('q, 'e) state_env \<Rightarrow> (address set \<Rightarrow> address list) \<Rightarrow> signed_transaction list \<Rightarrow> ('q, 'e) state_manager \<Rightarrow>
    (state_error + state_execution) \<times> ('q, 'e) state_manager" where
  "prepare_transactions env iter txs s = execute_transactions_overlay env iter txs True s"

definition commit_execution ::
  "('q, 'e) state_env \<Rightarrow> state_execution \<Rightarrow> ('q, 'e) state_manager \<Rightarrow>
    (state_error + unit) \<times> ('q, 'e) state_manager" where
  "commit_execution env x s =
    (let (r, s) = persist_accounts env (sx_accounts x) s in
     or_return r s (\<lambda>_. (Inr (), s\<lparr>st_root := sx_state_root x\<rparr>)))"

definition apply_transactions_atomically ::
  "('q, 'e) state_env \<Rightarrow> (address set \<Rightarrow> address list) \<Rightarrow> signed_transaction list \<Rightarrow> ('q, 'e) state_manager \<Rightarrow>
    (state_error + state_execution) \<times> ('q, 'e) state_manager" where
  "apply_transactions_atomically env iter txs s =
    (let (r, s) = prepare_transactions env iter txs s in
     or_return r s (\<lambda>x. let (r, s) = commit_execution env x s in or_return r s (\<lambda>_. (Inr x, s))))"

section \<open>Pending state and privileged operations\<close>

definition speculative_apply ::
  "('q, 'e) state_env \<Rightarrow> transaction \<Rightarrow> ('q, 'e) state_manager \<Rightarrow>
    (state_error + account) \<times> ('q, 'e) state_manager" where
  "speculative_apply env t s =
    (let s = s\<lparr>st_counter := st_counter s + 1\<rparr>;
         (x, s) = (case map_of (st_pending s) (tx_from t) of
            Some x \<Rightarrow> (x, s)
          | None \<Rightarrow>
              (let (r, s) = get_account env (tx_from t) s;
                   x = (case r of Inr x \<Rightarrow> x | Inl _ \<Rightarrow> account_new (tx_from t))
               in (x, s\<lparr>st_pending := btree_insert (tx_from t) x (st_pending s)\<rparr>))) in
     or_return (check_nonce t x) s (\<lambda>_.
     or_return (bump_nonce x) s (\<lambda>x.
     (Inr x, s\<lparr>st_pending := btree_insert (tx_from t) x (st_pending s)\<rparr>))))"

definition commit_pending ::
  "('q, 'e) state_env \<Rightarrow> bytes \<Rightarrow> ('q, 'e) state_manager \<Rightarrow> (state_error + hash) \<times> ('q, 'e) state_manager" where
  "commit_pending env token s =
    or_return (verify_auth token s) s (\<lambda>_.
    let (r, s) = persist_accounts env (map snd (st_pending s)) s in or_return r s (\<lambda>_.
    let s = s\<lparr>st_pending := []\<rparr>; (r, s) = compute_full_state_root env s in or_return r s (\<lambda>root.
    (Inr root, s\<lparr>st_root := root\<rparr>))))"

definition rollback_pending :: "bytes \<Rightarrow> ('q, 'e) state_manager \<Rightarrow> (state_error + unit) \<times> ('q, 'e) state_manager" where
  "rollback_pending token s = or_return (verify_auth token s) s (\<lambda>_. (Inr (), s\<lparr>st_pending := []\<rparr>))"

definition restore_account ::
  "('q, 'e) state_env \<Rightarrow> address \<Rightarrow> account \<Rightarrow> ('q, 'e) state_manager \<Rightarrow>
    (state_error + unit) \<times> ('q, 'e) state_manager" where
  "restore_account env a x s =
    (let (r, s) = persist_accounts env [x] s in or_return r s (\<lambda>_.
     (Inr (), s\<lparr>st_pending := filter (\<lambda>(k, _). k \<noteq> a) (st_pending s)\<rparr>)))"

definition set_balance ::
  "('q, 'e) state_env \<Rightarrow> address \<Rightarrow> amount \<Rightarrow> bytes \<Rightarrow> ('q, 'e) state_manager \<Rightarrow>
    (state_error + unit) \<times> ('q, 'e) state_manager" where
  "set_balance env a balance token s =
    or_return (verify_auth token s) s (\<lambda>_.
    let (r, s) = get_account env a s in or_return r s (\<lambda>x.
    persist_accounts env [x\<lparr>acc_balance := balance\<rparr>] s))"

fun genesis_accounts :: "(address \<times> amount) list \<Rightarrow> u128 \<Rightarrow> account list \<Rightarrow> state_error + account list" where
  "genesis_accounts [] total_supply accounts = Inr accounts"
| "genesis_accounts ((a, balance) # bs) total_supply accounts =
    (case checked_add total_supply balance of
       None \<Rightarrow> Inl StateArithmeticOverflow
     | Some total_supply \<Rightarrow>
         genesis_accounts bs total_supply (accounts @ [(account_new a)\<lparr>acc_balance := balance\<rparr>]))"

definition apply_genesis ::
  "('q, 'e) state_env \<Rightarrow> (address \<times> amount) list \<Rightarrow> bytes \<Rightarrow> ('q, 'e) state_manager \<Rightarrow>
    (state_error + unit) \<times> ('q, 'e) state_manager" where
  "apply_genesis env initial_balances token s =
    or_return (verify_auth token s) s (\<lambda>_.
    if st_root s \<noteq> replicate 32 0 then (Inr (), s) else
    or_return (genesis_accounts initial_balances 0 []) s (\<lambda>accounts.
    let (r, s) = persist_accounts env accounts s in or_return r s (\<lambda>_.
    let (r, s) = compute_full_state_root env s in or_return r s (\<lambda>root.
    (Inr (), s\<lparr>st_root := root\<rparr>)))))"

definition apply_state_batch ::
  "('q, 'e) state_env \<Rightarrow> account list \<Rightarrow> bytes \<Rightarrow> ('q, 'e) state_manager \<Rightarrow>
    (state_error + unit) \<times> ('q, 'e) state_manager" where
  "apply_state_batch env accounts token s =
    or_return (verify_auth token s) s (\<lambda>_.
    let (r, s) = persist_accounts env accounts s in or_return r s (\<lambda>_.
    let (r, s) = compute_full_state_root env s in or_return r s (\<lambda>root.
    (Inr (), s\<lparr>st_root := root\<rparr>))))"

section \<open>Operations\<close>

datatype ('q, 'e) state_op =
    GetAccount "('q, 'e) state_env" address
  | ApplyTransaction "('q, 'e) state_env" signed_transaction
  | ApplyAtomically "('q, 'e) state_env" "address set \<Rightarrow> address list" "signed_transaction list"
  | Simulate "('q, 'e) state_env" "address set \<Rightarrow> address list" "signed_transaction list"
  | CommitExecution "('q, 'e) state_env" state_execution
  | ComputeRoot "('q, 'e) state_env"
  | SpeculativeApply "('q, 'e) state_env" transaction
  | CommitPending "('q, 'e) state_env" bytes
  | RollbackPending bytes
  | RestoreAccount "('q, 'e) state_env" address account
  | SetBalance "('q, 'e) state_env" address amount bytes
  | ApplyGenesis "('q, 'e) state_env" "(address \<times> amount) list" bytes
  | ApplyBatch "('q, 'e) state_env" "account list" bytes

fun state_exec :: "('q, 'e) state_op \<Rightarrow> ('q, 'e) state_manager \<Rightarrow> ('q, 'e) state_manager" where
  "state_exec (GetAccount env a) s = snd (get_account env a s)"
| "state_exec (ApplyTransaction env tx) s = snd (apply_transaction env tx s)"
| "state_exec (ApplyAtomically env iter txs) s = snd (apply_transactions_atomically env iter txs s)"
| "state_exec (Simulate env iter txs) s = snd (simulate_transactions env iter txs s)"
| "state_exec (CommitExecution env x) s = snd (commit_execution env x s)"
| "state_exec (ComputeRoot env) s = snd (compute_state_root env s)"
| "state_exec (SpeculativeApply env t) s = snd (speculative_apply env t s)"
| "state_exec (CommitPending env token) s = snd (commit_pending env token s)"
| "state_exec (RollbackPending token) s = snd (rollback_pending token s)"
| "state_exec (RestoreAccount env a x) s = snd (restore_account env a x s)"
| "state_exec (SetBalance env a b token) s = snd (set_balance env a b token s)"
| "state_exec (ApplyGenesis env bs token) s = snd (apply_genesis env bs token s)"
| "state_exec (ApplyBatch env xs token) s = snd (apply_state_batch env xs token s)"

section \<open>A concrete environment\<close>

text \<open>Machines that answer every call with success, a hash and a signature check that are constant, and a
  database that holds one account.\<close>

definition sample_env :: "(unit, unit) state_env" where
  "sample_env =
    \<lparr> se_hash = (\<lambda>_. addr 1), se_verify = (\<lambda>_ _ _. Inr True), se_hex = (\<lambda>_. []),
      se_qvm_deploy = (\<lambda>_ _ _ _ _ _ q. (Inr (addr 7, None), q)),
      se_qvm_execute = (\<lambda>_ _ _ _ _ q.
        (Inr \<lparr> xr_success = True, xr_return_data = [], xr_logs = [], xr_debug_messages = [] \<rparr>, q)),
      se_qvm_simulate = (\<lambda>_ _ _ _ _ q.
        (Inr \<lparr> xr_success = True, xr_return_data = [], xr_logs = [], xr_debug_messages = [] \<rparr>, q)),
      se_evm_deploy = (\<lambda>_ _ _ _ _ _ e. (Inl ''no code'', e)), se_evm_call = (\<lambda>_ _ _ _ _ _ e. (Inl ''no code'', e)),
      se_read_fails = (\<lambda>_. False), se_write_error = None, se_iter_error = None, se_committee_disk_ok = True,
      se_clock = None \<rparr>"

definition sample_tx :: "transaction_type \<Rightarrow> address \<Rightarrow> amount \<Rightarrow> u64 \<Rightarrow> signed_transaction" where
  "sample_tx ty to amount nonce =
    \<lparr> stx_transaction =
        \<lparr> tx_type = ty, tx_from = addr 1, tx_to = to, tx_amount = amount, tx_nonce = nonce,
          tx_max_compute_units = 1, tx_boost = None, tx_vm_kind = Qvm, tx_data = [], tx_shard_id = 0,
          tx_timestamp = 0, tx_signature = [], tx_public_key = [], tx_chain_id = 1 \<rparr>,
      stx_hash = addr 9, stx_size = 0 \<rparr>"

definition sample_state :: "(unit, unit) state_manager" where
  "sample_state = state_manager_new [] [(addr 1, (account_new (addr 1))\<lparr>acc_balance := 100, acc_stake := 50\<rparr>)]"

end
