(* ===== verification/State_Props.thy ===== *)
theory State_Props
  imports State_Exec
begin

text \<open>
  Lemmas on the execution of one transaction by the state manager: what it leaves alone, what an account
  lookup returns through overlay, cache and database, what an effect does to balance plus stake of sender
  and recipient, and how nonces move along a run.
\<close>

section \<open>What execution leaves alone\<close>

text \<open>Everything but the cache, the virtual machines and the committee is kept, and the cache only gains
  entries of the database.\<close>

definition cache_step :: "('q, 'e) state_manager \<Rightarrow> ('q, 'e) state_manager \<Rightarrow> bool" where
  "cache_step s s' \<longleftrightarrow> st_stored s' = st_stored s \<and> st_pending s' = st_pending s \<and> st_root s' = st_root s \<and>
    st_index s' = st_index s \<and> st_auth_token s' = st_auth_token s \<and>
    (\<forall>a x. st_cache s' a = Some x \<longrightarrow> st_cache s a = Some x \<or> map_of (st_stored s) a = Some x)"

lemma cache_step_refl [simp, intro]: "cache_step s s"
  by (simp add: cache_step_def)

lemma cache_step_trans [trans]: "cache_step s s' \<Longrightarrow> cache_step s' s'' \<Longrightarrow> cache_step s s''"
  unfolding cache_step_def by metis

lemma cache_step_updates [simp]:
  "cache_step s (s'\<lparr>st_contracts := c\<rparr>) = cache_step s s'"
  "cache_step s (s'\<lparr>st_evm := v\<rparr>) = cache_step s s'"
  "cache_step s (s'\<lparr>st_committee := m\<rparr>) = cache_step s s'"
  "cache_step s (s'\<lparr>st_counter := n\<rparr>) = cache_step s s'"
  "cache_step (s\<lparr>st_contracts := c\<rparr>) s' = cache_step s s'"
  "cache_step (s\<lparr>st_evm := v\<rparr>) s' = cache_step s s'"
  "cache_step (s\<lparr>st_counter := n\<rparr>) s' = cache_step s s'"
  by (simp_all add: cache_step_def)

lemma cache_step_or_return:
  "cache_step s s' \<Longrightarrow> (\<And>a. r = Inr a \<Longrightarrow> cache_step s (snd (k a))) \<Longrightarrow> cache_step s (snd (or_return r s' k))"
  by (cases r) simp_all

lemma get_account_step [simp]: "cache_step s (snd (get_account env a s))"
  by (auto simp: get_account_def cache_step_def split: option.splits)

lemma get_account_stepD: "get_account env a s = (r, s') \<Longrightarrow> cache_step s s'"
  by (metis get_account_step snd_conv)

lemma overlay_account_stepD: "overlay_account env ov a s = (r, s') \<Longrightarrow> cache_step s s'"
  by (auto simp: overlay_account_def dest: get_account_stepD split: option.splits)

lemma register_validator_step: "register_validator env t x s = (r, s') \<Longrightarrow> cache_step s s'"
  by (auto simp: register_validator_def Let_def split: if_splits or_return_splits option.splits prod.splits)

lemma exit_validator_step: "exit_validator e env t x s = (r, s') \<Longrightarrow> cache_step s s'"
  by (auto simp: exit_validator_def Let_def split: or_return_splits)

lemma apply_deploy_qvm_step: "apply_deploy_qvm env t x s = (r, s') \<Longrightarrow> cache_step s s'"
  by (auto simp: apply_deploy_qvm_def Let_def dest!: get_account_stepD
      split: if_splits or_return_splits option.splits prod.splits)

lemma apply_deploy_evm_step: "apply_deploy_evm env t x s = (r, s') \<Longrightarrow> cache_step s s'"
  by (auto simp: apply_deploy_evm_def Let_def dest!: get_account_stepD
      split: if_splits or_return_splits option.splits prod.splits)

lemma apply_call_qvm_step: "apply_call_qvm env t x y s = (r, s') \<Longrightarrow> cache_step s s'"
  by (auto simp: apply_call_qvm_def Let_def split: if_splits or_return_splits option.splits prod.splits)

lemma apply_call_evm_step: "apply_call_evm env t x y s = (r, s') \<Longrightarrow> cache_step s s'"
  by (auto simp: apply_call_evm_def Let_def split: if_splits or_return_splits option.splits prod.splits)

lemma overlay_deploy_step: "overlay_deploy env p ov t x s = (r, s') \<Longrightarrow> cache_step s s'"
  by (auto simp: overlay_deploy_def Let_def dest!: overlay_account_stepD
      split: if_splits or_return_splits option.splits prod.splits intro: cache_step_trans)

lemma overlay_call_step: "overlay_call env p t x y s = (r, s') \<Longrightarrow> cache_step s s'"
  by (auto simp: overlay_call_def Let_def split: if_splits or_return_splits option.splits prod.splits)

lemmas effect_steps = apply_deploy_qvm_step apply_deploy_evm_step apply_call_qvm_step apply_call_evm_step
  overlay_deploy_step overlay_call_step register_validator_step exit_validator_step

lemma apply_effect_step: "apply_effect env t x y s = (r, s') \<Longrightarrow> cache_step s s'"
  by (auto simp: apply_effect_def Let_def dest!: effect_steps
      split: transaction_type.splits vm_kind.splits or_return_splits prod.splits)

lemma overlay_effect_step: "overlay_effect env p ov t x y s = (r, s') \<Longrightarrow> cache_step s s'"
  by (auto simp: overlay_effect_def Let_def dest!: effect_steps
      split: transaction_type.splits or_return_splits prod.splits)

lemma validate_step: "validate_transaction env t s = (r, s') \<Longrightarrow> cache_step s s'"
  by (auto simp: validate_transaction_def Let_def dest!: get_account_stepD split: or_return_splits prod.splits)

lemma validate_overlay_step:
  "validate_transaction_against_overlay env t ov s = (r, s') \<Longrightarrow> cache_step s s'"
  by (auto simp: validate_transaction_against_overlay_def Let_def dest!: overlay_account_stepD
      split: or_return_splits prod.splits)

section \<open>What an account lookup returns\<close>

definition coherent :: "('q, 'e) state_manager \<Rightarrow> bool" where
  "coherent s \<longleftrightarrow> (\<forall>a x. st_cache s a = Some x \<longrightarrow> map_of (st_stored s) a = Some x)"

text \<open>The account at an address, through the overlay and the database.\<close>

definition oview :: "(address, account) btree \<Rightarrow> (address, account) btree \<Rightarrow> address \<Rightarrow> account" where
  "oview stored ov a =
    (case map_of ov a of
       Some x \<Rightarrow> x
     | None \<Rightarrow> (case map_of stored a of Some x \<Rightarrow> x | None \<Rightarrow> account_new a))"

lemma coherent_step: "coherent s \<Longrightarrow> cache_step s s' \<Longrightarrow> coherent s'"
  unfolding coherent_def cache_step_def by metis

lemma get_account_view: "coherent s \<Longrightarrow> get_account env a s = (Inr x, s') \<Longrightarrow> x = oview (st_stored s) [] a"
  by (auto simp: get_account_def coherent_def oview_def split: option.splits if_splits)

lemma overlay_account_view:
  "coherent s \<Longrightarrow> overlay_account env ov a s = (Inr x, s') \<Longrightarrow> x = oview (st_stored s) ov a"
  using get_account_view [of s env a x s'] by (cases "map_of ov a") (auto simp: overlay_account_def oview_def)

lemma oview_insert [simp]: "oview stored (btree_insert k x ov) = (oview stored ov)(k := x)"
  by (auto simp: oview_def fun_eq_iff)

text \<open>Every account is filed under its own address.\<close>

definition filed :: "(address, account) btree \<Rightarrow> bool" where
  "filed t \<longleftrightarrow> btree_ok t \<and> (\<forall>(a, x)\<in>set t. acc_address x = a)"

lemma filed_Nil [simp]: "filed []"
  by (simp add: filed_def)

lemma set_btree_insert: "set (btree_insert k v t) \<subseteq> insert (k, v) (set t)"
  by (induction t) (auto split: if_splits)

lemma filed_insert [intro]: "filed t \<Longrightarrow> acc_address x = a \<Longrightarrow> filed (btree_insert a x t)"
  using set_btree_insert [of a x t] by (auto simp: filed_def)

lemma filed_lookup: "filed t \<Longrightarrow> map_of t a = Some x \<Longrightarrow> acc_address x = a"
  by (auto simp: filed_def dest: map_of_SomeD)

lemma oview_address [simp]: "filed stored \<Longrightarrow> filed ov \<Longrightarrow> acc_address (oview stored ov a) = a"
  by (auto simp: oview_def account_new_def filed_lookup split: option.splits)

section \<open>Worth\<close>

definition worth :: "account \<Rightarrow> nat" where
  "worth x = unat (acc_balance x) + unat (acc_stake x)"

text \<open>What an operation on an account keeps.\<close>

definition same_id :: "account \<Rightarrow> account \<Rightarrow> bool" where
  "same_id x y \<longleftrightarrow> acc_address y = acc_address x \<and> acc_nonce y = acc_nonce x"

lemma worth_flags [simp]:
  "worth (x\<lparr>acc_is_validator := b\<rparr>) = worth x" "worth (x\<lparr>acc_code_hash := h\<rparr>) = worth x"
  "worth (x\<lparr>acc_nonce := n\<rparr>) = worth x" "worth (account_new a) = 0"
  by (simp_all add: worth_def account_new_def)

lemma same_id_flags [simp]:
  "same_id x x" "same_id x (y\<lparr>acc_is_validator := b\<rparr>) = same_id x y"
  "same_id x (y\<lparr>acc_code_hash := h\<rparr>) = same_id x y"
  by (simp_all add: same_id_def)

lemma guarded_Inr: "guarded e (b, y) = Inr z \<longleftrightarrow> b \<and> z = y"
  by (auto simp: guarded_def)

lemma guarded_sub_balance:
  "guarded e (sub_balance a x) = Inr y \<Longrightarrow> same_id x y \<and> worth y + unat a = worth x"
  by (auto simp: guarded_def sub_balance_def same_id_def worth_def rust_simps unat_sub_no_underflow
      word_le_nat_alt split: option.splits)

lemma add_balance_worth:
  "same_id x (snd (add_balance a x))"
  "worth x + unat a < 2 ^ 128 \<Longrightarrow> worth (snd (add_balance a x)) = worth x + unat a"
  by (auto simp: add_balance_def same_id_def worth_def rust_simps unat_add_no_overflow split: option.splits)

lemma guarded_add_stake: "guarded e (add_stake a x) = Inr y \<Longrightarrow> same_id x y \<and> worth y = worth x"
  by (auto simp: guarded_def add_stake_def same_id_def worth_def rust_simps unat_sub_no_underflow
      unat_add_no_overflow word_le_nat_alt split: option.splits)

lemma guarded_remove_stake: "guarded e (remove_stake a x) = Inr y \<Longrightarrow> same_id x y \<and> worth y = worth x"
  by (auto simp: guarded_def remove_stake_def add_balance_def same_id_def worth_def rust_simps
      unat_sub_no_underflow unat_add_no_overflow word_le_nat_alt split: option.splits)

lemma guarded_subtract_stake:
  "guarded e (subtract_stake a x) = Inr y \<Longrightarrow> same_id x y \<and> worth y + unat a = worth x"
  by (auto simp: guarded_def subtract_stake_def same_id_def worth_def rust_simps unat_sub_no_underflow
      word_le_nat_alt split: option.splits)

lemma add_stake_direct_worth:
  "same_id x (add_stake_direct a x)"
  "worth x + unat a < 2 ^ 128 \<Longrightarrow> worth (add_stake_direct a x) = worth x + unat a"
  by (auto simp: add_stake_direct_def same_id_def worth_def rust_simps unat_add_no_overflow split: option.splits)

text \<open>The effect of a transaction on sender and recipient: nothing is created, and nothing is lost
  between two different accounts.\<close>

definition conserved :: "account \<Rightarrow> account \<Rightarrow> account \<Rightarrow> account \<Rightarrow> bool" where
  "conserved x y x' y' \<longleftrightarrow> same_id x x' \<and> same_id y y' \<and>
    (if acc_address x = acc_address y then worth x' = worth x
     else worth x + worth y < 2 ^ 128 \<longrightarrow> worth x' + worth y' = worth x + worth y)"

lemma overlay_move_conserved:
  assumes "overlay_move a x y = Inr (x', y')"
  shows "conserved x y x' y'"
proof -
  obtain z where z: "guarded InsufficientBalance (sub_balance a x) = Inr z"
    using assms by (auto simp: overlay_move_def split: sum.splits)
  note sub = guarded_sub_balance [OF z]
  show ?thesis
  proof (cases "acc_address x = acc_address y")
    case True
    have "unat (acc_balance z) + unat a < 2 ^ 128"
      using z unat_less_exp [of "acc_balance x"]
      by (auto simp: guarded_def sub_balance_def rust_simps unat_sub_no_underflow word_le_nat_alt split: option.splits)
    then have "worth (snd (add_balance a z)) = worth z + unat a"
      by (simp add: add_balance_def worth_def checked_add_def unat_add_no_overflow)
    with True sub assms z add_balance_worth(1) [of z a] show ?thesis
      by (simp add: overlay_move_def conserved_def same_id_def)
  next
    case False
    with sub assms z add_balance_worth [of y a] show ?thesis
      by (auto simp: overlay_move_def conserved_def same_id_def)
  qed
qed

lemma overlay_call_conserved:
  assumes "overlay_call env p t x y s = (Inr (x', y', logs), s')"
  shows "conserved x y x' y'"
proof (cases "tx_amount t > 0")
  case True
  with assms show ?thesis
    by (auto simp: overlay_call_def Let_def dest: overlay_move_conserved
        split: or_return_splits option.splits prod.splits if_splits)
next
  case False
  with assms show ?thesis
    by (auto simp: overlay_call_def Let_def conserved_def
        split: or_return_splits option.splits prod.splits if_splits)
qed

lemma register_validator_conserved:
  "register_validator env t x s = (Inr x', s') \<Longrightarrow> same_id x x' \<and> worth x' = worth x"
  by (auto simp: register_validator_def Let_def dest!: guarded_add_stake
      split: or_return_splits option.splits prod.splits if_splits)

lemma exit_validator_conserved:
  "exit_validator e env t x s = (Inr x', s') \<Longrightarrow> same_id x x' \<and> worth x' = worth x"
  by (auto simp: exit_validator_def Let_def dest!: guarded_remove_stake split: or_return_splits)

lemma overlay_deploy_shape:
  assumes "overlay_deploy env p ov t x s = (Inr (x', y', logs), s')"
  shows "x' = x \<and> (\<exists>a s1 s2 y h. cache_step s s1 \<and> overlay_account env ov a s1 = (Inr y, s2) \<and>
    y' = y\<lparr>acc_code_hash := h\<rparr>)"
  using assms
  by (auto simp: overlay_deploy_def Let_def split: or_return_splits option.splits prod.splits if_splits)
    (metis cache_step_refl cache_step_updates(1) overlay_account_stepD)+

lemma overlay_deploy_result:
  assumes "coherent s" "overlay_deploy env p ov t x s = (Inr (x', y', logs), s')"
  shows "x' = x \<and> (\<exists>c h. y' = (oview (st_stored s) ov c)\<lparr>acc_code_hash := h\<rparr>)"
proof -
  obtain a s1 s2 y h where y: "x' = x" "cache_step s s1" "overlay_account env ov a s1 = (Inr y, s2)"
    "y' = y\<lparr>acc_code_hash := h\<rparr>"
    using overlay_deploy_shape [OF assms(2)] by blast
  then have "y = oview (st_stored s) ov a"
    using overlay_account_view [OF coherent_step [OF assms(1) y(2)] y(3)] by (simp add: cache_step_def)
  with y show ?thesis by blast
qed

lemma overlay_effect_ids:
  assumes "coherent s" "overlay_effect env p ov t x y s = (Inr (x', y', logs), s')"
  shows "same_id x x' \<and> (same_id y y' \<or> (\<exists>c h. y' = (oview (st_stored s) ov c)\<lparr>acc_code_hash := h\<rparr>))"
proof (cases "tx_type t = TxContractDeploy")
  case True
  with assms overlay_deploy_result [OF assms(1)] show ?thesis by (fastforce simp: overlay_effect_def)
next
  case False
  with assms(2) show ?thesis
    by (auto simp: overlay_effect_def Let_def conserved_def add_stake_direct_worth
        dest!: overlay_move_conserved overlay_call_conserved guarded_add_stake guarded_remove_stake
          guarded_subtract_stake register_validator_conserved exit_validator_conserved
        split: transaction_type.splits or_return_splits prod.splits)
qed

lemma overlay_effect_conserved:
  assumes "overlay_effect env p ov t x y s = (Inr (x', y', logs), s')" "tx_type t \<noteq> TxContractDeploy"
    and "\<not> (tx_type t = TxStakeTransfer \<and> acc_address x = acc_address y)"
  shows "conserved x y x' y'"
proof (cases "tx_type t = TxStakeTransfer")
  case True
  then obtain x1 where "guarded InsufficientBalance (subtract_stake (tx_amount t) x) = Inr x1"
    "x' = x1" "y' = add_stake_direct (tx_amount t) y"
    using assms(1) by (auto simp: overlay_effect_def split: or_return_splits)
  with True assms(3) guarded_subtract_stake [of InsufficientBalance "tx_amount t" x x1]
    add_stake_direct_worth [of y "tx_amount t"] show ?thesis
    by (auto simp: conserved_def)
next
  case False
  with assms(1,2) show ?thesis
    by (auto simp: overlay_effect_def Let_def conserved_def
        dest!: overlay_move_conserved overlay_call_conserved guarded_add_stake guarded_remove_stake
          register_validator_conserved exit_validator_conserved
        split: transaction_type.splits or_return_splits prod.splits)
qed

lemma bump_nonce_Inr:
  "bump_nonce x = Inr y \<longleftrightarrow> unat (acc_nonce x) + 1 < 2 ^ 64 \<and> y = x\<lparr>acc_nonce := acc_nonce x + 1\<rparr>"
  by (auto simp: bump_nonce_def increment_nonce_def rust_eval checked_add_def Let_def
      split: prod.splits sum.splits if_splits)

lemma validate_overlay_nonce:
  assumes "coherent s" "validate_transaction_against_overlay env t ov s = (Inr u, s')"
  shows "tx_nonce t = acc_nonce (oview (st_stored s) ov (tx_from t))"
  using assms overlay_account_view [OF assms(1)]
  by (auto simp: validate_transaction_against_overlay_def check_nonce_def Let_def
      split: or_return_splits prod.splits if_splits)

text \<open>The two outcomes of a transaction in an overlay.\<close>

lemma overlay_exec_cases:
  assumes co: "coherent s" and run: "execute_transaction_overlay env p tx (s, ov) = (r, (s', ov'))"
  obtains (failed) e where "r = Inl e" "ov' = ov" "cache_step s s'"
  | (done_tx) x' y' logs s1 s2 where "r = Inr (success_receipt tx logs (acc_address y'))" "cache_step s s'"
      "cache_step s s1"
      "overlay_effect env p ov (stx_transaction tx) (oview (st_stored s) ov (tx_from (stx_transaction tx)))
         (oview (st_stored s) ov (tx_to (stx_transaction tx))) s1 = (Inr (x', y', logs), s2)"
      "tx_nonce (stx_transaction tx) = acc_nonce (oview (st_stored s) ov (tx_from (stx_transaction tx)))"
      "unat (acc_nonce x') + 1 < 2 ^ 64"
      "ov' = (if tx_from (stx_transaction tx) \<noteq> acc_address y'
         then btree_insert (acc_address y') y' (btree_insert (acc_address x') (x'\<lparr>acc_nonce := acc_nonce x' + 1\<rparr>) ov)
         else btree_insert (acc_address x') (x'\<lparr>acc_nonce := acc_nonce x' + 1\<rparr>) ov)"
proof -
  let ?t = "stx_transaction tx"
  obtain r1 s1 where v: "validate_transaction_against_overlay env ?t ov s = (r1, s1)" by fastforce
  note st1 = validate_overlay_step [OF v]
  obtain r2 s2 where x: "overlay_account env ov (tx_from ?t) s1 = (r2, s2)" by fastforce
  note st2 = cache_step_trans [OF st1 overlay_account_stepD [OF x]]
  obtain r3 s3 where y: "overlay_account env ov (tx_to ?t) s2 = (r3, s3)" by fastforce
  note st3 = cache_step_trans [OF st2 overlay_account_stepD [OF y]]
  note def = run [unfolded execute_transaction_overlay_def Let_def prod.case v x y]
  show ?thesis
  proof (cases "\<exists>u x1 y1. r1 = Inr u \<and> r2 = Inr x1 \<and> r3 = Inr y1")
    case False
    then show ?thesis using def failed st1 st2 st3 by (auto split: or_return_splits)
  next
    case True
    then obtain u x1 y1 where ok: "r1 = Inr u" "r2 = Inr x1" "r3 = Inr y1" by blast
    have stored: "st_stored s1 = st_stored s" "st_stored s2 = st_stored s"
      using st1 st2 by (simp_all add: cache_step_def)
    have views: "x1 = oview (st_stored s) ov (tx_from ?t)" "y1 = oview (st_stored s) ov (tx_to ?t)"
      using overlay_account_view [OF coherent_step [OF co st1] x [unfolded ok]]
        overlay_account_view [OF coherent_step [OF co st2] y [unfolded ok]] by (simp_all add: stored)
    have nonce: "tx_nonce ?t = acc_nonce (oview (st_stored s) ov (tx_from ?t))"
      using validate_overlay_nonce [OF co v [unfolded ok]] .
    obtain r4 s4 where e: "overlay_effect env p ov ?t x1 y1 s3 = (r4, s4)" by fastforce
    note st4 = cache_step_trans [OF st3 overlay_effect_step [OF e]]
    show ?thesis
    proof (cases r4)
      case (Inl err)
      then show ?thesis using def ok e failed st4 by auto
    next
      case (Inr res)
      obtain x' y' logs where res: "res = (x', y', logs)" by (cases res) blast
      show ?thesis
      proof (cases "bump_nonce x'")
        case (Inl err)
        then show ?thesis using def ok e Inr res failed st4 by auto
      next
        case bump: (Inr z)
        have "(r, s', ov') = (Inr (success_receipt tx logs (acc_address y')), s4,
          if tx_from ?t \<noteq> acc_address y' then btree_insert (acc_address y') y' (btree_insert (acc_address z) z ov)
          else btree_insert (acc_address z) z ov)"
          using def [symmetric] by (simp add: ok e Inr res bump)
        moreover have "unat (acc_nonce x') + 1 < 2 ^ 64" "z = x'\<lparr>acc_nonce := acc_nonce x' + 1\<rparr>"
          using bump by (simp_all add: bump_nonce_Inr)
        ultimately show ?thesis
          using st4 by (intro done_tx [OF _ _ st3 e [unfolded views Inr res] nonce]) auto
      qed
    qed
  qed
qed

section \<open>Nonces\<close>

text \<open>The database and the overlay of an execution in progress.\<close>

definition running :: "('q, 'e) overlay_state \<Rightarrow> bool" where
  "running = (\<lambda>(s, ov). coherent s \<and> filed (st_stored s) \<and> filed ov)"

lemma running_simp: "running (s, ov) \<longleftrightarrow> coherent s \<and> filed (st_stored s) \<and> filed ov"
  by (simp add: running_def)

definition nonce_of :: "('q, 'e) overlay_state \<Rightarrow> address \<Rightarrow> nat" where
  "nonce_of = (\<lambda>(s, ov) a. unat (acc_nonce (oview (st_stored s) ov a)))"

lemma running_step:
  assumes "running (s, ov)" "execute_transaction_overlay env p tx (s, ov) = (r, (s', ov'))"
  shows "running (s', ov') \<and> cache_step s s' \<and> (\<forall>a. nonce_of (s, ov) a \<le> nonce_of (s', ov') a) \<and>
    (\<forall>rc. r = Inr rc \<longrightarrow> unat (tx_nonce (stx_transaction tx)) = nonce_of (s, ov) (tx_from (stx_transaction tx)) \<and>
       nonce_of (s', ov') (tx_from (stx_transaction tx)) = nonce_of (s, ov) (tx_from (stx_transaction tx)) + 1)"
proof -
  have co: "coherent s" and f: "filed (st_stored s)" "filed ov" using assms(1) by (simp_all add: running_simp)
  from co assms(2) show ?thesis
  proof (cases rule: overlay_exec_cases)
    case (failed e)
    with co f coherent_step [OF co] show ?thesis by (auto simp: running_simp cache_step_def nonce_of_def)
  next
    case (done_tx x' y' logs s1 s2)
    let ?v = "oview (st_stored s) ov"
    have s1: "st_stored s1 = st_stored s" "coherent s1"
      using done_tx(3) co coherent_step by (auto simp: cache_step_def)
    have ids: "same_id (?v (tx_from (stx_transaction tx))) x'"
      "same_id (?v (tx_to (stx_transaction tx))) y' \<or> (\<exists>c h. y' = (?v c)\<lparr>acc_code_hash := h\<rparr>)"
      using overlay_effect_ids [OF s1(2) done_tx(4)] by (auto simp: s1)
    have x: "acc_address x' = tx_from (stx_transaction tx)" "acc_nonce x' = acc_nonce (?v (tx_from (stx_transaction tx)))"
      using ids(1) f by (simp_all add: same_id_def)
    have y: "acc_nonce y' = acc_nonce (?v (acc_address y'))"
      using ids(2) f by (auto simp: same_id_def)
    have n: "unat (acc_nonce x' + 1) = unat (acc_nonce x') + 1"
      using done_tx(6) unat_add_no_overflow [of "acc_nonce x'" 1] by simp
    have "filed ov'" using f by (simp add: done_tx(7) filed_insert)
    then have "running (s', ov')"
      using done_tx(2) f coherent_step [OF co done_tx(2)] by (simp add: running_simp cache_step_def)
    then show ?thesis using done_tx x y n by (auto simp: nonce_of_def cache_step_def)
  qed
qed

lemma receipt_flags [simp]:
  "rc_success (success_receipt tx logs to)" "\<not> rc_success (failed_receipt tx e)"
  by (simp_all add: success_receipt_def failed_receipt_def Let_def)

lemma overlay_run_Cons:
  assumes "overlay_run env p (tx # txs) so = (Inr rs, so'')"
  obtains r so' rs' where "execute_transaction_overlay env p tx so = (r, so')"
    "overlay_run env p txs so' = (Inr rs', so'')"
    "rs = (case r of Inr rc \<Rightarrow> rc | Inl e \<Rightarrow> failed_receipt tx e) # rs'"
  using assms by (auto simp: Let_def split: prod.splits if_splits or_return_splits)

lemma overlay_run_steps:
  assumes "running so" "overlay_run env p txs so = (Inr rs, so')"
  shows "running so' \<and> cache_step (fst so) (fst so') \<and> (\<forall>a. nonce_of so a \<le> nonce_of so' a) \<and> length rs = length txs \<and>
    (\<forall>i < length rs. rc_success (rs ! i) \<longrightarrow>
      nonce_of so (tx_from (stx_transaction (txs ! i))) \<le> unat (tx_nonce (stx_transaction (txs ! i))) \<and>
      unat (tx_nonce (stx_transaction (txs ! i))) < nonce_of so' (tx_from (stx_transaction (txs ! i))))"
  using assms
proof (induction txs arbitrary: so rs)
  case Nil
  then show ?case by simp
next
  case (Cons tx txs)
  obtain r so1 rs1 where run: "execute_transaction_overlay env p tx so = (r, so1)"
    "overlay_run env p txs so1 = (Inr rs1, so')"
    "rs = (case r of Inr rc \<Rightarrow> rc | Inl e \<Rightarrow> failed_receipt tx e) # rs1"
    using Cons.prems(2) by (rule overlay_run_Cons)
  have step: "running so1" "cache_step (fst so) (fst so1)" "\<And>a. nonce_of so a \<le> nonce_of so1 a"
    "\<And>rc. r = Inr rc \<Longrightarrow> unat (tx_nonce (stx_transaction tx)) = nonce_of so (tx_from (stx_transaction tx)) \<and>
       nonce_of so1 (tx_from (stx_transaction tx)) = nonce_of so (tx_from (stx_transaction tx)) + 1"
    using running_step [of "fst so" "snd so" env p tx r "fst so1" "snd so1"] Cons.prems(1) run(1) by auto
  note IH = Cons.IH [OF step(1) run(2)]
  have mono: "nonce_of so1 a \<le> nonce_of so' a" for a using IH by blast
  show ?case
  proof (intro conjI allI impI)
    show "running so'" "length rs = length (tx # txs)" "cache_step (fst so) (fst so')"
      using IH run(3) step(2) by (auto intro: cache_step_trans)
    show "nonce_of so a \<le> nonce_of so' a" for a using step(3) mono by (meson order_trans)
    fix i assume i: "i < length rs" "rc_success (rs ! i)"
    let ?t = "stx_transaction ((tx # txs) ! i)"
    have "nonce_of so (tx_from ?t) \<le> unat (tx_nonce ?t) \<and> unat (tx_nonce ?t) < nonce_of so' (tx_from ?t)"
    proof (cases i)
      case 0
      with i run(3) obtain rc where "r = Inr rc" by (auto split: sum.splits)
      with step(4) mono [of "tx_from ?t"] 0 show ?thesis by fastforce
    next
      case (Suc k)
      with i run(3) IH have "nonce_of so1 (tx_from ?t) \<le> unat (tx_nonce ?t)" "unat (tx_nonce ?t) < nonce_of so' (tx_from ?t)"
        by auto
      with step(3) show ?thesis by (meson order_trans)
    qed
    then show "nonce_of so (tx_from ?t) \<le> unat (tx_nonce ?t)" "unat (tx_nonce ?t) < nonce_of so' (tx_from ?t)"
      by simp_all
  qed
qed

lemma overlay_run_nonces_increase:
  assumes "running so" "overlay_run env p txs so = (Inr rs, so')" "i < j" "j < length txs"
    "rc_success (rs ! i)" "rc_success (rs ! j)"
    "tx_from (stx_transaction (txs ! i)) = tx_from (stx_transaction (txs ! j))"
  shows "unat (tx_nonce (stx_transaction (txs ! i))) < unat (tx_nonce (stx_transaction (txs ! j)))"
  using assms
proof (induction txs arbitrary: so rs i j)
  case (Cons tx txs)
  obtain r so1 rs1 where run: "execute_transaction_overlay env p tx so = (r, so1)"
    "overlay_run env p txs so1 = (Inr rs1, so')"
    "rs = (case r of Inr rc \<Rightarrow> rc | Inl e \<Rightarrow> failed_receipt tx e) # rs1"
    using Cons.prems(2) by (rule overlay_run_Cons)
  have step: "running so1"
    "\<And>rc. r = Inr rc \<Longrightarrow> unat (tx_nonce (stx_transaction tx)) < nonce_of so1 (tx_from (stx_transaction tx))"
    using running_step [of "fst so" "snd so" env p tx r "fst so1" "snd so1"] Cons.prems(1) run(1) by auto
  note steps = overlay_run_steps [OF step(1) run(2)]
  obtain k where k: "j = Suc k" using Cons.prems(3) by (cases j) auto
  show ?case
  proof (cases i)
    case 0
    with Cons.prems(5) run(3) obtain rc where "r = Inr rc" by (auto split: sum.splits)
    moreover have "nonce_of so1 (tx_from (stx_transaction (txs ! k))) \<le> unat (tx_nonce (stx_transaction (txs ! k)))"
      using steps Cons.prems(4,6) run(3) k by auto
    ultimately show ?thesis using 0 k Cons.prems(7) step(2) by fastforce
  next
    case (Suc l)
    with Cons.IH [OF step(1) run(2), of l k] Cons.prems k run(3) show ?thesis by auto
  qed
qed simp

end
