(* ===== verification/State_Blocks.thy ===== *)
theory State_Blocks
  imports State_Props
begin

text \<open>
  Blocks of transactions, executed in sequence or in groups by sender: the nonces of the successful
  transactions of a sender increase, and a block executed in sequence conserves balances and stakes.
\<close>

section \<open>Groups\<close>

text \<open>An iteration order visits every key of a map once.\<close>

definition iterates :: "('k set \<Rightarrow> 'k list) \<Rightarrow> bool" where
  "iterates iter \<longleftrightarrow> (\<forall>S. finite S \<longrightarrow> distinct (iter S) \<and> set (iter S) = S)"

lemma run_groups_runs:
  assumes "coherent s" "filed (st_stored s)" "run_groups env p txs groups s = (Inr results, s')"
  shows "cache_step s s' \<and> list_all2 (\<lambda>g res. \<exists>rs s1 s2. running (s1, []) \<and> st_stored s1 = st_stored s \<and>
    overlay_run env p (map (\<lambda>i. txs ! i) g) (s1, []) = (Inr rs, (s2, snd res)) \<and> fst res = zip g rs) groups results"
  using assms
proof (induction groups arbitrary: s results)
  case Nil
  then show ?case by simp
next
  case (Cons g groups)
  obtain rs s1 ov results' where run: "overlay_run env p (map (\<lambda>i. txs ! i) g) (s, []) = (Inr rs, (s1, ov))"
    "run_groups env p txs groups s1 = (Inr results', s')" "results = (zip g rs, ov) # results'"
    using Cons.prems(3) by (auto simp: Let_def split: prod.splits or_return_splits)
  have "running (s, [])" using Cons.prems by (simp add: running_simp)
  from overlay_run_steps [OF this run(1)] have s1: "cache_step s s1" by simp
  then have eq: "st_stored s1 = st_stored s" by (simp add: cache_step_def)
  from Cons.IH [OF coherent_step [OF Cons.prems(1) s1] _ run(2)] Cons.prems(1,2) run(1,3) s1 show ?case
    by (auto simp: eq running_simp intro: cache_step_trans)
qed

lemma distinct_concat_map:
  assumes "distinct as" "\<And>a. distinct (f a)" "\<And>a b x. x \<in> set (f a) \<Longrightarrow> x \<in> set (f b) \<Longrightarrow> a = b"
  shows "distinct (concat (map f as))"
  using assms(1)
proof (induction as)
  case (Cons a as)
  have "set (f a) \<inter> set (f b) = {}" if "b \<in> set as" for b
    using that Cons.prems assms(3) [of _ a b] by auto
  with Cons assms(2) show ?case by auto
qed simp

lemma group_indices_partition:
  assumes "iterates iter"
  shows "distinct (concat (group_indices iter txs))" "set (concat (group_indices iter txs)) = {..<length txs}"
    and "i < length txs \<Longrightarrow> filter (\<lambda>k. tx_from (stx_transaction (txs ! k)) = tx_from (stx_transaction (txs ! i))) [0..<length txs]
      \<in> set (group_indices iter txs)"
proof -
  have it: "distinct (iter ((\<lambda>tx. tx_from (stx_transaction tx)) ` set txs))"
    "set (iter ((\<lambda>tx. tx_from (stx_transaction tx)) ` set txs)) = (\<lambda>tx. tx_from (stx_transaction tx)) ` set txs"
    using assms by (simp_all add: iterates_def)
  show "distinct (concat (group_indices iter txs))"
    unfolding group_indices_def by (rule distinct_concat_map [OF it(1)]) auto
  show "set (concat (group_indices iter txs)) = {..<length txs}"
    unfolding group_indices_def using it(2) by auto
  show "i < length txs \<Longrightarrow> filter (\<lambda>k. tx_from (stx_transaction (txs ! k)) = tx_from (stx_transaction (txs ! i))) [0..<length txs]
      \<in> set (group_indices iter txs)"
    unfolding group_indices_def using it(2) by auto
qed

lemma sort_key_positions:
  assumes "distinct (map fst ps)" "set (map fst ps) = {..<n :: nat}"
  shows "map fst (sort_key fst ps) = [0..<n]" "length (sort_key fst ps) = n"
    and "(i, r) \<in> set ps \<Longrightarrow> map snd (sort_key fst ps) ! i = r"
proof -
  have d: "distinct (map fst (sort_key fst ps))" using assms(1)
    by (simp add: distinct_map)
  show *: "map fst (sort_key fst ps) = [0..<n]"
    using d assms(2) by (intro sorted_distinct_set_unique) (auto simp: lessThan_atLeast0)
  then show len: "length (sort_key fst ps) = n" by (metis length_map length_upt minus_nat.diff_0)
  assume r: "(i, r) \<in> set ps"
  then obtain k where k: "k < n" "sort_key fst ps ! k = (i, r)"
    by (metis in_set_conv_nth len set_sort)
  then have "i = k" using * len by (metis add_0 fst_conv nth_map nth_upt)
  then show "map snd (sort_key fst ps) ! i = r" using k len by simp
qed

lemma block_receipts:
  assumes iter: "iterates iter" and s: "coherent s" "filed (st_stored s)"
    and run: "run_groups env p txs (group_indices iter txs) s = (Inr results, s')" and i: "i < length txs"
  defines "g \<equiv> filter (\<lambda>k. tx_from (stx_transaction (txs ! k)) = tx_from (stx_transaction (txs ! i))) [0..<length txs]"
    and "receipts \<equiv> map snd (sort_key fst (concat (map fst results)))"
  shows "\<exists>rs s1 s2 ov. running (s1, []) \<and> st_stored s1 = st_stored s \<and> ov \<in> set (map snd results) \<and>
    overlay_run env p (map (\<lambda>i. txs ! i) g) (s1, []) = (Inr rs, (s2, ov)) \<and>
    (\<forall>k < length g. receipts ! (g ! k) = rs ! k) \<and> length receipts = length txs"
proof -
  note part = group_indices_partition [OF iter, where txs = txs]
  have runs: "list_all2 (\<lambda>g res. \<exists>rs s1 s2. running (s1, []) \<and> st_stored s1 = st_stored s \<and>
      overlay_run env p (map (\<lambda>i. txs ! i) g) (s1, []) = (Inr rs, (s2, snd res)) \<and> fst res = zip g rs)
      (group_indices iter txs) results"
    using run_groups_runs [OF s run] by blast
  then have "list_all2 (\<lambda>g res. map fst (fst res) = g) (group_indices iter txs) results"
  proof (rule list_all2_mono)
    fix g :: "nat list" and res :: "(nat \<times> receipt) list \<times> (address, account) btree"
    assume "\<exists>rs s1 s2. running (s1, []) \<and> st_stored s1 = st_stored s \<and>
      overlay_run env p (map (\<lambda>i. txs ! i) g) (s1, []) = (Inr rs, (s2, snd res)) \<and> fst res = zip g rs"
    then show "map fst (fst res) = g" using overlay_run_steps by fastforce
  qed
  then have fsts: "map fst (concat (map fst results)) = concat (group_indices iter txs)"
    by (induction rule: list_all2_induct) auto
  note sorted = sort_key_positions [of "concat (map fst results)" "length txs", unfolded fsts, OF part(1,2)]
  obtain res rs s1 s2 where res: "res \<in> set results" "running (s1, [])"
    "overlay_run env p (map (\<lambda>i. txs ! i) g) (s1, []) = (Inr rs, (s2, snd res))" "fst res = zip g rs"
    "st_stored s1 = st_stored s"
  proof -
    obtain k where k: "k < length (group_indices iter txs)" "group_indices iter txs ! k = g"
      using part(3) [OF i] by (auto simp: in_set_conv_nth g_def)
    from list_all2_nthD [OF runs k(1)] k(2) show thesis
      using that [of "results ! k"] list_all2_lengthD [OF runs] k(1) by auto
  qed
  have "length rs = length g" using overlay_run_steps [OF res(2,3)] by simp
  then have "(g ! k, rs ! k) \<in> set (concat (map fst results))" if "k < length g" for k
    using that res(1,4) by (auto intro!: bexI [of _ res] simp: set_zip)
  then have "receipts ! (g ! k) = rs ! k" if "k < length g" for k
    using that sorted(3) by (simp add: receipts_def)
  moreover have "length receipts = length txs" using sorted(2) by (simp add: receipts_def)
  moreover have "snd res \<in> set (map snd results)" using res(1) by simp
  ultimately show ?thesis using res(2,3,5) by blast
qed

section \<open>Conservation along a run\<close>

definition keys :: "('k, 'v) btree \<Rightarrow> 'k set" where
  "keys t = fst ` set t"

lemma keys_simps [simp]: "keys [] = {}" "finite (keys t)"
  by (simp_all add: keys_def)

lemma keys_map_of: "keys t = dom (map_of t)"
  by (simp add: keys_def dom_map_of_conv_image_fst)

lemma keys_insert [simp]: "keys (btree_insert k v t) = insert k (keys t)"
  by (simp add: keys_map_of)

text \<open>The sum of balances and stakes of the accounts at a set of addresses.\<close>

definition wealth :: "(address \<Rightarrow> account) \<Rightarrow> address set \<Rightarrow> nat" where
  "wealth v K = (\<Sum>a\<in>K. worth (v a))"

lemma wealth_update1:
  "finite K \<Longrightarrow> a \<in> K \<Longrightarrow> worth x = worth (v a) \<Longrightarrow> wealth (v(a := x)) K = wealth v K"
  unfolding wealth_def by (rule sum.cong) auto

lemma wealth_two: "finite K \<Longrightarrow> a \<in> K \<Longrightarrow> b \<in> K \<Longrightarrow> a \<noteq> b \<Longrightarrow>
    wealth v K = worth (v a) + worth (v b) + wealth v (K - {a, b})"
  by (simp add: wealth_def sum.remove [of K a] sum.remove [of "K - {a}" b] Diff_insert2 [symmetric])

lemma wealth_update2:
  assumes "finite K" "a \<in> K" "b \<in> K" "a \<noteq> b" "worth x + worth y = worth (v a) + worth (v b)"
  shows "wealth (v(a := x, b := y)) K = wealth v K"
proof -
  have "wealth (v(a := x, b := y)) (K - {a, b}) = wealth v (K - {a, b})"
    unfolding wealth_def by (rule sum.cong) auto
  with assms show ?thesis by (simp add: wealth_two [of K a b])
qed

text \<open>A transfer of stake from an account to itself is the one transaction that loses something.\<close>

definition self_stake :: "signed_transaction \<Rightarrow> bool" where
  "self_stake tx \<longleftrightarrow> tx_type (stx_transaction tx) = TxStakeTransfer \<and>
    tx_from (stx_transaction tx) = tx_to (stx_transaction tx)"

lemma exec_conserves:
  assumes run: "running (s, ov)" "execute_transaction_overlay env p tx (s, ov) = (r, (s', ov'))"
    and ns: "\<not> self_stake tx" and K: "finite K" "keys ov' \<subseteq> K" and small: "wealth (oview (st_stored s) ov) K < 2 ^ 128"
  shows "wealth (oview (st_stored s) ov') K = wealth (oview (st_stored s) ov) K \<and> keys ov \<subseteq> keys ov'"
proof -
  let ?v = "oview (st_stored s) ov" and ?t = "stx_transaction tx"
  have co: "coherent s" and f: "filed (st_stored s)" "filed ov" using run(1) by (simp_all add: running_simp)
  from co run(2) show ?thesis
  proof (cases rule: overlay_exec_cases)
    case (done_tx x' y' logs s1 s2)
    have s1: "st_stored s1 = st_stored s" "coherent s1"
      using done_tx(3) co coherent_step by (auto simp: cache_step_def)
    have "acc_address x' = tx_from ?t"
      using overlay_effect_ids [OF s1(2) done_tx(4)] f by (simp add: same_id_def)
    note ov' = done_tx(7) [unfolded this]
    have views: "acc_address (?v (tx_from ?t)) = tx_from ?t" "acc_address (?v (tx_to ?t)) = tx_to ?t" using f by simp_all
    have in_K: "tx_from ?t \<in> K" "tx_from ?t \<noteq> acc_address y' \<Longrightarrow> acc_address y' \<in> K"
      using K(2) ov' by (auto split: if_splits)
    show ?thesis
    proof (cases "tx_type ?t = TxContractDeploy")
      case True
      then have "overlay_deploy env p ov ?t (?v (tx_from ?t)) s1 = (Inr (x', y', logs), s2)"
        using done_tx(4) by (simp add: overlay_effect_def)
      from overlay_deploy_result [OF s1(2) this] obtain c h
        where c: "x' = ?v (tx_from ?t)" "y' = (?v c)\<lparr>acc_code_hash := h\<rparr>" by (auto simp: s1)
      have "acc_address y' = c" using c f by simp
      with c in_K K(1) ov' show ?thesis by (auto simp: wealth_update1 wealth_update2 split: if_splits)
    next
      case False
      then have cons: "conserved (?v (tx_from ?t)) (?v (tx_to ?t)) x' y'"
        using overlay_effect_conserved [OF done_tx(4)] ns views by (simp add: self_stake_def)
      have y: "acc_address y' = tx_to ?t" using cons views by (simp add: conserved_def same_id_def)
      show ?thesis
      proof (cases "tx_from ?t = tx_to ?t")
        case True
        with cons y in_K K(1) ov' views show ?thesis by (auto simp: conserved_def wealth_update1)
      next
        case ne: False
        have "worth (?v (tx_from ?t)) + worth (?v (tx_to ?t)) < 2 ^ 128"
          using small wealth_two [OF K(1) in_K(1), of "tx_to ?t" ?v] in_K(2) ne y by simp
        then have "worth x' + worth y' = worth (?v (tx_from ?t)) + worth (?v (tx_to ?t))"
          using cons ne views by (simp add: conserved_def)
        with ne y in_K K(1) ov' show ?thesis by (auto simp: wealth_update2)
      qed
    qed
  qed simp
qed

lemma exec_keys:
  assumes "running (s, ov)" "execute_transaction_overlay env p tx (s, ov) = (r, (s', ov'))"
  shows "keys ov \<subseteq> keys ov'"
  using running_simp [THEN iffD1, OF assms(1), THEN conjunct1] assms(2)
  by (cases rule: overlay_exec_cases) auto

lemma run_keys:
  "running so \<Longrightarrow> overlay_run env p txs so = (Inr rs, so') \<Longrightarrow> keys (snd so) \<subseteq> keys (snd so')"
proof (induction txs arbitrary: so rs)
  case (Cons tx txs)
  obtain r so1 rs1 where run: "execute_transaction_overlay env p tx so = (r, so1)"
    "overlay_run env p txs so1 = (Inr rs1, so')" using Cons.prems(2) by (rule overlay_run_Cons)
  have "running so1" "keys (snd so) \<subseteq> keys (snd so1)"
    using running_step [of "fst so" "snd so" env p tx r "fst so1" "snd so1"]
      exec_keys [of "fst so" "snd so" env p tx r "fst so1" "snd so1"] Cons.prems(1) run(1) by auto
  with Cons.IH [OF this(1) run(2)] show ?case by blast
qed simp

lemma run_conserves:
  assumes "running so" "overlay_run env p txs so = (Inr rs, so')" "\<forall>tx\<in>set txs. \<not> self_stake tx"
    "finite K" "keys (snd so') \<subseteq> K" "wealth (oview (st_stored (fst so)) (snd so)) K < 2 ^ 128"
  shows "wealth (oview (st_stored (fst so)) (snd so')) K = wealth (oview (st_stored (fst so)) (snd so)) K"
  using assms
proof (induction txs arbitrary: so rs)
  case (Cons tx txs)
  obtain r so1 rs1 where run: "execute_transaction_overlay env p tx so = (r, so1)"
    "overlay_run env p txs so1 = (Inr rs1, so')" using Cons.prems(2) by (rule overlay_run_Cons)
  have so1: "running so1" "st_stored (fst so1) = st_stored (fst so)"
    using running_step [of "fst so" "snd so" env p tx r "fst so1" "snd so1"] Cons.prems(1) run(1)
    by (auto simp: cache_step_def)
  have "keys (snd so1) \<subseteq> K" using run_keys [OF so1(1) run(2)] Cons.prems(5) by blast
  then have "wealth (oview (st_stored (fst so)) (snd so1)) K = wealth (oview (st_stored (fst so)) (snd so)) K"
    using exec_conserves [of "fst so" "snd so" env p tx r "fst so1" "snd so1" K] Cons.prems run(1) by auto
  with Cons.IH [OF so1(1) run(2)] Cons.prems so1(2) show ?case by simp
qed simp

section \<open>Merging groups\<close>

text \<open>A transaction takes nothing from an account that did not send it.\<close>

definition grows :: "account \<Rightarrow> account \<Rightarrow> bool" where
  "grows x y \<longleftrightarrow> acc_balance x \<le> acc_balance y \<and> acc_stake x \<le> acc_stake y"

lemma grows_simps [simp]: "grows x x" "grows x (y\<lparr>acc_code_hash := h\<rparr>) = grows x y"
  by (simp_all add: grows_def)

lemma grows_trans: "grows x y \<Longrightarrow> grows y z \<Longrightarrow> grows x z"
  by (auto simp: grows_def)

lemma grows_credits [simp]: "grows x (snd (add_balance a x))" "grows x (add_stake_direct a x)"
  by (auto simp: grows_def add_balance_def add_stake_direct_def rust_simps word_le_nat_alt unat_add_no_overflow
      split: option.splits)

lemma overlay_move_grows:
  "overlay_move a x y = Inr (x', y') \<Longrightarrow> acc_address x \<noteq> acc_address y \<Longrightarrow> grows y y'"
  by (auto simp: overlay_move_def guarded_def split: sum.splits if_splits)

lemma overlay_effect_grows:
  assumes "overlay_effect env p ov t x y s = (Inr (x', y', logs), s')" "tx_type t \<noteq> TxContractDeploy"
    and "acc_address x \<noteq> acc_address y"
  shows "grows y y'"
  using assms
  by (auto simp: overlay_effect_def overlay_call_def Let_def dest: overlay_move_grows
      split: transaction_type.splits or_return_splits prod.splits option.splits if_splits)

lemma exec_grows:
  assumes run: "running (s, ov)" "execute_transaction_overlay env p tx (s, ov) = (r, (s', ov'))"
    and a: "a \<noteq> tx_from (stx_transaction tx)"
  shows "grows (oview (st_stored s) ov a) (oview (st_stored s) ov' a)"
proof -
  let ?v = "oview (st_stored s) ov" and ?t = "stx_transaction tx"
  have co: "coherent s" and f: "filed (st_stored s)" "filed ov" using run(1) by (simp_all add: running_simp)
  from co run(2) show ?thesis
  proof (cases rule: overlay_exec_cases)
    case (done_tx x' y' logs s1 s2)
    have s1: "st_stored s1 = st_stored s" "coherent s1"
      using done_tx(3) co coherent_step by (auto simp: cache_step_def)
    have ids: "acc_address x' = tx_from ?t" "same_id (?v (tx_to ?t)) y' \<or> (\<exists>c h. y' = (?v c)\<lparr>acc_code_hash := h\<rparr>)"
      using overlay_effect_ids [OF s1(2) done_tx(4)] f by (auto simp: same_id_def s1)
    have "grows (?v (acc_address y')) y'" if "acc_address y' \<noteq> tx_from ?t"
    proof (cases "tx_type ?t = TxContractDeploy")
      case True
      then have "overlay_deploy env p ov ?t (?v (tx_from ?t)) s1 = (Inr (x', y', logs), s2)"
        using done_tx(4) by (simp add: overlay_effect_def)
      from overlay_deploy_result [OF s1(2) this] show ?thesis using f by (auto simp: s1)
    next
      case False
      from done_tx(4) this have "same_id (?v (tx_to ?t)) y'"
        by (auto simp: overlay_effect_def Let_def conserved_def add_stake_direct_worth
          dest!: overlay_move_conserved overlay_call_conserved
          split: transaction_type.splits or_return_splits prod.splits)
      then show ?thesis using overlay_effect_grows [OF done_tx(4) False] that f by (simp add: same_id_def)
    qed
    then show ?thesis using a ids(1) by (auto simp: done_tx(7))
  qed simp
qed

lemma run_grows:
  assumes "running so" "overlay_run env p txs so = (Inr rs, so')" "\<forall>tx\<in>set txs. tx_from (stx_transaction tx) \<noteq> a"
  shows "grows (oview (st_stored (fst so)) (snd so) a) (oview (st_stored (fst so)) (snd so') a)"
  using assms
proof (induction txs arbitrary: so rs)
  case (Cons tx txs)
  obtain r so1 rs1 where run: "execute_transaction_overlay env p tx so = (r, so1)"
    "overlay_run env p txs so1 = (Inr rs1, so')" using Cons.prems(2) by (rule overlay_run_Cons)
  have so1: "running so1" "st_stored (fst so1) = st_stored (fst so)"
    using running_step [of "fst so" "snd so" env p tx r "fst so1" "snd so1"] Cons.prems(1) run(1)
    by (auto simp: cache_step_def)
  have "grows (oview (st_stored (fst so)) (snd so) a) (oview (st_stored (fst so)) (snd so1) a)"
    using exec_grows [of "fst so" "snd so" env p tx r "fst so1" "snd so1" a] Cons.prems run(1) by auto
  with Cons.IH [OF so1(1) run(2)] Cons.prems(3) so1(2) show ?case by (auto intro: grows_trans)
qed simp

text \<open>Merging adds, to what is there, what a group changed.\<close>

definition adds_up :: "(account \<Rightarrow> u128) \<Rightarrow> bool" where
  "adds_up f \<longleftrightarrow> f = acc_balance \<or> f = acc_stake"

lemma adds_up_fields [simp]: "adds_up acc_balance" "adds_up acc_stake"
  by (simp_all add: adds_up_def)

lemma merge_account_adds:
  assumes run: "running (s, acc)" and rd: "\<And>a. \<not> se_read_fails env a" and x: "acc_address x = a"
  shows "\<exists>s' m. merge_account env (a, x) (s, acc) = (s', btree_insert a m acc) \<and> cache_step s s' \<and> acc_address m = a \<and>
    (\<forall>f. adds_up f \<longrightarrow> f m = f (oview (st_stored s) acc a) + (f x - f (oview (st_stored s) [] a)))"
proof (cases "map_of acc a")
  case None
  then show ?thesis using x by (auto simp: merge_account_def oview_def)
next
  case (Some e)
  obtain r s' where g: "get_account env a s = (r, s')" by fastforce
  then obtain b where b: "r = Inr b" using rd by (auto simp: get_account_def split: option.splits)
  have "b = oview (st_stored s) [] a" using get_account_view [OF _ g [unfolded b]] run by (simp add: running_simp)
  with Some g b get_account_stepD [OF g] show ?thesis
    by (intro exI [of _ s'] exI [of _ "merge_accounts a b e x"])
      (auto simp: merge_account_def Let_def oview_def [of _ acc] merge_accounts_def adds_up_def)
qed

text \<open>What a list of accounts changes in a field.\<close>

definition gain :: "(address, account) btree \<Rightarrow> (address, account) btree \<Rightarrow> (account \<Rightarrow> u128) \<Rightarrow> address \<Rightarrow> u128" where
  "gain stored es f a = (case map_of es a of None \<Rightarrow> 0 | Some x \<Rightarrow> f x - f (oview stored [] a))"

lemma gain_Nil [simp]: "gain stored [] f a = 0"
  by (simp add: gain_def)

lemma gain_Cons [simp]:
  "gain stored ((b, x) # es) f a = (if a = b then f x - f (oview stored [] a) else gain stored es f a)"
  by (simp add: gain_def)

lemma gain_absent: "a \<notin> keys es \<Longrightarrow> gain stored es f a = 0"
  by (simp add: gain_def keys_map_of domIff)

lemma gain_view: "gain stored es f a = f (oview stored es a) - f (oview stored [] a)"
  by (simp add: gain_def oview_def split: option.splits)

lemma merge_fold_adds:
  assumes rd: "\<And>a. \<not> se_read_fails env a"
  shows "running (s, acc) \<Longrightarrow> st_stored s = stored \<Longrightarrow> distinct (map fst es) \<Longrightarrow> \<forall>(a, x)\<in>set es. acc_address x = a \<Longrightarrow>
    \<exists>s' acc'. fold (merge_account env) es (s, acc) = (s', acc') \<and> running (s', acc') \<and> cache_step s s' \<and>
      keys acc' = keys acc \<union> keys es \<and>
      (\<forall>f a. adds_up f \<longrightarrow> f (oview stored acc' a) = f (oview stored acc a) + gain stored es f a)"
proof (induction es arbitrary: s acc)
  case Nil
  then show ?case by simp
next
  case (Cons e es)
  obtain a x where e: "e = (a, x)" "acc_address x = a" using Cons.prems(4) by (cases e) auto
  obtain s1 m where m: "merge_account env (a, x) (s, acc) = (s1, btree_insert a m acc)" "cache_step s s1"
    "acc_address m = a"
    "\<forall>f. adds_up f \<longrightarrow> f m = f (oview stored acc a) + (f x - f (oview stored [] a))"
    using merge_account_adds [OF Cons.prems(1) rd e(2)] Cons.prems(2) by auto
  have st: "st_stored s1 = stored" using m(2) Cons.prems(2) by (simp add: cache_step_def)
  have "running (s1, btree_insert a m acc)"
    using Cons.prems(1,2) m(2,3) coherent_step [OF _ m(2)] by (auto simp: running_simp st)
  from Cons.IH [OF this st] Cons.prems(3,4) obtain s' acc' where IH:
    "fold (merge_account env) es (s1, btree_insert a m acc) = (s', acc')" "running (s', acc')" "cache_step s1 s'"
    "keys acc' = insert a (keys acc) \<union> keys es"
    "\<forall>f b. adds_up f \<longrightarrow> f (oview stored acc' b) = f (oview stored (btree_insert a m acc) b) + gain stored es f b"
    by auto
  have "a \<notin> keys es" using Cons.prems(3) e by (simp add: keys_def)
  then have "f (oview stored acc' b) = f (oview stored acc b) + gain stored (e # es) f b" if "adds_up f" for f b
    using IH(5) [rule_format, OF that, of b] m(4) [rule_format, OF that] by (simp add: e gain_absent)
  moreover have "keys acc' = keys acc \<union> keys (e # es)" using IH(4) by (auto simp: keys_def e)
  moreover have "fold (merge_account env) (e # es) (s, acc) = (s', acc')" using IH(1) m(1) by (simp add: e)
  ultimately show ?case using IH(2) cache_step_trans [OF m(2) IH(3)] by blast
qed

lemma filed_distinct: "filed t \<Longrightarrow> distinct (map fst t)"
  by (simp add: filed_def btree_ok_def strict_sorted_iff)

lemma merge_all_adds:
  assumes rd: "\<And>a. \<not> se_read_fails env a"
  shows "running (s, acc) \<Longrightarrow> st_stored s = stored \<Longrightarrow> \<forall>ov\<in>set ovs. filed ov \<Longrightarrow>
    \<exists>s' acc'. fold (merge_account env) (concat ovs) (s, acc) = (s', acc') \<and> running (s', acc') \<and> cache_step s s' \<and>
      keys acc' = keys acc \<union> (\<Union>ov\<in>set ovs. keys ov) \<and>
      (\<forall>f a. adds_up f \<longrightarrow> f (oview stored acc' a) = f (oview stored acc a) + (\<Sum>ov\<leftarrow>ovs. gain stored ov f a))"
proof (induction ovs arbitrary: s acc)
  case Nil
  then show ?case by simp
next
  case (Cons ov ovs)
  have "filed ov" using Cons.prems(3) by simp
  then obtain s1 acc1 where 1: "fold (merge_account env) ov (s, acc) = (s1, acc1)" "running (s1, acc1)"
    "cache_step s s1" "keys acc1 = keys acc \<union> keys ov"
    "\<forall>f a. adds_up f \<longrightarrow> f (oview stored acc1 a) = f (oview stored acc a) + gain stored ov f a"
    using merge_fold_adds [OF rd Cons.prems(1,2), of ov] filed_distinct by (auto simp: filed_def)
  have "st_stored s1 = stored" using 1(3) Cons.prems(2) by (simp add: cache_step_def)
  from Cons.IH [OF 1(2) this] Cons.prems(3) obtain s' acc' where IH:
    "fold (merge_account env) (concat ovs) (s1, acc1) = (s', acc')" "running (s', acc')" "cache_step s1 s'"
    "keys acc' = keys acc1 \<union> (\<Union>ov\<in>set ovs. keys ov)"
    "\<forall>f a. adds_up f \<longrightarrow> f (oview stored acc' a) = f (oview stored acc1 a) + (\<Sum>ov\<leftarrow>ovs. gain stored ov f a)"
    by auto
  have "f (oview stored acc' a) = f (oview stored acc a) + (\<Sum>ov\<leftarrow>ov # ovs. gain stored ov f a)" if "adds_up f" for f a
    using IH(5) [rule_format, OF that, of a] 1(5) [rule_format, OF that, of a] by (simp add: add.assoc)
  moreover have "keys acc' = keys acc \<union> (\<Union>ov\<in>set (ov # ovs). keys ov)" using IH(4) 1(4) by auto
  moreover have "fold (merge_account env) (concat (ov # ovs)) (s, acc) = (s', acc')" using IH(1) 1(1) by simp
  ultimately show ?case using IH(2) cache_step_trans [OF 1(3) IH(3)] by blast
qed

text \<open>The same change as an integer, and the value it leads to.\<close>

definition change :: "(address, account) btree \<Rightarrow> (account \<Rightarrow> u128) \<Rightarrow> address \<Rightarrow> (address, account) btree \<Rightarrow> int" where
  "change stored f a ov = int (unat (f (oview stored ov a))) - int (unat (f (oview stored [] a)))"

definition summed :: "(address, account) btree \<Rightarrow> (address, account) btree list \<Rightarrow> (account \<Rightarrow> u128) \<Rightarrow> address \<Rightarrow> int" where
  "summed stored ovs f a = int (unat (f (oview stored [] a))) + (\<Sum>ov\<leftarrow>ovs. change stored f a ov)"

lemma gain_change: "gain stored ov f a = word_of_int (change stored f a ov)"
  by (simp add: gain_view change_def)

lemma summed_word: "f (oview stored [] a) + (\<Sum>ov\<leftarrow>ovs. gain stored ov f a) = word_of_int (summed stored ovs f a)"
proof -
  have "(\<Sum>ov\<leftarrow>ovs. gain stored ov f a) = word_of_int (\<Sum>ov\<leftarrow>ovs. change stored f a ov)"
    by (induction ovs) (simp_all add: gain_change)
  then show ?thesis by (simp add: summed_def)
qed

lemma summed_nonneg:
  assumes "list_all2 (\<lambda>b ov. \<forall>a. a \<noteq> b \<longrightarrow> grows (oview stored [] a) (oview stored ov a)) bs ovs" "distinct bs" "adds_up f"
  shows "(a \<notin> set bs \<longrightarrow> 0 \<le> (\<Sum>ov\<leftarrow>ovs. change stored f a ov)) \<and> 0 \<le> summed stored ovs f a"
  using assms(1,2)
proof (induction rule: list_all2_induct)
  case Nil
  then show ?case by (simp add: summed_def)
next
  case (Cons b bs ov ovs)
  have up: "a \<noteq> b \<Longrightarrow> 0 \<le> change stored f a ov"
    using Cons.hyps(1) assms(3) by (auto simp: change_def grows_def adds_up_def word_le_def)
  have "0 \<le> int (unat (f (oview stored [] a))) + change stored f a ov" by (simp add: change_def)
  then show ?case using up Cons by (cases "a = b") (auto simp: summed_def)
qed

lemma worth_int: "int (worth (oview stored ov a)) - int (worth (oview stored [] a)) =
    change stored acc_balance a ov + change stored acc_stake a ov"
  by (simp add: change_def worth_def)

lemma summed_total:
  assumes "\<forall>ov\<in>set ovs. wealth (oview stored ov) K = wealth (oview stored []) K"
  shows "(\<Sum>a\<in>K. summed stored ovs acc_balance a + summed stored ovs acc_stake a) = int (wealth (oview stored []) K)"
proof -
  have "(\<Sum>a\<in>K. \<Sum>ov\<leftarrow>ovs. change stored acc_balance a ov + change stored acc_stake a ov) = 0"
    using assms
  proof (induction ovs)
    case (Cons ov ovs)
    have "(\<Sum>a\<in>K. change stored acc_balance a ov + change stored acc_stake a ov) =
        int (wealth (oview stored ov) K) - int (wealth (oview stored []) K)"
      by (simp add: wealth_def sum_subtractf worth_int [symmetric])
    with Cons show ?case by (simp add: sum.distrib)
  qed simp
  then show ?thesis
    by (simp add: summed_def wealth_def worth_def sum.distrib sum_list_addf)
qed

lemma merged_wealth:
  assumes fin: "\<forall>f a. adds_up f \<longrightarrow> f (v a) = f (oview stored [] a) + (\<Sum>ov\<leftarrow>ovs. gain stored ov f a)"
    and up: "list_all2 (\<lambda>b ov. \<forall>a. a \<noteq> b \<longrightarrow> grows (oview stored [] a) (oview stored ov a)) bs ovs" "distinct bs"
    and K: "finite K" "\<forall>ov\<in>set ovs. wealth (oview stored ov) K = wealth (oview stored []) K"
    and small: "wealth (oview stored []) K < 2 ^ 128"
  shows "wealth v K = wealth (oview stored []) K"
proof -
  let ?F = "summed stored ovs"
  note pos = summed_nonneg [OF up, THEN conjunct2]
  have le: "?F acc_balance a + ?F acc_stake a < 2 ^ 128" if "a \<in> K" for a
    using member_le_sum [of a K "\<lambda>a. ?F acc_balance a + ?F acc_stake a"] that K(1) small pos
    by (simp add: summed_total [OF K(2)])
  have "int (unat (f (v a))) = ?F f a" if "a \<in> K" "adds_up f" for f a
  proof -
    have "?F f a < 2 ^ 128" using le [OF that(1)] pos [of acc_balance a] pos [of acc_stake a] that(2)
      by (auto simp: adds_up_def)
    moreover have "f (v a) = word_of_int (?F f a)" using fin that(2) summed_word by metis
    ultimately show ?thesis using pos [OF that(2), of a] by (simp add: uint_word_of_int)
  qed
  then have "int (worth (v a)) = ?F acc_balance a + ?F acc_stake a" if "a \<in> K" for a
    using that by (simp add: worth_def)
  then have "int (wealth v K) = (\<Sum>a\<in>K. ?F acc_balance a + ?F acc_stake a)"
    by (simp add: wealth_def)
  then show ?thesis by (simp add: summed_total [OF K(2)])
qed

section \<open>Whole blocks\<close>

lemma merge_account_runs:
  assumes "running so" "acc_address x = a"
  shows "running (merge_account env (a, x) so) \<and> cache_step (fst so) (fst (merge_account env (a, x) so))"
proof (cases so)
  case (Pair s acc)
  obtain r s' where g: "get_account env a s = (r, s')" by fastforce
  note st = get_account_stepD [OF g]
  have "st_stored s' = st_stored s" using st by (simp add: cache_step_def)
  then show ?thesis
    using assms Pair g st coherent_step [OF _ st]
    by (auto simp: merge_account_def Let_def running_simp merge_accounts_def intro!: filed_insert split: option.splits)
qed

lemma merge_fold_runs:
  "running so \<Longrightarrow> \<forall>(a, x)\<in>set es. acc_address x = a \<Longrightarrow>
    running (fold (merge_account env) es so) \<and> cache_step (fst so) (fst (fold (merge_account env) es so))"
proof (induction es arbitrary: so)
  case (Cons e es)
  obtain a x where e: "e = (a, x)" "acc_address x = a" using Cons.prems(2) by (cases e) auto
  note step = merge_account_runs [OF Cons.prems(1) e(2), of env]
  with Cons.IH [of "merge_account env (a, x) so"] Cons.prems(2) show ?case
    by (auto simp: e(1) intro: cache_step_trans)
qed simp

lemma group_overlays:
  assumes "coherent s" "filed (st_stored s)" "run_groups env p txs groups s = (Inr results, s')"
  shows "cache_step s s' \<and> list_all2 (\<lambda>g ov. \<exists>rs s1 s2. running (s1, []) \<and> st_stored s1 = st_stored s \<and>
    overlay_run env p (map (\<lambda>i. txs ! i) g) (s1, []) = (Inr rs, (s2, ov)) \<and> filed ov) groups (map snd results)"
proof -
  note runs = run_groups_runs [OF assms]
  have "list_all2 (\<lambda>g res. \<exists>rs s1 s2. running (s1, []) \<and> st_stored s1 = st_stored s \<and>
    overlay_run env p (map (\<lambda>i. txs ! i) g) (s1, []) = (Inr rs, (s2, snd res)) \<and> filed (snd res)) groups results"
  proof (rule list_all2_mono [OF runs [THEN conjunct2]])
    fix g :: "nat list" and res :: "(nat \<times> receipt) list \<times> (address, account) btree"
    assume "\<exists>rs s1 s2. running (s1, []) \<and> st_stored s1 = st_stored s \<and>
      overlay_run env p (map (\<lambda>i. txs ! i) g) (s1, []) = (Inr rs, (s2, snd res)) \<and> fst res = zip g rs"
    then obtain rs s1 s2 where run: "running (s1, [])" "st_stored s1 = st_stored s"
      "overlay_run env p (map (\<lambda>i. txs ! i) g) (s1, []) = (Inr rs, (s2, snd res))" by blast
    then have "filed (snd res)" using overlay_run_steps [OF run(1,3)] by (simp add: running_simp)
    with run show "\<exists>rs s1 s2. running (s1, []) \<and> st_stored s1 = st_stored s \<and>
      overlay_run env p (map (\<lambda>i. txs ! i) g) (s1, []) = (Inr rs, (s2, snd res)) \<and> filed (snd res)" by blast
  qed
  with runs show ?thesis by (simp add: list_all2_map2)
qed

lemma group_overlays_filed:
  assumes "coherent s" "filed (st_stored s)" "run_groups env p txs groups s = (Inr results, s')"
  shows "\<forall>ov\<in>set (map snd results). filed ov"
proof
  fix ov assume "ov \<in> set (map snd results)"
  then obtain i where "i < length results" "ov = map snd results ! i" by (auto simp: in_set_conv_nth)
  then show "filed ov" using group_overlays [OF assms] unfolding list_all2_conv_all_nth by auto
qed

text \<open>Both ways of executing a block end with an overlay of filed accounts.\<close>

lemma block_overlay:
  assumes "coherent s" "filed (st_stored s)" "execute_transactions_overlay env iter txs p s = (Inr x, s')"
  obtains s1 ov rs where "running (s1, ov)" "cache_step s s1" "finish_execution env rs (s1, ov) = (Inr x, s')"
    "length txs \<le> 8 \<Longrightarrow> overlay_run env p txs (s, []) = (Inr rs, (s1, ov))"
    "length txs > 8 \<Longrightarrow> \<exists>results s2. run_groups env p txs (group_indices iter txs) s = (Inr results, s2) \<and>
       rs = map snd (sort_key fst (concat (map fst results))) \<and>
       fold (merge_account env) (concat (map snd results)) (s2, []) = (s1, ov)"
proof (cases "length txs \<le> 8")
  case True
  then obtain rs s1 ov where run: "overlay_run env p txs (s, []) = (Inr rs, (s1, ov))"
    "finish_execution env rs (s1, ov) = (Inr x, s')"
    using assms(3) by (auto simp: execute_transactions_overlay_def execute_transactions_overlay_sequential_def
        Let_def split: prod.splits or_return_splits)
  have "running (s, [])" using assms by (simp add: running_simp)
  from overlay_run_steps [OF this run(1)] show ?thesis using that run True by auto
next
  case False
  then obtain results s2 where run: "run_groups env p txs (group_indices iter txs) s = (Inr results, s2)"
    "finish_execution env (map snd (sort_key fst (concat (map fst results))))
       (fold (merge_account env) (concat (map snd results)) (s2, [])) = (Inr x, s')"
    using assms(3) by (auto simp: execute_transactions_overlay_def Let_def split: prod.splits or_return_splits)
  have st: "cache_step s s2" using group_overlays [OF assms(1,2) run(1)] by blast
  have r2: "running (s2, [])"
    using coherent_step [OF assms(1) st] assms(2) st by (simp add: running_simp cache_step_def)
  have "\<forall>(a, x)\<in>set (concat (map snd results)). acc_address x = a"
    using group_overlays_filed [OF assms(1,2) run(1)] by (fastforce simp: filed_def)
  note fin = merge_fold_runs [OF r2 this, of env]
  obtain s1 ov where so: "fold (merge_account env) (concat (map snd results)) (s2, []) = (s1, ov)" by fastforce
  with fin cache_step_trans [OF st] have "running (s1, ov)" "cache_step s s1" by auto
  then show ?thesis using that [OF _ _ run(2) [unfolded so]] so run(1) False by blast
qed

lemma finish_receipts: "finish_execution env rs so = (Inr x, s') \<Longrightarrow> sx_receipts x = rs \<and> sx_accounts x = map snd (snd so)"
  by (auto simp: finish_execution_def Let_def split: prod.splits or_return_splits)

section \<open>A block of two transfers\<close>

lemmas sample_defs = sample_env_def sample_tx_def sample_state_def state_manager_new_def account_new_def

lemma MAX_TRANSACTION_AMOUNT_value: "MAX_TRANSACTION_AMOUNT = 18446744073709551615"
  by (simp add: MAX_TRANSACTION_AMOUNT_def max_value_def unsigned_minus_1_eq_mask mask_eq_exp_minus_1)

lemmas exec_defs = validate_transaction_against_overlay_def check_signed_amount_def public_key_to_address_def
  overlay_account_def get_account_def check_nonce_def overlay_effect_def overlay_move_def guarded_def
  bump_nonce_def increment_nonce_def MIN_TRANSACTION_AMOUNT_def MAX_TRANSACTION_AMOUNT_value
  sub_balance_def add_balance_def Let_def checked_add_def checked_sub_def rust_eval addr_def

lemma sample_run:
  "\<exists>s ov rs. overlay_run sample_env p [sample_tx TxTransfer (addr 2) 5 0, sample_tx TxTransfer (addr 2) 6 1] (sample_state, []) =
     (Inr rs, (s, ov)) \<and> rc_success (rs ! 0) \<and> rc_success (rs ! 1) \<and> st_index s = None"
  by (simp add: execute_transaction_overlay_def sample_defs exec_defs)

lemma sample_sorted [simp]: "iterates (sorted_list_of_set :: address set \<Rightarrow> address list)"
  by (simp add: iterates_def)

lemma sample_filed [simp]: "coherent sample_state" "filed (st_stored sample_state)"
  by (simp_all add: coherent_def filed_def btree_ok_def sample_defs)

lemma finish_succeeds:
  "st_index s = None \<Longrightarrow> se_iter_error env = None \<Longrightarrow>
    \<exists>x s'. finish_execution env rs (s, ov) = (Inr x, s') \<and> sx_receipts x = rs"
  by (simp add: finish_execution_def compute_state_root_with_overlay_def load_account_hash_index_def Let_def)

lemma sample_block:
  "\<exists>x s'. execute_transactions_overlay sample_env sorted_list_of_set
     [sample_tx TxTransfer (addr 2) 5 0, sample_tx TxTransfer (addr 2) 6 1] p sample_state = (Inr x, s') \<and>
     rc_success (sx_receipts x ! 0) \<and> rc_success (sx_receipts x ! 1)"
proof -
  obtain s ov rs where run: "overlay_run sample_env p
      [sample_tx TxTransfer (addr 2) 5 0, sample_tx TxTransfer (addr 2) 6 1] (sample_state, []) = (Inr rs, (s, ov))"
    "rc_success (rs ! 0)" "rc_success (rs ! 1)" "st_index s = None" using sample_run by metis
  moreover have "se_iter_error sample_env = None" by (simp add: sample_env_def)
  ultimately obtain x s' where "finish_execution sample_env rs (s, ov) = (Inr x, s')" "sx_receipts x = rs"
    using finish_succeeds by metis
  with run show ?thesis
    by (simp add: execute_transactions_overlay_def execute_transactions_overlay_sequential_def del: overlay_run.simps)
qed

text \<open>In a block, of any size, the successful transactions of one sender have strictly increasing nonces in
  the order of the block, so that no transaction of a block succeeds twice.  The parameter \<open>iter\<close> is the
  iteration order of the hash map of groups.\<close>

theorem block_nonces_increase:
  assumes iter: "iterates iter" and s: "coherent s" "filed (st_stored s)"
    and run: "execute_transactions_overlay env iter txs p s = (Inr x, s')"
    and ij: "i < j" "j < length txs" "rc_success (sx_receipts x ! i)" "rc_success (sx_receipts x ! j)"
      "tx_from (stx_transaction (txs ! i)) = tx_from (stx_transaction (txs ! j))"
  shows "unat (tx_nonce (stx_transaction (txs ! i))) < unat (tx_nonce (stx_transaction (txs ! j)))"
proof -
  obtain s1 ov rs where b: "running (s1, ov)" "finish_execution env rs (s1, ov) = (Inr x, s')"
    "length txs \<le> 8 \<Longrightarrow> overlay_run env p txs (s, []) = (Inr rs, (s1, ov))"
    "length txs > 8 \<Longrightarrow> \<exists>results s2. run_groups env p txs (group_indices iter txs) s = (Inr results, s2) \<and>
       rs = map snd (sort_key fst (concat (map fst results)))"
    using block_overlay [OF s run] by metis
  note rs = finish_receipts [OF b(2)]
  show ?thesis
  proof (cases "length txs \<le> 8")
    case True
    have "running (s, [])" using s by (simp add: running_simp)
    from overlay_run_nonces_increase [OF this b(3) [OF True] ij(1,2)] ij(3-5) rs show ?thesis by simp
  next
    case False
    then obtain results s2 where res: "run_groups env p txs (group_indices iter txs) s = (Inr results, s2)"
      "rs = map snd (sort_key fst (concat (map fst results)))" using b(4) by auto
    define g where "g = filter (\<lambda>k. tx_from (stx_transaction (txs ! k)) = tx_from (stx_transaction (txs ! j))) [0..<length txs]"
    obtain rs' s3 s4 ov' where g: "running (s3, [])" "overlay_run env p (map (\<lambda>i. txs ! i) g) (s3, []) = (Inr rs', (s4, ov'))"
      "\<forall>k < length g. rs ! (g ! k) = rs' ! k"
      using block_receipts [OF iter s res(1) ij(2)] unfolding g_def res(2) by blast
    have "sorted g" by (simp add: g_def sorted_wrt_filter)
    moreover have "i \<in> set g" "j \<in> set g" using ij by (auto simp: g_def)
    ultimately obtain k l where kl: "k < length g" "l < length g" "g ! k = i" "g ! l = j" "k < l"
      by (metis in_set_conv_nth ij(1) linorder_not_less sorted_iff_nth_mono)
    from overlay_run_nonces_increase [OF g(1,2) kl(5)] kl g(3) ij(3-5) rs show ?thesis by fastforce
  qed
qed

theorem block_nonces_increase_witness:
  "\<exists>x s'. execute_transactions_overlay sample_env sorted_list_of_set
     [sample_tx TxTransfer (addr 2) 5 0, sample_tx TxTransfer (addr 2) 6 1] True sample_state = (Inr x, s') \<and>
     rc_success (sx_receipts x ! 0) \<and> rc_success (sx_receipts x ! 1) \<and>
     unat (tx_nonce (stx_transaction (sample_tx TxTransfer (addr 2) 5 0))) <
     unat (tx_nonce (stx_transaction (sample_tx TxTransfer (addr 2) 6 1)))"
proof -
  let ?txs = "[sample_tx TxTransfer (addr 2) 5 0, sample_tx TxTransfer (addr 2) 6 1]"
  obtain x s' where x: "execute_transactions_overlay sample_env sorted_list_of_set ?txs True sample_state = (Inr x, s')"
    "rc_success (sx_receipts x ! 0)" "rc_success (sx_receipts x ! 1)" using sample_block by metis
  have "tx_from (stx_transaction (?txs ! 0)) = tx_from (stx_transaction (?txs ! 1))" by (simp add: sample_tx_def)
  from block_nonces_increase [OF sample_sorted sample_filed x(1) _ _ x(2,3) this] x show ?thesis by auto
qed

section \<open>Conservation by a block\<close>

definition total_worth :: "(address, account) btree \<Rightarrow> nat" where
  "total_worth t = (\<Sum>(_, x)\<leftarrow>t. worth x)"

lemma wealth_superset:
  assumes "finite K" "keys stored \<subseteq> K"
  shows "wealth (oview stored []) K = wealth (oview stored []) (keys stored)"
proof -
  have "worth (oview stored [] a) = 0" if "a \<notin> keys stored" for a
    using that by (simp add: oview_def keys_map_of domIff)
  then show ?thesis unfolding wealth_def using assms by (intro sum.mono_neutral_right) auto
qed

lemma total_worth_wealth: "filed t \<Longrightarrow> total_worth t = wealth (oview t []) (keys t)"
proof -
  assume f: "filed t"
  then have inj: "inj_on fst (set t)" "distinct t" using filed_distinct [OF f] by (simp_all add: distinct_map)
  have "wealth (oview t []) (keys t) = (\<Sum>e\<in>set t. worth (oview t [] (fst e)))"
    unfolding wealth_def keys_def by (rule sum.reindex [OF inj(1), unfolded comp_def])
  also have "\<dots> = (\<Sum>e\<in>set t. worth (snd e))"
    using filed_distinct [OF f] by (intro sum.cong) (auto simp: oview_def)
  also have "\<dots> = total_worth t"
    using inj(2) by (simp add: total_worth_def sum_list_distinct_conv_sum_set case_prod_unfold)
  finally show ?thesis by simp
qed

abbreviation store_all :: "account list \<Rightarrow> (address, account) btree \<Rightarrow> (address, account) btree" where
  "store_all xs t \<equiv> fold (\<lambda>x. btree_insert (acc_address x) x) xs t"

lemma store_all_lookup:
  "distinct (map fst ov) \<Longrightarrow> \<forall>(a, x)\<in>set ov. acc_address x = a \<Longrightarrow>
    map_of (store_all (map snd ov) t) a = (case map_of ov a of Some x \<Rightarrow> Some x | None \<Rightarrow> map_of t a)"
proof (induction ov arbitrary: t)
  case (Cons e ov)
  obtain b x where e: "e = (b, x)" "acc_address x = b" using Cons.prems(2) by (cases e) auto
  have "map_of ov b = None" using Cons.prems(1) e by (simp add: map_of_eq_None_iff)
  with Cons e show ?case by (cases "a = b") (simp_all cong: option.case_cong)
qed simp

lemma filed_store_all [intro]: "filed t \<Longrightarrow> filed (store_all xs t)"
  by (induction xs arbitrary: t) auto

lemma store_all_view:
  assumes "filed ov"
  shows "oview (store_all (map snd ov) stored) [] = oview stored ov"
    and "keys (store_all (map snd ov) stored) = keys stored \<union> keys ov"
  using store_all_lookup [OF filed_distinct [OF assms], where t = stored] assms
  by (auto simp: oview_def fun_eq_iff filed_def keys_map_of dom_def split: option.splits)

lemma store_all_worth:
  assumes "filed stored" "filed ov"
  shows "total_worth (store_all (map snd ov) stored) = wealth (oview stored ov) (keys stored \<union> keys ov)"
  using assms by (simp add: total_worth_wealth filed_store_all store_all_view)

lemma group_conserves:
  assumes run: "running (s1, [])" "overlay_run env p txs (s1, []) = (Inr rs, (s2, ov))"
    and ns: "\<forall>tx\<in>set txs. \<not> self_stake tx" and K: "finite K" "keys (st_stored s1) \<subseteq> K" "keys ov \<subseteq> K"
    and small: "total_worth (st_stored s1) < 2 ^ 128"
  shows "wealth (oview (st_stored s1) ov) K = wealth (oview (st_stored s1) []) K"
proof -
  have "wealth (oview (st_stored s1) []) K = total_worth (st_stored s1)"
    using wealth_superset [OF K(1,2)] run(1) by (simp add: total_worth_wealth running_simp)
  with run_conserves [OF run ns K(1)] K(3) small show ?thesis by simp
qed

lemma groups_merge_conserves:
  assumes iter: "iterates iter" and s: "coherent s" "filed (st_stored s)" and rd: "\<And>a. \<not> se_read_fails env a"
    and ns: "\<forall>tx\<in>set txs. \<not> self_stake tx" and small: "total_worth (st_stored s) < 2 ^ 128"
    and run: "run_groups env p txs (group_indices iter txs) s = (Inr results, s2)"
    and fin: "fold (merge_account env) (concat (map snd results)) (s2, []) = (s1, ov)"
  defines "K \<equiv> keys (st_stored s) \<union> keys ov"
  shows "wealth (oview (st_stored s) ov) K = wealth (oview (st_stored s) []) K"
proof -
  let ?bs = "iter ((\<lambda>tx. tx_from (stx_transaction tx)) ` set txs)" and ?ovs = "map snd results"
  let ?g = "\<lambda>b. filter (\<lambda>i. tx_from (stx_transaction (txs ! i)) = b) [0..<length txs]"
  note gs = group_overlays [OF s run]
  have "running (s2, [])" "st_stored s2 = st_stored s"
    using gs coherent_step [OF s(1)] s(2) by (auto simp: running_simp cache_step_def)
  from merge_all_adds [OF rd this group_overlays_filed [OF s run]] fin
  have merged: "keys ov = (\<Union>ov\<in>set ?ovs. keys ov)"
    "\<forall>f a. adds_up f \<longrightarrow> f (oview (st_stored s) ov a) =
       f (oview (st_stored s) [] a) + (\<Sum>ov\<leftarrow>?ovs. gain (st_stored s) ov f a)" by auto
  have each: "list_all2 (\<lambda>b ov. \<exists>rs s1 s2. running (s1, []) \<and> st_stored s1 = st_stored s \<and>
      overlay_run env p (map (\<lambda>i. txs ! i) (?g b)) (s1, []) = (Inr rs, (s2, ov)) \<and> filed ov) ?bs ?ovs"
    using gs unfolding group_indices_def list_all2_map1 by blast
  have up: "list_all2 (\<lambda>b ov. \<forall>a. a \<noteq> b \<longrightarrow> grows (oview (st_stored s) [] a) (oview (st_stored s) ov a)) ?bs ?ovs"
  proof (rule list_all2_mono [OF each], elim exE conjE, intro allI impI)
    fix b ov' rs s3 s4 a assume *: "running (s3, [])" "st_stored s3 = st_stored s" "a \<noteq> b"
      "overlay_run env p (map (\<lambda>i. txs ! i) (?g b)) (s3, []) = (Inr rs, (s4, ov'))"
    have "grows (oview (st_stored s3) [] a) (oview (st_stored s3) ov' a)"
      using run_grows [OF *(1,4), of a] *(3) by auto
    then show "grows (oview (st_stored s) [] a) (oview (st_stored s) ov' a)" by (simp add: *(2))
  qed
  have "wealth (oview (st_stored s) ov') K = wealth (oview (st_stored s) []) K" if ov': "ov' \<in> set ?ovs" for ov'
  proof -
    obtain k where k: "k < length ?ovs" "ov' = ?ovs ! k" using ov' by (metis in_set_conv_nth)
    then obtain rs s3 s4 where *: "running (s3, [])" "st_stored s3 = st_stored s"
      "overlay_run env p (map (\<lambda>i. txs ! i) (?g (?bs ! k))) (s3, []) = (Inr rs, (s4, ov'))"
      using list_all2_nthD2 [OF each k(1)] by blast
    have "\<forall>tx\<in>set (map (\<lambda>i. txs ! i) (?g (?bs ! k))). \<not> self_stake tx" using ns by auto
    moreover have "keys ov' \<subseteq> K" using merged(1) ov' by (auto simp: K_def)
    ultimately show ?thesis using group_conserves [OF *(1,3), of K] small by (simp add: *(2) K_def)
  qed
  then show ?thesis
    using merged_wealth [OF merged(2) up, of K] iter small s(2) wealth_superset [of K "st_stored s"]
    by (simp add: iterates_def K_def total_worth_wealth)
qed

lemma commit_stores:
  "commit_execution env x s = (Inr u, s') \<Longrightarrow> st_stored s' = store_all (sx_accounts x) (st_stored s) \<and> st_root s' = sx_state_root x"
proof -
  have "st_stored (fold (cache_account env) xs t) = st_stored t" for xs and t :: "('a, 'b) state_manager"
    by (induction xs arbitrary: t) (simp_all add: cache_account_def)
  then show "commit_execution env x s = (Inr u, s') \<Longrightarrow> ?thesis"
    by (auto simp: commit_execution_def persist_accounts_def Let_def split: option.splits or_return_splits)
qed

lemma finish_keeps_stored: "finish_execution env rs so = (r, s') \<Longrightarrow> st_stored s' = st_stored (fst so)"
  by (auto simp: finish_execution_def compute_state_root_with_overlay_def load_account_hash_index_def Let_def
      split: prod.splits or_return_splits option.splits)

lemma atomically_cases:
  assumes "apply_transactions_atomically env iter txs s = (Inr x, s')"
  obtains s1 where "execute_transactions_overlay env iter txs True s = (Inr x, s1)" "commit_execution env x s1 = (Inr (), s')"
  using assms by (auto simp: apply_transactions_atomically_def prepare_transactions_def Let_def
      split: prod.splits or_return_splits)



end
