(* ===== verification/State_Root.thy ===== *)
theory State_Root
  imports State_Blocks
begin

text \<open>
  The state manager as a whole: every operation keeps accounts well-formed and filed under their own
  address, the cache a part of the database and the hash index equal to the hashes of the stored
  accounts; the root of a committed block is the root of the accounts stored afterwards; and equal roots
  mean equal accounts.
\<close>

section \<open>Well-formed accounts\<close>

definition typed :: "(address, account) btree \<Rightarrow> bool" where
  "typed t \<longleftrightarrow> (\<forall>x\<in>snd ` set t. account_wf x)"

definition hashed :: "(bytes \<Rightarrow> hash) \<Rightarrow> (address, account) btree \<Rightarrow> (address, hash) btree" where
  "hashed h t = map (\<lambda>(a, x). (a, account_hash h x)) t"

text \<open>The invariant of the state manager, for the hash function \<open>h\<close>.\<close>

definition state_ok :: "(bytes \<Rightarrow> hash) \<Rightarrow> ('q, 'e) state_manager \<Rightarrow> bool" where
  "state_ok h s \<longleftrightarrow> coherent s \<and> filed (st_stored s) \<and> typed (st_stored s) \<and> filed (st_pending s) \<and>
    typed (st_pending s) \<and> (\<forall>index. st_index s = Some index \<longrightarrow> index = hashed h (st_stored s))"

text \<open>What the invariant asks of the outside: addresses and hashes of 32 bytes.\<close>

definition env_typed :: "('q, 'e) state_env \<Rightarrow> bool" where
  "env_typed env \<longleftrightarrow> (\<forall>b. length (se_hash env b) = 32) \<and>
    (\<forall>code data from nonce time chain q a x q'.
       se_qvm_deploy env code data from nonce time chain q = (Inr (a, x), q') \<longrightarrow> length a = 32) \<and>
    (\<forall>from nonce amount data cu chain e out e' a.
       se_evm_deploy env from nonce amount data cu chain e = (Inr out, e') \<longrightarrow> ev_created_address out = Some a \<longrightarrow>
       length a = 32)"

definition tx_typed :: "transaction \<Rightarrow> bool" where
  "tx_typed t \<longleftrightarrow> length (tx_from t) = 32 \<and> length (tx_to t) = 32"

lemma env_typedD:
  assumes "env_typed env"
  shows "length (se_hash env b) = 32"
    and "se_qvm_deploy env c d f n ts ch q = (Inr (a, r), q') \<Longrightarrow> length a = 32"
    and "se_evm_deploy env f n am d cu ch e = (Inr out, e') \<Longrightarrow> ev_created_address out = Some a \<Longrightarrow> length a = 32"
  using assms unfolding env_typed_def by - (elim conjE, metis)+

lemma account_wf_updates [simp]:
  "account_wf (x\<lparr>acc_balance := b\<rparr>) = account_wf x" "account_wf (x\<lparr>acc_stake := b\<rparr>) = account_wf x"
  "account_wf (x\<lparr>acc_nonce := n\<rparr>) = account_wf x" "account_wf (x\<lparr>acc_is_validator := v\<rparr>) = account_wf x"
  "account_wf (account_new a) = (length a = 32)"
  by (simp_all add: account_wf_def account_new_def)

lemma account_wf_code [simp]: "length h = 32 \<Longrightarrow> account_wf x \<Longrightarrow> account_wf (x\<lparr>acc_code_hash := Some h\<rparr>)"
  by (simp add: account_wf_def)

lemma account_ops_wf [simp]:
  "account_wf (snd (sub_balance a x)) = account_wf x" "account_wf (snd (add_balance a x)) = account_wf x"
  "account_wf (snd (add_stake a x)) = account_wf x" "account_wf (snd (remove_stake a x)) = account_wf x"
  "account_wf (snd (subtract_stake a x)) = account_wf x" "account_wf (add_stake_direct a x) = account_wf x"
  by (auto simp: sub_balance_def add_balance_def add_stake_def remove_stake_def subtract_stake_def
      add_stake_direct_def Let_def split: option.splits)

lemma guarded_wf: "guarded e r = Inr x \<Longrightarrow> account_wf x = account_wf (snd r)"
  by (auto simp: guarded_def split: if_splits)

lemma typed_simps [simp]: "typed []" "typed ((a, x) # t) \<longleftrightarrow> account_wf x \<and> typed t"
  by (auto simp: typed_def)

lemma typed_insert [intro]: "typed t \<Longrightarrow> account_wf x \<Longrightarrow> typed (btree_insert a x t)"
  by (induction t) auto

lemma typed_lookup: "typed t \<Longrightarrow> map_of t a = Some x \<Longrightarrow> account_wf x"
  by (force simp: typed_def dest: map_of_SomeD)

lemma oview_wf: "typed stored \<Longrightarrow> typed ov \<Longrightarrow> length a = 32 \<Longrightarrow> account_wf (oview stored ov a)"
  by (auto simp: oview_def dest: typed_lookup split: option.splits)

lemma register_validator_wf:
  "register_validator env t x s = (Inr x', s') \<Longrightarrow> account_wf x \<Longrightarrow> account_wf x'"
  by (auto simp: register_validator_def Let_def dest!: guarded_wf
      split: or_return_splits option.splits prod.splits if_splits)

lemma exit_validator_wf: "exit_validator e env t x s = (Inr x', s') \<Longrightarrow> account_wf x \<Longrightarrow> account_wf x'"
  by (auto simp: exit_validator_def Let_def dest!: guarded_wf split: or_return_splits)

section \<open>Effects keep accounts well-formed\<close>

lemma overlay_move_wf:
  "overlay_move a x y = Inr (x', y') \<Longrightarrow> account_wf x \<Longrightarrow> account_wf y \<Longrightarrow> account_wf x' \<and> account_wf y'"
  by (auto simp: overlay_move_def guarded_def split: sum.splits if_splits)

lemma overlay_deploy_wf:
  assumes "env_typed env" "coherent s" "typed (st_stored s)" "typed ov" "account_wf x"
    and "overlay_deploy env p ov t x s = (Inr (x', y', logs), s')"
  shows "account_wf x' \<and> account_wf y'"
proof -
  have get: "account_wf y" if "overlay_account env ov a s1 = (Inr y, s2)" "cache_step s s1" "length a = 32" for a s1 y s2
    using overlay_account_view [OF coherent_step [OF assms(2) that(2)] that(1)] oview_wf [OF assms(3,4) that(3)] that(2)
    by (simp add: cache_step_def)
  show ?thesis using assms(5,6) env_typedD(1) [OF assms(1)]
    by (auto simp: overlay_deploy_def exec_err_def Let_def split: or_return_splits option.splits prod.splits if_splits sum.splits
      dest!: env_typedD(2) [OF assms(1)] intro!: account_wf_code intro: get)
      (metis get overlay_account_stepD cache_step_updates(1) cache_step_refl)+
qed

lemma overlay_effect_wf:
  assumes "env_typed env" "coherent s" "typed (st_stored s)" "typed ov" "account_wf x" "account_wf y"
    and "overlay_effect env p ov t x y s = (Inr (x', y', logs), s')"
  shows "account_wf x' \<and> account_wf y'"
proof (cases "tx_type t = TxContractDeploy")
  case True
  with assms overlay_deploy_wf [OF assms(1-5)] show ?thesis by (simp add: overlay_effect_def)
next
  case False
  with assms(5-7) show ?thesis
    by (auto simp: overlay_effect_def overlay_call_def Let_def guarded_wf
        dest: overlay_move_wf register_validator_wf exit_validator_wf
        split: transaction_type.splits or_return_splits prod.splits option.splits if_splits)
qed

lemma exec_typed:
  assumes "env_typed env" "tx_typed (stx_transaction tx)" "running (s, ov)" "typed (st_stored s)" "typed ov"
    and "execute_transaction_overlay env p tx (s, ov) = (r, (s', ov'))"
  shows "typed ov'"
proof -
  have co: "coherent s" using assms(3) by (simp add: running_simp)
  from co assms(6) show ?thesis
  proof (cases rule: overlay_exec_cases)
    case (done_tx x' y' logs s1 s2)
    have s1: "st_stored s1 = st_stored s" "coherent s1"
      using done_tx(3) co coherent_step by (auto simp: cache_step_def)
    have "account_wf x' \<and> account_wf y'"
      using assms(2,4,5) by (intro overlay_effect_wf [OF assms(1) s1(2) _ assms(5) _ _ done_tx(4)])
        (simp_all add: s1 oview_wf tx_typed_def)
    then show ?thesis using assms(5) by (simp add: done_tx(7) typed_insert)
  qed (use assms in simp)
qed

lemma run_typed:
  assumes "env_typed env"
  shows "running so \<Longrightarrow> typed (st_stored (fst so)) \<Longrightarrow> typed (snd so) \<Longrightarrow> \<forall>tx\<in>set txs. tx_typed (stx_transaction tx) \<Longrightarrow>
    overlay_run env p txs so = (Inr rs, so') \<Longrightarrow> typed (snd so')"
proof (induction txs arbitrary: so rs)
  case (Cons tx txs)
  obtain r so1 rs1 where run: "execute_transaction_overlay env p tx so = (r, so1)"
    "overlay_run env p txs so1 = (Inr rs1, so')" using Cons.prems(5) by (rule overlay_run_Cons)
  have so1: "running so1" "st_stored (fst so1) = st_stored (fst so)"
    using running_step [of "fst so" "snd so" env p tx r "fst so1" "snd so1"] Cons.prems(1) run(1)
    by (auto simp: cache_step_def)
  have "typed (snd so1)"
    using exec_typed [OF assms, of tx "fst so" "snd so" p r "fst so1" "snd so1"] Cons.prems run(1) by simp
  with Cons.IH [OF so1(1) _ _ _ run(2)] Cons.prems so1(2) show ?case by simp
qed simp

lemma merge_fold_typed:
  "running so \<Longrightarrow> typed (snd so) \<Longrightarrow> filed es \<or> (\<forall>(a, x)\<in>set es. acc_address x = a) \<Longrightarrow> typed es \<Longrightarrow>
    typed (snd (fold (merge_account env) es so))"
proof (induction es arbitrary: so)
  case (Cons e es)
  obtain a x where e: "e = (a, x)" "acc_address x = a" using Cons.prems(3) by (cases e) (auto simp: filed_def)
  obtain s acc where so: "so = (s, acc)" by fastforce
  have "account_wf (merge_accounts a b y x)" if "account_wf y" for b y
    using that Cons.prems(4) e by (auto simp: merge_accounts_def account_wf_def split: option.splits)
  then have "typed (snd (merge_account env (a, x) so))"
    using Cons.prems(2,4) e by (auto simp: merge_account_def so Let_def dest: typed_lookup intro!: typed_insert
        split: option.splits prod.splits)
  moreover have "running (merge_account env (a, x) so)" using merge_account_runs [OF Cons.prems(1) e(2)] by blast
  moreover have "\<forall>(a, x)\<in>set es. acc_address x = a" using Cons.prems(3) by (auto simp: filed_def)
  ultimately show ?case using Cons.IH [of "merge_account env (a, x) so"] Cons.prems(4) e(1) by simp
qed simp

lemma typed_concat [simp]: "typed (concat ts) \<longleftrightarrow> (\<forall>t\<in>set ts. typed t)"
  by (auto simp: typed_def)

lemma groups_typed:
  assumes env: "env_typed env" and s: "coherent s" "filed (st_stored s)" "typed (st_stored s)"
    and txs: "\<forall>tx\<in>set txs. tx_typed (stx_transaction tx)"
    and res: "run_groups env p txs (group_indices iter txs) s = (Inr results, s2)"
  shows "\<forall>ov\<in>set (map snd results). typed ov"
proof
  fix ov assume "ov \<in> set (map snd results)"
  then obtain k where k: "k < length (map snd results)" "ov = map snd results ! k" by (metis in_set_conv_nth)
  note gs = group_overlays [OF s(1,2) res, THEN conjunct2]
  obtain rs s3 s4 where *: "running (s3, [])" "st_stored s3 = st_stored s"
    "overlay_run env p (map (\<lambda>i. txs ! i) (group_indices iter txs ! k)) (s3, []) = (Inr rs, (s4, ov))"
    using list_all2_nthD2 [OF gs k(1)] k(2) by blast
  have "group_indices iter txs ! k \<in> set (group_indices iter txs)"
    using k(1) list_all2_lengthD [OF gs] by (intro nth_mem) simp
  moreover have "\<forall>g\<in>set (group_indices iter txs). set g \<subseteq> {..<length txs}" by (auto simp: group_indices_def)
  ultimately have "\<forall>tx\<in>set (map (\<lambda>i. txs ! i) (group_indices iter txs ! k)). tx_typed (stx_transaction tx)"
    using txs by fastforce
  from run_typed [OF env *(1) _ _ this *(3)] s(3) *(2) show "typed ov" by simp
qed

lemma block_typed:
  assumes env: "env_typed env" and s: "coherent s" "filed (st_stored s)" "typed (st_stored s)"
    and txs: "\<forall>tx\<in>set txs. tx_typed (stx_transaction tx)"
    and run: "execute_transactions_overlay env iter txs p s = (Inr x, s')"
  obtains s1 ov rs where "running (s1, ov)" "cache_step s s1" "typed ov" "finish_execution env rs (s1, ov) = (Inr x, s')"
proof -
  obtain s1 ov rs where b: "running (s1, ov)" "cache_step s s1" "finish_execution env rs (s1, ov) = (Inr x, s')"
    "length txs \<le> 8 \<Longrightarrow> overlay_run env p txs (s, []) = (Inr rs, (s1, ov))"
    "length txs > 8 \<Longrightarrow> \<exists>results s2. run_groups env p txs (group_indices iter txs) s = (Inr results, s2) \<and>
       rs = map snd (sort_key fst (concat (map fst results))) \<and>
       fold (merge_account env) (concat (map snd results)) (s2, []) = (s1, ov)"
    using block_overlay [OF s(1,2) run] by metis
  have "typed ov"
  proof (cases "length txs \<le> 8")
    case True
    then show ?thesis using run_typed [OF env _ _ _ txs b(4)] s by (simp add: running_simp)
  next
    case False
    then obtain results s2 where res: "run_groups env p txs (group_indices iter txs) s = (Inr results, s2)"
      "fold (merge_account env) (concat (map snd results)) (s2, []) = (s1, ov)" using b(5) by auto
    have "cache_step s s2" using group_overlays [OF s(1,2) res(1)] by blast
    then have "running (s2, [])"
      using coherent_step [OF s(1)] s(2) by (simp add: running_simp cache_step_def)
    moreover have "\<forall>(a, x)\<in>set (concat (map snd results)). acc_address x = a"
      using group_overlays_filed [OF s(1,2) res(1)] by (fastforce simp: filed_def)
    ultimately show ?thesis
      using merge_fold_typed [of "(s2, [])" "concat (map snd results)" env] groups_typed [OF env s txs res(1)] res(2)
      by simp
  qed
  then show thesis using that b(1-3) by blast
qed

section \<open>Writing accounts\<close>

definition store_account :: "('q, 'e) state_env \<Rightarrow> account \<Rightarrow> ('q, 'e) state_manager \<Rightarrow> ('q, 'e) state_manager" where
  "store_account env x s = cache_account env x (s\<lparr>st_stored := btree_insert (acc_address x) x (st_stored s)\<rparr>)"

lemma persist_store: "persist_accounts env xs s =
    (case se_write_error env of
       Some e \<Rightarrow> (Inl (StateStorageError (''Failed to persist accounts: '' @ e)), s)
     | None \<Rightarrow> (Inr (), fold (store_account env) xs s))"
proof -
  have "fold (cache_account env) xs (s\<lparr>st_stored := store_all xs (st_stored s)\<rparr>) = fold (store_account env) xs s"
  proof (induction xs arbitrary: s)
    case (Cons x xs)
    have "(store_account env x s)\<lparr>st_stored := t\<rparr> = cache_account env x (s\<lparr>st_stored := t\<rparr>)"
      "st_stored (store_account env x s) = btree_insert (acc_address x) x (st_stored s)" for t
      by (simp_all add: store_account_def cache_account_def)
    with Cons [of "store_account env x s"] show ?case by simp
  qed simp
  then show ?thesis by (simp add: persist_accounts_def split: option.splits)
qed

lemma hashed_insert: "hashed h (btree_insert a x t) = btree_insert a (account_hash h x) (hashed h t)"
  by (induction t) (auto simp: hashed_def)

lemma index_fold:
  "fold (\<lambda>x. btree_insert (acc_address x) (account_hash h x)) xs (hashed h t) = hashed h (store_all xs t)"
  by (induction xs arbitrary: t) (simp_all add: hashed_insert [symmetric])

lemma hash_index_hashed:
  assumes "filed t"
  shows "hash_index env (map snd t) = hashed (se_hash env) t"
proof -
  from index_fold [of "se_hash env" "map snd t" "[]"] have "hash_index env (map snd t) = hashed (se_hash env) (store_all (map snd t) [])"
    by (simp add: hash_index_def hashed_def)
  moreover have "store_all (map snd t) [] = t"
  proof (rule btree_ext)
    show "btree_ok (store_all (map snd t) [])" "btree_ok t"
      using filed_store_all [of "[]" "map snd t"] assms by (simp_all add: filed_def)
    show "map_of (store_all (map snd t) []) = map_of t"
      using store_all_lookup [OF filed_distinct [OF assms], where t = "[]"] assms
      by (auto simp: filed_def fun_eq_iff split: option.splits)
  qed
  ultimately show ?thesis by simp
qed

lemma store_account_ok:
  "state_ok (se_hash env) s \<Longrightarrow> account_wf x \<Longrightarrow> state_ok (se_hash env) (store_account env x s)"
  by (auto simp: state_ok_def store_account_def cache_account_def coherent_def hashed_insert split: if_splits)

lemma store_accounts_ok:
  "state_ok (se_hash env) s \<Longrightarrow> \<forall>x\<in>set xs. account_wf x \<Longrightarrow> state_ok (se_hash env) (fold (store_account env) xs s)"
  by (induction xs arbitrary: s) (simp_all add: store_account_ok)

lemma persist_ok:
  assumes "state_ok (se_hash env) s" "\<forall>x\<in>set xs. account_wf x" "persist_accounts env xs s = (r, s')"
  shows "state_ok (se_hash env) s'"
  using assms store_accounts_ok [OF assms(1,2)] by (auto simp: persist_store split: option.splits)

lemma cache_step_ok: "state_ok h s \<Longrightarrow> cache_step s s' \<Longrightarrow> state_ok h s'"
  using coherent_step [of s s'] by (auto simp: state_ok_def cache_step_def)

lemma state_ok_updates [simp]:
  "state_ok h (s\<lparr>st_root := r\<rparr>) = state_ok h s" "state_ok h (s\<lparr>st_counter := n\<rparr>) = state_ok h s"
  by (simp_all add: state_ok_def coherent_def)

lemma full_root_ok:
  assumes "state_ok (se_hash env) s" "compute_full_state_root env s = (r, s')"
  shows "state_ok (se_hash env) s' \<and> st_stored s' = st_stored s \<and>
    (\<forall>root. r = Inr root \<longrightarrow> root = sparse_merkle_root (se_hash env) (hashed (se_hash env) (st_stored s)))"
proof -
  have "hash_index env (map snd (st_stored s)) = hashed (se_hash env) (st_stored s)"
    using assms(1) by (simp add: hash_index_hashed state_ok_def)
  with assms show ?thesis
    by (auto simp: compute_full_state_root_def state_ok_def coherent_def Let_def split: option.splits)
qed

lemma finish_ok:
  assumes "state_ok (se_hash env) s" "filed ov" "finish_execution env rs (s, ov) = (r, s')"
  shows "state_ok (se_hash env) s' \<and> st_stored s' = st_stored s \<and>
    (\<forall>x. r = Inr x \<longrightarrow> sx_accounts x = map snd ov \<and>
      sx_state_root x = sparse_merkle_root (se_hash env) (hashed (se_hash env) (store_all (map snd ov) (st_stored s))))"
proof -
  have "hash_index env (map snd (st_stored s)) = hashed (se_hash env) (st_stored s)"
    using assms(1) by (simp add: hash_index_hashed state_ok_def)
  with assms(1,3) show ?thesis
    by (auto simp: finish_execution_def compute_state_root_with_overlay_def load_account_hash_index_def Let_def
        index_fold state_ok_def coherent_def split: or_return_splits option.splits prod.splits)
qed

section \<open>Every operation keeps the invariant\<close>

lemma overlay_run_cache:
  "running so \<Longrightarrow> overlay_run env p txs so = (r, so') \<Longrightarrow> running so' \<and> cache_step (fst so) (fst so')"
proof (induction txs arbitrary: so r so')
  case (Cons tx txs)
  obtain r1 so1 where run: "execute_transaction_overlay env p tx so = (r1, so1)" by (metis surj_pair)
  then have so1: "running so1 \<and> cache_step (fst so) (fst so1)"
    using running_step [of "fst so" "snd so" env p tx r1 "fst so1" "snd so1"] Cons.prems(1) by simp
  obtain r2 so2 where rest: "overlay_run env p txs so1 = (r2, so2)" by (metis surj_pair)
  have "running so2 \<and> cache_step (fst so1) (fst so2)" using Cons.IH [OF so1 [THEN conjunct1] rest] .
  moreover have "so' = so1 \<or> so' = so2"
    using Cons.prems(2) run rest by (auto simp: Let_def split: if_splits or_return_splits)
  ultimately show ?case using so1 cache_step_trans [of "fst so" "fst so1" "fst so2"] by auto
qed auto

lemma run_groups_cache:
  "coherent s \<Longrightarrow> filed (st_stored s) \<Longrightarrow> run_groups env p txs groups s = (r, s') \<Longrightarrow> cache_step s s'"
proof (induction groups arbitrary: s r s')
  case (Cons g groups)
  obtain r1 s1 ov where run: "overlay_run env p (map (\<lambda>i. txs ! i) g) (s, []) = (r1, (s1, ov))"
    by (metis surj_pair)
  have s1: "cache_step s s1" "running (s1, ov)"
    using overlay_run_cache [OF _ run] Cons.prems(1,2) by (simp_all add: running_simp)
  obtain r2 s2 where rest: "run_groups env p txs groups s1 = (r2, s2)" by fastforce
  have "cache_step s1 s2" using Cons.IH [OF _ _ rest] s1(2) by (simp add: running_simp)
  moreover have "s' = s1 \<or> s' = s2"
    using Cons.prems(3) run rest by (auto simp: Let_def split: or_return_splits)
  ultimately show ?case using s1(1) cache_step_trans [of s s1 s2] by auto
qed simp

lemma block_keeps_ok:
  assumes ok: "state_ok (se_hash env) s" and run: "execute_transactions_overlay env iter txs p s = (r, s')"
  shows "state_ok (se_hash env) s' \<and> st_stored s' = st_stored s"
proof (cases r)
  case (Inr x)
  have s: "coherent s" "filed (st_stored s)" using ok by (simp_all add: state_ok_def)
  obtain s1 ov rs where b: "running (s1, ov)" "cache_step s s1" "finish_execution env rs (s1, ov) = (Inr x, s')"
    using block_overlay [OF s run [unfolded Inr]] by metis
  have "filed ov" "st_stored s1 = st_stored s" using b(1,2) by (simp_all add: running_simp cache_step_def)
  with finish_ok [OF cache_step_ok [OF ok b(2)] _ b(3)] show ?thesis by simp
next
  case (Inl e)
  have s: "coherent s" "filed (st_stored s)" "running (s, [])" using ok by (simp_all add: state_ok_def running_simp)
  show ?thesis
  proof (cases "length txs \<le> 8")
    case True
    obtain r1 s1 ov where o: "overlay_run env p txs (s, []) = (r1, (s1, ov))" by (metis surj_pair)
    note o' = overlay_run_cache [OF s(3) o]
    have "filed ov" "cache_step s s1" "st_stored s1 = st_stored s" using o' by (simp_all add: running_simp cache_step_def)
    moreover have "s' = s1 \<or> (\<exists>rs. finish_execution env rs (s1, ov) = (r, s'))"
      using run True o by (auto simp: execute_transactions_overlay_def execute_transactions_overlay_sequential_def
          split: or_return_splits)
    ultimately show ?thesis using finish_ok [of env s1 ov _ r s'] cache_step_ok [OF ok, of s1] by auto
  next
    case False
    obtain r1 s1 where g: "run_groups env p txs (group_indices iter txs) s = (r1, s1)" by fastforce
    have st: "cache_step s s1" using run_groups_cache [OF s(1,2) g] .
    show ?thesis
    proof (cases r1)
      case (Inl e')
      then have "s' = s1" using run False g by (simp add: execute_transactions_overlay_def)
      then show ?thesis using cache_step_ok [OF ok st] st by (simp add: cache_step_def)
    next
      case (Inr results)
      obtain s2 ov where f: "fold (merge_account env) (concat (map snd results)) (s1, []) = (s2, ov)" by fastforce
      have "running (s1, [])" using coherent_step [OF s(1) st] s(2) st by (simp add: running_simp cache_step_def)
      moreover have "\<forall>(a, x)\<in>set (concat (map snd results)). acc_address x = a"
        using group_overlays_filed [OF s(1,2) g [unfolded Inr]] by (fastforce simp: filed_def)
      ultimately have m: "running (s2, ov)" "cache_step s1 s2"
        using merge_fold_runs [of "(s1, [])" "concat (map snd results)" env] by (simp_all add: f)
      have "finish_execution env (map snd (sort_key fst (concat (map fst results)))) (s2, ov) = (r, s')"
        using run False g f Inr by (simp add: execute_transactions_overlay_def Let_def)
      from finish_ok [OF cache_step_ok [OF ok cache_step_trans [OF st m(2)]] _ this] m st show ?thesis
        by (simp add: running_simp cache_step_def)
    qed
  qed
qed

lemma get_account_wf:
  assumes "coherent s" "typed (st_stored s)" "length a = 32" "get_account env a s = (Inr x, s')"
  shows "account_wf x"
  using get_account_view [OF assms(1,4)] oview_wf [OF assms(2) _ assms(3), of "[]"] by simp

lemma apply_value_wf:
  "apply_value t x y = Inr (x', y') \<Longrightarrow> account_wf x \<Longrightarrow> account_wf y \<Longrightarrow> account_wf x' \<and> account_wf y'"
  by (auto simp: apply_value_def guarded_def split: sum.splits if_splits)

lemma apply_deploy_wf:
  assumes "env_typed env" "coherent s" "typed (st_stored s)" "account_wf x"
    and "apply_deploy_qvm env t x s = (Inr (x', y', logs), s') \<or> apply_deploy_evm env t x s = (Inr (x', y', logs), s')"
  shows "account_wf x' \<and> account_wf y'"
proof -
  have get: "account_wf y" if "get_account env a (s\<lparr>st_contracts := c\<rparr>) = (Inr y, s2)" "length a = 32" for a y s2 c
    using get_account_wf [OF _ _ that(2,1)] assms(2,3) by (simp add: coherent_def)
  have get': "account_wf y" if "get_account env a (s\<lparr>st_evm := c\<rparr>) = (Inr y, s2)" "length a = 32" for a y s2 c
    using get_account_wf [OF _ _ that(2,1)] assms(2,3) by (simp add: coherent_def)
  show ?thesis using assms(4,5) env_typedD(1) [OF assms(1)]
    by (auto simp: apply_deploy_qvm_def apply_deploy_evm_def exec_err_def ok_or_def Let_def
      split: or_return_splits option.splits prod.splits if_splits sum.splits
      dest!: env_typedD(2,3) [OF assms(1)] intro!: account_wf_code intro: get get')
qed

lemma apply_effect_wf:
  assumes "env_typed env" "coherent s" "typed (st_stored s)" "account_wf x" "account_wf y"
    and "apply_effect env t x y s = (Inr (x', y', logs), s')"
  shows "account_wf x' \<and> account_wf y'"
proof (cases "tx_type t = TxContractDeploy")
  case True
  with assms(6) apply_deploy_wf [OF assms(1-4), of t x' y' logs s'] show ?thesis
    by (auto simp: apply_effect_def split: vm_kind.splits)
next
  case False
  with assms(4-6) show ?thesis
    by (auto simp: apply_effect_def apply_call_qvm_def apply_call_evm_def Let_def guarded_wf
        dest: apply_value_wf register_validator_wf exit_validator_wf
        split: transaction_type.splits vm_kind.splits or_return_splits prod.splits option.splits if_splits)
qed

text \<open>The outcomes of direct execution: nothing is written, or sender and recipient are.\<close>

lemma apply_transaction_cases:
  assumes ok: "state_ok h s" and run: "apply_transaction env tx s = (r, s')"
  obtains (failed) e where "r = Inl e" "cache_step s s'"
  | (writes) r1 x1 x y logs s1 s2 where "cache_step s s1" "cache_step s1 s2"
      "apply_effect env (stx_transaction tx) x1 (oview (st_stored s) [] (tx_to (stx_transaction tx))) s1 = (Inr (x, y, logs), s2)"
      "x1 = oview (st_stored s) [] (tx_from (stx_transaction tx))" "acc_nonce x1 = tx_nonce (stx_transaction tx)"
      "unat (acc_nonce x) + 1 < 2 ^ 64"
      "persist_accounts env [x\<lparr>acc_nonce := acc_nonce x + 1\<rparr>, y] s2 = (r1, s')"
      "r = (case r1 of Inl e \<Rightarrow> Inl e | Inr _ \<Rightarrow> Inr (success_receipt tx logs (acc_address y)))"
proof -
  let ?t = "stx_transaction tx"
  have co: "coherent s" using ok by (simp add: state_ok_def)
  obtain r1 s1 where v: "validate_transaction env ?t s = (r1, s1)" by fastforce
  note st1 = validate_step [OF v]
  obtain r2 s2 where x: "get_account env (tx_from ?t) s1 = (r2, s2)" by fastforce
  note st2 = cache_step_trans [OF st1 get_account_stepD [OF x]]
  obtain r3 s3 where y: "get_account env (tx_to ?t) s2 = (r3, s3)" by fastforce
  note st3 = cache_step_trans [OF st2 get_account_stepD [OF y]]
  note def = run [unfolded apply_transaction_def Let_def prod.case v x y]
  show ?thesis
  proof (cases "\<exists>u x1 y1. r1 = Inr u \<and> r2 = Inr x1 \<and> r3 = Inr y1")
    case False
    then show ?thesis using def failed st1 st2 st3 by (auto split: or_return_splits)
  next
    case True
    then obtain u x1 y1 where inr: "r1 = Inr u" "r2 = Inr x1" "r3 = Inr y1" by blast
    have stored: "st_stored s1 = st_stored s" "st_stored s2 = st_stored s"
      using st1 st2 by (simp_all add: cache_step_def)
    have views: "x1 = oview (st_stored s) [] (tx_from ?t)" "y1 = oview (st_stored s) [] (tx_to ?t)"
      using get_account_view [OF coherent_step [OF co st1] x [unfolded inr]]
        get_account_view [OF coherent_step [OF co st2] y [unfolded inr]] by (simp_all add: stored)
    have nonce: "acc_nonce x1 = tx_nonce ?t"
      using v inr get_account_view [OF co] views(1)
      by (auto simp: validate_transaction_def check_nonce_def Let_def split: or_return_splits prod.splits if_splits)
    obtain r4 s4 where e: "apply_effect env ?t x1 y1 s3 = (r4, s4)" by fastforce
    note st4 = apply_effect_step [OF e]
    show ?thesis
    proof (cases "\<exists>x' y' logs z. r4 = Inr (x', y', logs) \<and> bump_nonce x' = Inr z")
      case False
      then show ?thesis
        using def inr e failed cache_step_trans [OF st3 st4] by (auto split: or_return_splits)
    next
      case True
      then obtain x' y' logs z where z: "r4 = Inr (x', y', logs)" "bump_nonce x' = Inr z" by blast
      obtain r5 s5 where p: "persist_accounts env [z, y'] s4 = (r5, s5)" by fastforce
      have "(r, s') = (case r5 of Inl e \<Rightarrow> Inl e | Inr _ \<Rightarrow> Inr (success_receipt tx logs (acc_address y')), s5)"
        using def [symmetric] by (simp add: inr e z p split: or_return_splits sum.splits)
      moreover have "z = x'\<lparr>acc_nonce := acc_nonce x' + 1\<rparr>" "unat (acc_nonce x') + 1 < 2 ^ 64"
        using z(2) by (simp_all add: bump_nonce_Inr)
      ultimately show ?thesis
        using p nonce views by (intro writes [OF st3 st4 e [unfolded views(2) z(1)], where ?r1.0 = r5]) auto
    qed
  qed
qed

lemma apply_transaction_ok:
  assumes "state_ok (se_hash env) s" "env_typed env" "tx_typed (stx_transaction tx)" "apply_transaction env tx s = (r, s')"
  shows "state_ok (se_hash env) s'"
  using assms(1,4)
proof (cases rule: apply_transaction_cases)
  case (writes r1 x1 x y logs s1 s2)
  note ok1 = cache_step_ok [OF assms(1) writes(1)]
  have "account_wf x \<and> account_wf y"
    using writes(4) assms(1,3) ok1 writes(1)
    by (intro apply_effect_wf [OF assms(2) _ _ _ _ writes(3)])
      (auto simp: state_ok_def cache_step_def tx_typed_def intro!: oview_wf)
  then show ?thesis using persist_ok [OF cache_step_ok [OF ok1 writes(2)] _ writes(7)] by simp
qed (use assms cache_step_ok in blast)

fun op_typed :: "(bytes \<Rightarrow> hash) \<Rightarrow> ('q, 'e) state_op \<Rightarrow> bool" where
  "op_typed h (GetAccount env a) \<longleftrightarrow> True"
| "op_typed h (ApplyTransaction env tx) \<longleftrightarrow> se_hash env = h \<and> env_typed env \<and> tx_typed (stx_transaction tx)"
| "op_typed h (ApplyAtomically env iter txs) \<longleftrightarrow>
    se_hash env = h \<and> env_typed env \<and> (\<forall>tx\<in>set txs. tx_typed (stx_transaction tx))"
| "op_typed h (Simulate env iter txs) \<longleftrightarrow> se_hash env = h"
| "op_typed h (CommitExecution env x) \<longleftrightarrow> se_hash env = h \<and> (\<forall>y\<in>set (sx_accounts x). account_wf y)"
| "op_typed h (ComputeRoot env) \<longleftrightarrow> se_hash env = h"
| "op_typed h (SpeculativeApply env t) \<longleftrightarrow> length (tx_from t) = 32"
| "op_typed h (CommitPending env token) \<longleftrightarrow> se_hash env = h"
| "op_typed h (RollbackPending token) \<longleftrightarrow> True"
| "op_typed h (RestoreAccount env a x) \<longleftrightarrow> se_hash env = h \<and> account_wf x"
| "op_typed h (SetBalance env a b token) \<longleftrightarrow> se_hash env = h \<and> length a = 32"
| "op_typed h (ApplyGenesis env bs token) \<longleftrightarrow> se_hash env = h \<and> (\<forall>(a, _)\<in>set bs. length a = 32)"
| "op_typed h (ApplyBatch env xs token) \<longleftrightarrow> se_hash env = h \<and> (\<forall>y\<in>set xs. account_wf y)"

lemma commit_execution_ok:
  assumes "state_ok (se_hash env) s" "\<forall>y\<in>set (sx_accounts x). account_wf y" "commit_execution env x s = (r, s')"
  shows "state_ok (se_hash env) s'"
  using assms persist_ok [OF assms(1,2)]
  by (auto simp: commit_execution_def Let_def split: or_return_splits prod.splits)

lemma atomically_ok:
  assumes "state_ok (se_hash env) s" "env_typed env" "\<forall>tx\<in>set txs. tx_typed (stx_transaction tx)"
    and "apply_transactions_atomically env iter txs s = (r, s')"
  shows "state_ok (se_hash env) s'"
proof -
  obtain r1 s1 where e: "execute_transactions_overlay env iter txs True s = (r1, s1)" by fastforce
  note ok1 = block_keeps_ok [OF assms(1) e, THEN conjunct1]
  show ?thesis
  proof (cases r1)
    case (Inl err)
    then show ?thesis using assms(4) e ok1 by (simp add: apply_transactions_atomically_def prepare_transactions_def)
  next
    case (Inr x)
    obtain r2 s2 where c: "commit_execution env x s1 = (r2, s2)" by fastforce
    have s: "coherent s" "filed (st_stored s)" "typed (st_stored s)" using assms(1) by (simp_all add: state_ok_def)
    obtain s3 ov rs where b: "typed ov" "finish_execution env rs (s3, ov) = (Inr x, s1)"
      using block_typed [OF assms(2) s assms(3) e [unfolded Inr]] by metis
    have "\<forall>y\<in>set (sx_accounts x). account_wf y" using finish_receipts [OF b(2)] b(1) by (simp add: typed_def)
    from commit_execution_ok [OF ok1 this c] show ?thesis
      using assms(4) e Inr c
      by (auto simp: apply_transactions_atomically_def prepare_transactions_def split: or_return_splits)
  qed
qed

lemma genesis_accounts_wf:
  "genesis_accounts bs n xs = Inr ys \<Longrightarrow> \<forall>(a, _)\<in>set bs. length a = 32 \<Longrightarrow> \<forall>x\<in>set xs. account_wf x \<Longrightarrow>
    \<forall>y\<in>set ys. account_wf y"
  by (induction bs n xs rule: genesis_accounts.induct) (auto split: option.splits)

lemma filed_filter: "filed t \<Longrightarrow> filed (filter P t)"
  by (auto simp: filed_def btree_ok_def sorted_wrt_map sorted_wrt_filter)

lemma typed_filter: "typed t \<Longrightarrow> typed (filter P t)"
  by (auto simp: typed_def)

lemma coherent_pending [simp]: "coherent (s\<lparr>st_pending := p\<rparr>) = coherent s"
  by (simp add: coherent_def)

lemma pending_ok:
  "state_ok h s \<Longrightarrow> filed p \<Longrightarrow> typed p \<Longrightarrow> state_ok h (s\<lparr>st_pending := p\<rparr>)"
  by (simp add: state_ok_def coherent_def)

lemma speculative_ok:
  assumes ok: "state_ok h s" and from32: "length (tx_from t) = 32"
  shows "state_ok h (snd (speculative_apply env t s))"
proof -
  define s0 where "s0 = s\<lparr>st_counter := st_counter s + 1\<rparr>"
  have ok0: "state_ok h s0" using ok by (simp add: s0_def)
  obtain x s1 where x: "(case map_of (st_pending s0) (tx_from t) of
      Some x \<Rightarrow> (x, s0)
    | None \<Rightarrow> (let (r, s) = get_account env (tx_from t) s0;
                 x = (case r of Inr x \<Rightarrow> x | Inl _ \<Rightarrow> account_new (tx_from t))
             in (x, s\<lparr>st_pending := btree_insert (tx_from t) x (st_pending s)\<rparr>))) = (x, s1)" by fastforce
  have "account_wf x \<and> acc_address x = tx_from t \<and> state_ok h s1"
  proof (cases "map_of (st_pending s0) (tx_from t)")
    case (Some y)
    then show ?thesis using x ok0 by (auto simp: state_ok_def dest: typed_lookup filed_lookup)
  next
    case None
    obtain r s2 where g: "get_account env (tx_from t) s0 = (r, s2)" by fastforce
    note ok2 = cache_step_ok [OF ok0 get_account_stepD [OF g]]
    have eq: "x = (case r of Inr x \<Rightarrow> x | Inl _ \<Rightarrow> account_new (tx_from t))"
      "s1 = s2\<lparr>st_pending := btree_insert (tx_from t) x (st_pending s2)\<rparr>"
      using x None g by (auto simp: Let_def)
    have "account_wf x \<and> acc_address x = tx_from t"
    proof (cases r)
      case (Inl e)
      then show ?thesis using eq(1) from32 by (simp add: account_new_def account_wf_def)
    next
      case (Inr y)
      have "y = oview (st_stored s0) [] (tx_from t)" "coherent s0" "filed (st_stored s0)" "typed (st_stored s0)"
        using get_account_view [OF _ g [unfolded Inr]] ok0 by (simp_all add: state_ok_def)
      then show ?thesis using eq(1) Inr from32 by (simp add: oview_wf)
    qed
    then show ?thesis using ok2 eq(2) by (auto simp: state_ok_def intro!: pending_ok)
  qed
  then show ?thesis using x [unfolded s0_def]
    by (auto simp: speculative_apply_def Let_def bump_nonce_Inr state_ok_def intro!: pending_ok split: or_return_splits prod.splits)
qed

lemma commit_pending_ok:
  assumes "state_ok (se_hash env) s"
  shows "state_ok (se_hash env) (snd (commit_pending env token s))"
proof -
  obtain r1 s1 where p: "persist_accounts env (map snd (st_pending s)) s = (r1, s1)" by fastforce
  have ok1: "state_ok (se_hash env) s1" using persist_ok [OF assms _ p] assms by (simp add: state_ok_def [of _ s] typed_def)
  have ok2: "state_ok (se_hash env) (s1\<lparr>st_pending := []\<rparr>)" using pending_ok [OF ok1] by simp
  obtain r2 s2 where f: "compute_full_state_root env (s1\<lparr>st_pending := []\<rparr>) = (r2, s2)" by fastforce
  note ok3 = full_root_ok [OF ok2 f, THEN conjunct1]
  show ?thesis using assms p f ok1 ok3
    by (auto simp: commit_pending_def Let_def split: or_return_splits)
qed

lemma restore_account_ok:
  assumes "state_ok (se_hash env) s" "account_wf x"
  shows "state_ok (se_hash env) (snd (restore_account env a x s))"
proof -
  obtain r1 s1 where p: "persist_accounts env [x] s = (r1, s1)" by fastforce
  have ok1: "state_ok (se_hash env) s1" using persist_ok [OF assms(1) _ p] assms(2) by simp
  then have "state_ok (se_hash env) (s1\<lparr>st_pending := filter (\<lambda>(k, _). k \<noteq> a) (st_pending s1)\<rparr>)"
    using filed_filter typed_filter by (intro pending_ok) (auto simp: state_ok_def)
  then show ?thesis using p ok1 by (auto simp: restore_account_def split: or_return_splits)
qed

lemma set_balance_ok:
  assumes "state_ok (se_hash env) s" "length a = 32"
  shows "state_ok (se_hash env) (snd (set_balance env a b token s))"
proof -
  obtain r1 s1 where g: "get_account env a s = (r1, s1)" by fastforce
  note ok1 = cache_step_ok [OF assms(1) get_account_stepD [OF g]]
  show ?thesis
  proof (cases r1)
    case (Inr x)
    have "account_wf x" using get_account_wf [OF _ _ assms(2) g [unfolded Inr]] assms(1) by (simp add: state_ok_def)
    then have "state_ok (se_hash env) (snd (persist_accounts env [x\<lparr>acc_balance := b\<rparr>] s1))"
      using persist_ok [OF ok1, of "[x\<lparr>acc_balance := b\<rparr>]"] by (auto simp: prod_eq_iff)
    then show ?thesis using assms(1) g Inr by (auto simp: set_balance_def split: or_return_splits)
  qed (use assms(1) g ok1 in \<open>auto simp: set_balance_def split: or_return_splits\<close>)
qed

lemma write_root_ok:
  assumes "state_ok (se_hash env) s" "\<forall>x\<in>set xs. account_wf x"
  shows "state_ok (se_hash env) (snd (let (r, s) = persist_accounts env xs s in or_return r s (\<lambda>_.
    let (r, s) = compute_full_state_root env s in or_return r s (\<lambda>root. (Inr (), s\<lparr>st_root := root\<rparr>)))))"
proof -
  obtain r1 s1 where p: "persist_accounts env xs s = (r1, s1)" by fastforce
  note ok1 = persist_ok [OF assms p]
  obtain r2 s2 where f: "compute_full_state_root env s1 = (r2, s2)" by fastforce
  note ok2 = full_root_ok [OF ok1 f, THEN conjunct1]
  show ?thesis using p f ok1 ok2 by (auto split: or_return_splits)
qed

lemma apply_genesis_ok:
  assumes "state_ok (se_hash env) s" "\<forall>(a, _)\<in>set bs. length a = 32"
  shows "state_ok (se_hash env) (snd (apply_genesis env bs token s))"
proof (cases "verify_auth token s = Inr () \<and> st_root s = replicate 32 0 \<and> (\<exists>xs. genesis_accounts bs 0 [] = Inr xs)")
  case True
  then obtain xs where xs: "genesis_accounts bs 0 [] = Inr xs" by blast
  have "\<forall>x\<in>set xs. account_wf x" using genesis_accounts_wf [OF xs assms(2)] by simp
  from write_root_ok [OF assms(1) this] True xs show ?thesis by (simp add: apply_genesis_def)
next
  case False
  then show ?thesis using assms(1) by (auto simp: apply_genesis_def split: or_return_splits)
qed

lemma apply_batch_ok:
  assumes "state_ok (se_hash env) s" "\<forall>x\<in>set xs. account_wf x"
  shows "state_ok (se_hash env) (snd (apply_state_batch env xs token s))"
  using write_root_ok [OF assms] assms(1) by (auto simp: apply_state_batch_def split: or_return_splits)

interpretation state_ops: op_system "state_exec :: ('q, 'e) state_op \<Rightarrow> ('q, 'e) state_manager \<Rightarrow> ('q, 'e) state_manager"
  "op_typed h" "state_ok h" for h
proof
  fix s :: "('q, 'e) state_manager" and x :: "('q, 'e) state_op" assume ok: "state_ok h s" and typed: "op_typed h x"
  show "state_ok h (state_exec x s)"
  proof (cases x)
    case (GetAccount env a)
    then show ?thesis using cache_step_ok [OF ok get_account_step] by simp
  next
    case (ApplyTransaction env tx)
    then show ?thesis using apply_transaction_ok [of env s tx] ok typed by (auto simp: prod_eq_iff)
  next
    case (ApplyAtomically env iter txs)
    then show ?thesis using atomically_ok [of env s txs iter] ok typed by (auto simp: prod_eq_iff)
  next
    case (Simulate env iter txs)
    then show ?thesis using block_keeps_ok [of env s iter txs False] ok typed
      by (auto simp: simulate_transactions_def prod_eq_iff)
  next
    case (CommitExecution env e)
    then show ?thesis using commit_execution_ok [of env s e] ok typed by (auto simp: prod_eq_iff)
  next
    case (ComputeRoot env)
    then show ?thesis using full_root_ok [of env s] ok typed by (auto simp: compute_state_root_def prod_eq_iff)
  next
    case (SpeculativeApply env t)
    then show ?thesis using speculative_ok [of h s t env] ok typed by simp
  next
    case (CommitPending env token)
    then show ?thesis using commit_pending_ok [of env s token] ok typed by auto
  next
    case (RollbackPending token)
    then show ?thesis using ok by (auto simp: rollback_pending_def intro: pending_ok split: or_return_splits)
  next
    case (RestoreAccount env a y)
    then show ?thesis using restore_account_ok [of env s y a] ok typed by auto
  next
    case (SetBalance env a b token)
    then show ?thesis using set_balance_ok [of env s a b token] ok typed by auto
  next
    case (ApplyGenesis env bs token)
    then show ?thesis using apply_genesis_ok [of env s bs token] ok typed by auto
  next
    case (ApplyBatch env xs token)
    then show ?thesis using apply_batch_ok [of env s xs token] ok typed by auto
  qed
qed

end
