(* ===== verification/State_Chain.thy ===== *)
theory State_Chain
  imports State_Root
begin

text \<open>
  Properties of the state manager over sequences of operations and of blocks: well-formed accounts, the
  agreement of cache, database and index, the root of a committed block and what it binds, the order of
  nonces along consecutive blocks, and the cases in which execution does not do what it should.
\<close>

section \<open>Consecutive blocks\<close>

lemma store_accounts_keep:
  "coherent s \<Longrightarrow> filed (st_stored s) \<Longrightarrow>
    coherent (fold (store_account env) xs s) \<and> filed (st_stored (fold (store_account env) xs s))"
proof (induction xs arbitrary: s)
  case (Cons x xs)
  have "coherent (store_account env x s)" "filed (st_stored (store_account env x s))"
    using Cons.prems by (auto simp: store_account_def cache_account_def coherent_def)
  with Cons.IH show ?case by simp
qed simp

lemma merge_one_nonces:
  "map_of (snd so) b = Some y \<Longrightarrow>
    \<exists>z. map_of (snd (merge_account env (a, x) so)) b = Some z \<and> unat (acc_nonce y) \<le> unat (acc_nonce z)"
  "\<exists>z. map_of (snd (merge_account env (a, x) so)) a = Some z \<and> unat (acc_nonce x) \<le> unat (acc_nonce z)"
  "keys (snd (merge_account env (a, x) so)) = insert a (keys (snd so))"
  by (cases so, auto simp: merge_account_def Let_def merge_accounts_def max_def word_le_nat_alt
      split: option.splits prod.splits)+

lemma merge_fold_keeps:
  "map_of (snd so) b = Some y \<Longrightarrow>
    \<exists>z. map_of (snd (fold (merge_account env) es so)) b = Some z \<and> unat (acc_nonce y) \<le> unat (acc_nonce z)"
proof (induction es arbitrary: so y)
  case (Cons e es)
  obtain z where z: "map_of (snd (merge_account env e so)) b = Some z" "unat (acc_nonce y) \<le> unat (acc_nonce z)"
    using merge_one_nonces(1) [OF Cons.prems] by (metis surj_pair)
  from Cons.IH [OF z(1)] z(2) show ?case by (auto intro: order_trans)
qed simp

lemma merge_fold_takes:
  "(b, x) \<in> set es \<Longrightarrow>
    \<exists>z. map_of (snd (fold (merge_account env) es so)) b = Some z \<and> unat (acc_nonce x) \<le> unat (acc_nonce z)"
proof (induction es arbitrary: so)
  case (Cons e es)
  show ?case
  proof (cases "e = (b, x)")
    case True
    obtain z where "map_of (snd (merge_account env e so)) b = Some z" "unat (acc_nonce x) \<le> unat (acc_nonce z)"
      using merge_one_nonces(2) unfolding True by blast
    from merge_fold_keeps [OF this(1), of env es] this(2) show ?thesis by (auto intro: order_trans)
  qed (use Cons in auto)
qed simp

lemma merge_fold_keys: "keys (snd (fold (merge_account env) es so)) = keys (snd so) \<union> fst ` set es"
  by (induction es arbitrary: so) (auto simp: merge_one_nonces(3))

lemma oview_absent: "a \<notin> keys ov \<Longrightarrow> oview stored ov a = oview stored [] a"
  by (simp add: oview_def keys_map_of domIff)

text \<open>What groups do to nonces: merging keeps the largest.\<close>

lemma groups_nonces:
  assumes s: "coherent s" "filed (st_stored s)"
    and run: "run_groups env p txs groups s = (Inr results, s2)"
    and fin: "fold (merge_account env) (concat (map snd results)) (s2, []) = (s1, ov)"
  shows "ov' \<in> set (map snd results) \<Longrightarrow> unat (acc_nonce (oview (st_stored s) ov' a)) \<le> unat (acc_nonce (oview (st_stored s) ov a))"
    and "unat (acc_nonce (oview (st_stored s) [] a)) \<le> unat (acc_nonce (oview (st_stored s) ov a))"
proof -
  let ?n = "\<lambda>ov. unat (acc_nonce (oview (st_stored s) ov a))"
  have base: "?n [] \<le> ?n ov'" if "ov' \<in> set (map snd results)" for ov'
  proof -
    obtain k where k: "k < length (map snd results)" "ov' = map snd results ! k"
      using \<open>ov' \<in> set (map snd results)\<close> unfolding in_set_conv_nth by blast
    obtain rs s3 s4 where *: "running (s3, [])" "st_stored s3 = st_stored s"
      "overlay_run env p (map (\<lambda>i. txs ! i) (groups ! k)) (s3, []) = (Inr rs, (s4, ov'))"
      using list_all2_nthD2 [OF group_overlays [OF s run, THEN conjunct2] k(1)] k(2) by blast
    have st: "cache_step s3 s4" "nonce_of (s3, []) a \<le> nonce_of (s4, ov') a"
      using overlay_run_steps [OF *(1,3)] by simp_all
    have "st_stored s4 = st_stored s" using st(1) *(2) by (simp add: cache_step_def)
    then show ?thesis using st(2) *(2) by (simp add: nonce_of_def)
  qed
  have takes: "?n ov' \<le> ?n ov" if ov': "ov' \<in> set (map snd results)" "a \<in> keys ov'" for ov'
  proof -
    obtain y where y: "map_of ov' a = Some y" using ov'(2) by (auto simp: keys_map_of)
    then have "(a, y) \<in> set (concat (map snd results))" using ov'(1) by (auto dest: map_of_SomeD)
    then obtain z where "map_of ov a = Some z" "unat (acc_nonce y) \<le> unat (acc_nonce z)"
      using merge_fold_takes [of a y "concat (map snd results)" env "(s2, [])"] unfolding fin by auto
    then show ?thesis using y by (simp add: oview_def)
  qed
  show all: "?n [] \<le> ?n ov"
  proof (cases "a \<in> keys ov")
    case True
    then have "a \<in> fst ` set (concat (map snd results))"
      using merge_fold_keys [of env "concat (map snd results)" "(s2, [])"] by (simp add: fin)
    then obtain ov' where ov': "ov' \<in> set (map snd results)" "a \<in> keys ov'" by (auto simp: keys_def)
    show ?thesis using base [OF ov'(1)] takes [OF ov'] by (rule order_trans)
  qed (simp add: oview_absent [of a ov])
  show "?n ov' \<le> ?n ov" if "ov' \<in> set (map snd results)"
  proof (cases "a \<in> keys ov'")
    case True
    then show ?thesis by (rule takes [OF that])
  next
    case False
    then show ?thesis using all by (simp add: oview_absent [of a ov'])
  qed
qed

lemma block_nonces:
  assumes iter: "iterates iter" and s: "coherent s" "filed (st_stored s)"
    and run: "execute_transactions_overlay env iter txs p s = (Inr x, s')"
  obtains ov where "filed ov" "st_stored s' = st_stored s" "coherent s'" "sx_accounts x = map snd ov"
    "\<And>a. unat (acc_nonce (oview (st_stored s) [] a)) \<le> unat (acc_nonce (oview (st_stored s) ov a))"
    "\<And>i t. i < length txs \<Longrightarrow> t = stx_transaction (txs ! i) \<Longrightarrow> rc_success (sx_receipts x ! i) \<Longrightarrow>
       unat (acc_nonce (oview (st_stored s) [] (tx_from t))) \<le> unat (tx_nonce t) \<and>
       unat (tx_nonce t) < unat (acc_nonce (oview (st_stored s) ov (tx_from t)))"
proof -
  obtain s1 ov rs where b: "running (s1, ov)" "cache_step s s1" "finish_execution env rs (s1, ov) = (Inr x, s')"
    "length txs \<le> 8 \<Longrightarrow> overlay_run env p txs (s, []) = (Inr rs, (s1, ov))"
    "length txs > 8 \<Longrightarrow> \<exists>results s2. run_groups env p txs (group_indices iter txs) s = (Inr results, s2) \<and>
       rs = map snd (sort_key fst (concat (map fst results))) \<and>
       fold (merge_account env) (concat (map snd results)) (s2, []) = (s1, ov)"
    using block_overlay [OF s run] by metis
  let ?n = "\<lambda>ov a. unat (acc_nonce (oview (st_stored s) ov a))"
  have eq: "st_stored s1 = st_stored s" using b(2) by (simp add: cache_step_def)
  have nonces: "(\<forall>a. ?n [] a \<le> ?n ov a) \<and> (\<forall>i < length txs. rc_success (rs ! i) \<longrightarrow>
      ?n [] (tx_from (stx_transaction (txs ! i))) \<le> unat (tx_nonce (stx_transaction (txs ! i))) \<and>
      unat (tx_nonce (stx_transaction (txs ! i))) < ?n ov (tx_from (stx_transaction (txs ! i))))"
  proof (cases "length txs \<le> 8")
    case True
    have "running (s, [])" using s by (simp add: running_simp)
    from overlay_run_steps [OF this b(4) [OF True]] show ?thesis by (simp add: nonce_of_def eq)
  next
    case False
    then obtain results s2 where res: "run_groups env p txs (group_indices iter txs) s = (Inr results, s2)"
      "rs = map snd (sort_key fst (concat (map fst results)))"
      "fold (merge_account env) (concat (map snd results)) (s2, []) = (s1, ov)" using b(5) by auto
    note up = groups_nonces [OF s res(1,3)]
    show ?thesis
    proof (intro conjI allI impI)
      show "?n [] a \<le> ?n ov a" for a by (rule up(2))
      fix i assume i: "i < length txs" "rc_success (rs ! i)"
      let ?t = "stx_transaction (txs ! i)"
      define g where "g = filter (\<lambda>k. tx_from (stx_transaction (txs ! k)) = tx_from ?t) [0..<length txs]"
      obtain rs' s3 s4 ov' where g: "running (s3, [])" "st_stored s3 = st_stored s" "ov' \<in> set (map snd results)"
        "overlay_run env p (map (\<lambda>i. txs ! i) g) (s3, []) = (Inr rs', (s4, ov'))" "\<forall>k < length g. rs ! (g ! k) = rs' ! k"
        using block_receipts [OF iter s res(1) i(1)] unfolding g_def res(2) by blast
      have "i \<in> set g" using i by (simp add: g_def)
      then obtain k where k: "k < length g" "g ! k = i" by (metis in_set_conv_nth)
      note steps = overlay_run_steps [OF g(1,4)]
      have len: "k < length rs'" using steps k(1) by simp
      have "rc_success (rs' ! k)" using g(5) [rule_format, OF k(1)] k(2) i(2) by simp
      with steps len have "nonce_of (s3, []) (tx_from (stx_transaction (map (\<lambda>i. txs ! i) g ! k))) \<le>
          unat (tx_nonce (stx_transaction (map (\<lambda>i. txs ! i) g ! k))) \<and>
        unat (tx_nonce (stx_transaction (map (\<lambda>i. txs ! i) g ! k))) <
          nonce_of (s4, ov') (tx_from (stx_transaction (map (\<lambda>i. txs ! i) g ! k)))" by blast
      moreover have "st_stored s4 = st_stored s" using steps g(2) by (simp add: cache_step_def)
      ultimately have "?n [] (tx_from ?t) \<le> unat (tx_nonce ?t) \<and> unat (tx_nonce ?t) < ?n ov' (tx_from ?t)"
        using k g(2) by (simp add: nonce_of_def)
      with up(1) [OF g(3), of "tx_from ?t"] show "?n [] (tx_from ?t) \<le> unat (tx_nonce ?t)" "unat (tx_nonce ?t) < ?n ov (tx_from ?t)"
        by auto
    qed
  qed
  have co: "coherent s'" using b(1,3) by (auto simp: running_simp finish_execution_def compute_state_root_with_overlay_def
        load_account_hash_index_def coherent_def Let_def split: or_return_splits option.splits prod.splits)
  have "filed ov" using b(1) by (simp add: running_simp)
  then show ?thesis
    using co nonces finish_receipts [OF b(3)] finish_keeps_stored [OF b(3)] eq by (intro that [of ov]) simp_all
qed

text \<open>A log of consecutive committed blocks: their transactions with their receipts, in order.\<close>

inductive committed ::
  "('q, 'e) state_manager \<Rightarrow> (signed_transaction \<times> receipt) list \<Rightarrow> ('q, 'e) state_manager \<Rightarrow> bool" where
  none: "committed s [] s"
| block: "committed s log s1 \<Longrightarrow> iterates iter \<Longrightarrow> apply_transactions_atomically env iter txs s1 = (Inr x, s2) \<Longrightarrow>
    committed s (log @ zip txs (sx_receipts x)) s2"

lemma commit_fold:
  "commit_execution env x s = (Inr (), s') \<Longrightarrow>
    s' = (fold (store_account env) (sx_accounts x) s)\<lparr>st_root := sx_state_root x\<rparr>"
  by (auto simp: commit_execution_def persist_store Let_def split: option.splits or_return_splits)

lemma committed_block:
  assumes iter: "iterates iter" and s: "coherent s" "filed (st_stored s)"
    and run: "apply_transactions_atomically env iter txs s = (Inr x, s')"
  shows "coherent s' \<and> filed (st_stored s') \<and>
    (\<forall>a. unat (acc_nonce (oview (st_stored s) [] a)) \<le> unat (acc_nonce (oview (st_stored s') [] a))) \<and>
    (\<forall>i < length txs. rc_success (sx_receipts x ! i) \<longrightarrow>
      unat (acc_nonce (oview (st_stored s) [] (tx_from (stx_transaction (txs ! i))))) \<le> unat (tx_nonce (stx_transaction (txs ! i))) \<and>
      unat (tx_nonce (stx_transaction (txs ! i))) < unat (acc_nonce (oview (st_stored s') [] (tx_from (stx_transaction (txs ! i))))))"
proof -
  obtain s1 where x: "execute_transactions_overlay env iter txs True s = (Inr x, s1)"
    "commit_execution env x s1 = (Inr (), s')" using run by (rule atomically_cases)
  obtain ov where b: "filed ov" "st_stored s1 = st_stored s" "coherent s1" "sx_accounts x = map snd ov"
    "\<And>a. unat (acc_nonce (oview (st_stored s) [] a)) \<le> unat (acc_nonce (oview (st_stored s) ov a))"
    "\<And>i t. i < length txs \<Longrightarrow> t = stx_transaction (txs ! i) \<Longrightarrow> rc_success (sx_receipts x ! i) \<Longrightarrow>
       unat (acc_nonce (oview (st_stored s) [] (tx_from t))) \<le> unat (tx_nonce t) \<and>
       unat (tx_nonce t) < unat (acc_nonce (oview (st_stored s) ov (tx_from t)))"
    using block_nonces [OF iter s x(1)] by blast
  have "oview (st_stored s') [] = oview (st_stored s) ov"
    using commit_stores [OF x(2)] store_all_view(1) [OF b(1)] b(2,4) by simp
  moreover have "coherent s' \<and> filed (st_stored s')"
    using store_accounts_keep [OF b(3), of env "sx_accounts x"] s(2) b(2) commit_fold [OF x(2)]
    by (simp add: coherent_def)
  ultimately show ?thesis using b(5,6) by simp
qed

lemma committed_log:
  assumes "committed s log s'" "coherent s" "filed (st_stored s)"
  shows "coherent s' \<and> filed (st_stored s') \<and>
    (\<forall>(tx, rc)\<in>set log. rc_success rc \<longrightarrow>
      unat (tx_nonce (stx_transaction tx)) < unat (acc_nonce (oview (st_stored s') [] (tx_from (stx_transaction tx)))))"
  using assms
proof (induction rule: committed.induct)
  case (block s log s1 iter env txs x s2)
  note IH = block.IH [OF block.prems]
  note step = committed_block [OF block.hyps(2) _ _ block.hyps(3)]
  have b: "coherent s2 \<and> filed (st_stored s2)" using step IH by blast
  have mono: "unat (acc_nonce (oview (st_stored s1) [] a)) \<le> unat (acc_nonce (oview (st_stored s2) [] a))" for a
    using step IH by blast
  have new: "unat (tx_nonce (stx_transaction (txs ! i))) <
      unat (acc_nonce (oview (st_stored s2) [] (tx_from (stx_transaction (txs ! i)))))"
    if "i < length txs" "rc_success (sx_receipts x ! i)" for i using step IH that by blast
  show ?case
  proof (intro conjI ballI)
    fix e assume "e \<in> set (log @ zip txs (sx_receipts x))"
    then consider "e \<in> set log" | i where "i < length txs" "e = (txs ! i, sx_receipts x ! i)"
      by (auto simp: set_zip)
    then show "case e of (tx, rc) \<Rightarrow> rc_success rc \<longrightarrow>
        unat (tx_nonce (stx_transaction tx)) < unat (acc_nonce (oview (st_stored s2) [] (tx_from (stx_transaction tx))))"
    proof cases
      case 1
      with IH mono show ?thesis by (cases e) (fastforce intro: less_le_trans)
    next
      case 2
      with new show ?thesis by simp
    qed
  qed (use b in auto)
qed auto

text \<open>C2: Along consecutive committed blocks, of any sizes, the successful transactions of one sender have strictly
  increasing nonces: no transaction that succeeded can succeed again.\<close>

theorem committed_nonces_increase:
  assumes "committed s log s'" "coherent s" "filed (st_stored s)"
    and "i < j" "j < length log" "log ! i = (tx, rc)" "log ! j = (tx', rc')" "rc_success rc" "rc_success rc'"
      "tx_from (stx_transaction tx) = tx_from (stx_transaction tx')"
  shows "unat (tx_nonce (stx_transaction tx)) < unat (tx_nonce (stx_transaction tx'))"
  using assms
proof (induction rule: committed.induct)
  case (block s log s1 iter env txs x s2)
  note s1 = committed_log [OF block.hyps(1) block.prems(1,2)]
  note step = committed_block [OF block.hyps(2) _ _ block.hyps(3)]
  obtain s3 where x: "execute_transactions_overlay env iter txs True s1 = (Inr x, s3)"
    using block.hyps(3) by (rule atomically_cases)
  show ?case
  proof (cases "j < length log")
    case True
    with block show ?thesis by (simp add: nth_append)
  next
    case False
    then obtain k where k: "j = length log + k" "k < length txs" "tx' = txs ! k" "rc' = sx_receipts x ! k"
      using block.prems(4,6) by (auto simp: nth_append dest!: le_Suc_ex [OF leI])
    show ?thesis
    proof (cases "i < length log")
      case True
      then have "(tx, rc) \<in> set log" using block.prems(5) by (metis nth_append nth_mem)
      then have "unat (tx_nonce (stx_transaction tx)) < unat (acc_nonce (oview (st_stored s1) [] (tx_from (stx_transaction tx))))"
        using s1 block.prems(7) by blast
      moreover have "unat (acc_nonce (oview (st_stored s1) [] (tx_from (stx_transaction tx')))) \<le> unat (tx_nonce (stx_transaction tx'))"
        using step s1 k block.prems(8) by blast
      ultimately show ?thesis using block.prems(9) by simp
    next
      case False
      then obtain l where l: "i = length log + l" "l < length txs" "tx = txs ! l" "rc = sx_receipts x ! l"
        using block.prems(3-5) k(1) by (auto simp: nth_append dest!: le_Suc_ex [OF leI])
      then show ?thesis
        using block_nonces_increase [OF block.hyps(2) _ _ x, of l k] s1 k block.prems by auto
    qed
  qed
qed simp

lemma sample_committed:
  "\<exists>x s'. apply_transactions_atomically sample_env sorted_list_of_set
     [sample_tx TxTransfer (addr 2) 5 0, sample_tx TxTransfer (addr 2) 6 1] sample_state = (Inr x, s') \<and>
     rc_success (sx_receipts x ! 0) \<and> rc_success (sx_receipts x ! 1) \<and> length (sx_receipts x) = 2"
proof -
  let ?txs = "[sample_tx TxTransfer (addr 2) 5 0, sample_tx TxTransfer (addr 2) 6 1]"
  obtain x s1 where x: "execute_transactions_overlay sample_env sorted_list_of_set ?txs True sample_state = (Inr x, s1)"
    "rc_success (sx_receipts x ! 0)" "rc_success (sx_receipts x ! 1)" using sample_block by metis
  obtain s2 ov rs where b: "finish_execution sample_env rs (s2, ov) = (Inr x, s1)"
    "length ?txs \<le> 8 \<Longrightarrow> overlay_run sample_env True ?txs (sample_state, []) = (Inr rs, (s2, ov))"
    using block_overlay [OF sample_filed x(1)] by metis
  have "running (sample_state, [])" using sample_filed by (simp add: running_simp)
  moreover have "overlay_run sample_env True ?txs (sample_state, []) = (Inr rs, (s2, ov))" using b(2) by simp
  ultimately have "length rs = 2" using overlay_run_steps by fastforce
  then have "length (sx_receipts x) = 2" using finish_receipts [OF b(1)] by simp
  moreover obtain s' where "commit_execution sample_env x s1 = (Inr (), s')"
    by (simp add: commit_execution_def persist_accounts_def sample_env_def)
  ultimately show ?thesis using x by (simp add: apply_transactions_atomically_def prepare_transactions_def)
qed

theorem committed_nonces_increase_witness:
  "\<exists>log s' tx tx' rc rc'. committed sample_state log s' \<and> log = [(tx, rc), (tx', rc')] \<and> rc_success rc \<and> rc_success rc' \<and>
     unat (tx_nonce (stx_transaction tx)) < unat (tx_nonce (stx_transaction tx'))"
proof -
  let ?a = "sample_tx TxTransfer (addr 2) 5 0" and ?b = "sample_tx TxTransfer (addr 2) 6 1"
  obtain x s' where x: "apply_transactions_atomically sample_env sorted_list_of_set [?a, ?b] sample_state = (Inr x, s')"
    "rc_success (sx_receipts x ! 0)" "rc_success (sx_receipts x ! 1)" "length (sx_receipts x) = 2"
    using sample_committed by metis
  obtain rc rc' where rs: "sx_receipts x = [rc, rc']" using x(4) by (auto simp: length_Suc_conv numeral_2_eq_2)
  have com: "committed sample_state [(?a, rc), (?b, rc')] s'"
    using committed.block [OF committed.none sample_sorted x(1)] by (simp add: rs)
  have "unat (tx_nonce (stx_transaction ?a)) < unat (tx_nonce (stx_transaction ?b))"
    using x(2,3) by (intro committed_nonces_increase [OF com sample_filed, where i = 0 and j = 1 and rc = rc and rc' = rc'])
      (simp_all add: rs sample_tx_def)
  with com x(2,3) show ?thesis by (auto simp: rs)
qed

section \<open>The invariant over any sequence of operations\<close>

lemma state_new_ok: "filed stored \<Longrightarrow> typed stored \<Longrightarrow> state_ok h (state_manager_new token stored)"
  by (simp add: state_ok_def state_manager_new_def coherent_def)





section \<open>The root of a block and what it binds\<close>



text \<open>The strings hashed for the root of a database: the nodes and leaves of the tree and the accounts.\<close>

definition root_strings :: "(bytes \<Rightarrow> hash) \<Rightarrow> (address, account) btree \<Rightarrow> bytes set" where
  "root_strings h t = tree_strings h (leaf_string (hashed h t)) 256 0 \<union> account_preimage ` snd ` set t"

lemma hashed_keys32: "filed t \<Longrightarrow> typed t \<Longrightarrow> list_all (\<lambda>(a, _). length a = 32) (hashed h t)"
  by (fastforce simp: list_all_iff hashed_def filed_def typed_def account_wf_def)

lemma last_hash_hashed: "filed t \<Longrightarrow> last_hash (hashed h t) a = map_option (account_hash h) (map_of t a)"
proof -
  assume f: "filed t"
  have "map fst (hashed h t) = map fst t" by (simp add: hashed_def case_prod_unfold)
  then have "last_hash (hashed h t) a = map_of (hashed h t) a"
    using filed_distinct [OF f] map_of_inject_set [of "rev (hashed h t)" "hashed h t"]
    by (simp add: last_hash_def flip: rev_map)
  also have "\<dots> = map_option (account_hash h) (map_of t a)"
    using map_of_map [of "account_hash h" t] by (simp add: hashed_def)
  finally show ?thesis .
qed

lemma typed_absent: "filed t \<Longrightarrow> typed t \<Longrightarrow> length a \<noteq> 32 \<Longrightarrow> map_of t a = None"
proof (rule ccontr)
  assume t: "filed t" "typed t" "length a \<noteq> 32" "map_of t a \<noteq> None"
  then obtain x where x: "map_of t a = Some x" by blast
  show False using t(3) typed_lookup [OF t(2) x] filed_lookup [OF t(1) x] by (simp add: account_wf_def)
qed

text \<open>C4: Two state managers that compute the same state root hold the same accounts, unless two different strings hashed
  for the two roots have the same SHA3-256 value.\<close>

theorem equal_roots_equal_accounts:
  assumes h: "\<And>b. length (h b) = 32" "se_hash env = h" and ok: "state_ok h s" "state_ok h s'"
    and root: "compute_state_root env s = (Inr root, s1)" "compute_state_root env s' = (Inr root, s1')"
  shows "st_stored s = st_stored s' \<or> collision h (root_strings h (st_stored s)) (root_strings h (st_stored s'))"
proof (rule disjCI)
  assume nc: "\<not> collision h (root_strings h (st_stored s)) (root_strings h (st_stored s'))"
  have f: "filed (st_stored s)" "filed (st_stored s')" "typed (st_stored s)" "typed (st_stored s')"
    using ok by (simp_all add: state_ok_def)
  have eq: "sparse_merkle_root h (hashed h (st_stored s)) = sparse_merkle_root h (hashed h (st_stored s'))"
    using full_root_ok [of env s "Inr root" s1] full_root_ok [of env s' "Inr root" s1'] root ok h(2)
    by (simp add: compute_state_root_def)
  have "map_of (st_stored s) a = map_of (st_stored s') a" for a
  proof (cases "length a = 32")
    case True
    have "last_hash (hashed h (st_stored s)) a = last_hash (hashed h (st_stored s')) a"
      using state_root_binding [OF h(1) hashed_keys32 [OF f(1,3)] hashed_keys32 [OF f(2,4)] eq True] nc
      by (auto simp: root_strings_def dest: collision_mono [OF _ Un_upper1 Un_upper1])
    then have hash: "map_option (account_hash h) (map_of (st_stored s) a) = map_option (account_hash h) (map_of (st_stored s') a)"
      by (simp add: last_hash_hashed f)
    have same: "x = y" if xy: "map_of (st_stored s) a = Some x" "map_of (st_stored s') a = Some y" for x y
    proof -
      have "account_preimage x \<in> root_strings h (st_stored s)" "account_preimage y \<in> root_strings h (st_stored s')"
        using xy by (force simp: root_strings_def dest: map_of_SomeD)+
      moreover have "h (account_preimage x) = h (account_preimage y)" using hash xy by (simp add: account_hash_def)
      ultimately have "account_preimage x = account_preimage y" using nc unfolding collision_def by blast
      then show ?thesis using xy f typed_lookup account_preimage_inject by blast
    qed
    show ?thesis
    proof (cases "map_of (st_stored s) a")
      case None
      with hash show ?thesis by simp
    next
      case (Some x)
      then obtain y where y: "map_of (st_stored s') a = Some y" using hash by (cases "map_of (st_stored s') a") simp_all
      from same [OF Some y] Some y show ?thesis by simp
    qed
  next
    case False
    then show ?thesis using typed_absent [OF f(1,3)] typed_absent [OF f(2,4)] by simp
  qed
  then show "st_stored s = st_stored s'" using f by (intro btree_ext) (auto simp: filed_def)
qed

definition sample_state_poor :: "(unit, unit) state_manager" where
  "sample_state_poor = state_manager_new [] [(addr 1, account_new (addr 1))]"

lemma sample_states_ok [simp]: "state_ok (\<lambda>_. addr 1) sample_state" "state_ok (\<lambda>_. addr 1) sample_state_poor"
  by (auto simp: sample_defs sample_state_poor_def filed_def btree_ok_def typed_def account_wf_def addr_def
      intro!: state_new_ok [unfolded state_manager_new_def])

theorem equal_roots_equal_accounts_witness:
  "collision (\<lambda>_. addr 1) (root_strings (\<lambda>_. addr 1) (st_stored sample_state))
     (root_strings (\<lambda>_. addr 1) (st_stored sample_state_poor))"
proof -
  have root: "sparse_merkle_root (\<lambda>_. addr 1) ahs = addr 1" if "list_all (\<lambda>(a, _). length a = 32) ahs" for ahs
  proof -
    have "full_tree (\<lambda>_. addr 1) leaf (Suc n) i = addr 1" for leaf n i by (simp add: smt_hash_node_def)
    from this [of _ 255] show ?thesis using that by (simp add: sparse_merkle_root_full_tree)
  qed
  have computed: "\<exists>s1. compute_state_root sample_env s = (Inr (addr 1), s1)"
    if "state_ok (\<lambda>_. addr 1) s" for s :: "(unit, unit) state_manager"
  proof -
    obtain r s1 where c: "compute_full_state_root sample_env s = (Inr r, s1)"
      by (simp add: compute_full_state_root_def sample_env_def Let_def)
    have "r = addr 1"
      using full_root_ok [OF _ c] that root [OF hashed_keys32, of "st_stored s" "\<lambda>_. addr 1"]
      by (simp add: state_ok_def sample_env_def)
    with c show ?thesis by (simp add: compute_state_root_def)
  qed
  obtain s1 s2 where "compute_state_root sample_env sample_state = (Inr (addr 1), s1)"
    "compute_state_root sample_env sample_state_poor = (Inr (addr 1), s2)" using computed sample_states_ok by metis
  moreover have "st_stored sample_state \<noteq> st_stored sample_state_poor" by (simp add: sample_defs sample_state_poor_def)
  moreover have "se_hash sample_env = (\<lambda>_. addr 1)" "\<And>b. length ((\<lambda>_. addr 1) b) = 32" by (simp_all add: sample_env_def addr_def)
  ultimately show ?thesis using equal_roots_equal_accounts [of "\<lambda>_. addr 1" sample_env, OF _ _ sample_states_ok] by blast
qed

section \<open>Where execution goes wrong\<close>

lemma persist_two:
  assumes "persist_accounts env [x, y] s = (Inr u, s')" "acc_address x = acc_address y"
  shows "map_of (st_stored s') (acc_address y) = Some y"
  using assms by (auto simp: persist_store store_account_def cache_account_def split: option.splits)





lemma map_sum_Inr: "map_sum f id r = Inr u \<longleftrightarrow> r = Inr u"
  by (cases r) simp_all

lemma register_validator_committee:
  assumes "register_validator env t x s = (Inr x', s')" "st_committee s = Some cm"
  shows "\<exists>v cm'. val_address v = tx_from t \<and> cm_add_validator (se_committee_disk_ok env) v cm = (Inr (), cm') \<and>
    st_committee s' = Some cm'"
proof -
  obtain v c cm' where "validator_new (tx_from t) (tx_public_key t) (tx_amount t) (take (min (length (tx_data t)) 256) (tx_data t)) = Inr v"
    "cm_add_validator (se_committee_disk_ok env) (v\<lparr>val_commission_rate := c\<rparr>) cm = (Inr (), cm')" "st_committee s' = Some cm'"
    using assms by (auto simp: register_validator_def Let_def map_sum_Inr
        split: if_splits or_return_splits prod.splits option.splits)
  moreover from this(1) have "val_address (v\<lparr>val_commission_rate := c\<rparr>) = tx_from t"
    by (auto simp: validator_new_def split: if_splits)
  ultimately show ?thesis by blast
qed

text \<open>Simulating a validator registration, which is meant to leave no trace, adds the validator to the committee
  manager.\<close>

theorem simulation_registers_validator:
  assumes s: "coherent s" "filed (st_stored s)" and cm: "st_committee s = Some cm"
    and run: "simulate_transactions env iter [tx] s = (Inr x, s')" "rc_success (sx_receipts x ! 0)"
    and t: "tx_type (stx_transaction tx) = TxValidatorRegister"
  shows "\<exists>v cm'. val_address v = tx_from (stx_transaction tx) \<and>
    cm_add_validator (se_committee_disk_ok env) v cm = (Inr (), cm') \<and> st_committee s' = Some cm'"
proof -
  have keep: "st_committee s2 = st_committee s1" if "get_account env a s1 = (r, s2)" for a s1 r s2
    using that by (auto simp: get_account_def split: option.splits if_splits)
  obtain s1 ov rs where b: "finish_execution env rs (s1, ov) = (Inr x, s')"
    "overlay_run env False [tx] (s, []) = (Inr rs, (s1, ov))"
    using block_overlay [OF s run(1) [unfolded simulate_transactions_def]] by (metis One_nat_def length_Cons list.size(3) one_le_numeral)
  have c: "st_committee s' = st_committee s1"
    using b(1) by (auto simp: finish_execution_def compute_state_root_with_overlay_def load_account_hash_index_def Let_def
        split: or_return_splits option.splits prod.splits)
  obtain r so rs' where r: "execute_transaction_overlay env False tx (s, []) = (r, so)"
    "overlay_run env False [] so = (Inr rs', (s1, ov))" "rs = (case r of Inr rc \<Rightarrow> rc | Inl e \<Rightarrow> failed_receipt tx e) # rs'"
    using b(2) by (rule overlay_run_Cons)
  have "rc_success (rs ! 0)" using run(2) finish_receipts [OF b(1)] by simp
  with r obtain rc where e: "execute_transaction_overlay env False tx (s, []) = (Inr rc, (s1, ov))"
    by (cases r) simp_all
  then obtain y y' s2 s3 where reg: "register_validator env (stx_transaction tx) y s2 = (Inr y', s3)"
    "st_committee s2 = Some cm" "st_committee s1 = st_committee s3"
    using t cm by (auto simp: execute_transaction_overlay_def validate_transaction_against_overlay_def overlay_account_def
        overlay_effect_def Let_def dest!: keep split: prod.splits or_return_splits)
  from register_validator_committee [OF reg(1,2)] show ?thesis by (simp add: c reg(3))
qed

definition register_tx :: signed_transaction where
  "register_tx = (let tx = sample_tx TxValidatorRegister (addr 1) 40 0
     in tx\<lparr>stx_transaction := (stx_transaction tx)\<lparr>tx_data := addr 5\<rparr>\<rparr>)"

definition sample_state_committee :: "(unit, unit) state_manager" where
  "sample_state_committee = set_committee_manager (committee_manager_new None Map.empty 1 1) sample_state"

theorem simulation_registers_validator_witness:
  "\<exists>x s' cm'. simulate_transactions sample_env sorted_list_of_set [register_tx] sample_state_committee = (Inr x, s') \<and>
     st_committee s' = Some cm' \<and> map val_address (vs_validators (cm_validator_set cm')) = [addr 1]"
proof -
  let ?cm = "committee_manager_new None Map.empty 1 1"
  have ok: "coherent sample_state_committee" "filed (st_stored sample_state_committee)"
    "st_committee sample_state_committee = Some ?cm" "tx_type (stx_transaction register_tx) = TxValidatorRegister"
    using sample_filed
    by (simp_all add: sample_state_committee_def set_committee_manager_def coherent_def register_tx_def sample_tx_def)
  have "\<exists>rs s ov. overlay_run sample_env False [register_tx] (sample_state_committee, []) = (Inr rs, (s, ov)) \<and>
      rc_success (rs ! 0) \<and> st_index s = None"
    by (simp add: execute_transaction_overlay_def register_validator_def add_stake_def validator_new_def register_tx_def
        sample_state_committee_def set_committee_manager_def cm_add_validator_def add_validator_def committee_manager_new_def
        MIN_VRF_KEY_SIZE_def MAX_VRF_KEY_SIZE_def MAX_VALIDATORS_def validator_set_new_def list_all_iff sample_defs exec_defs max_value_def)
  then obtain rs s ov where run: "overlay_run sample_env False [register_tx] (sample_state_committee, []) = (Inr rs, (s, ov))"
    "rc_success (rs ! 0)" "st_index s = None" by blast
  have "se_iter_error sample_env = None" by (simp add: sample_env_def)
  then obtain x s' where "finish_execution sample_env rs (s, ov) = (Inr x, s')" "sx_receipts x = rs"
    using finish_succeeds run(3) by metis
  with run have x: "simulate_transactions sample_env sorted_list_of_set [register_tx] sample_state_committee = (Inr x, s')"
    "rc_success (sx_receipts x ! 0)"
    by (simp_all add: simulate_transactions_def execute_transactions_overlay_def execute_transactions_overlay_sequential_def
        del: overlay_run.simps)
  obtain v cm' where "val_address v = tx_from (stx_transaction register_tx)"
    "cm_add_validator (se_committee_disk_ok sample_env) v ?cm = (Inr (), cm')" "st_committee s' = Some cm'"
    using simulation_registers_validator [OF ok(1-3) x ok(4)] by blast
  with x show ?thesis
    by (auto simp: cm_add_validator_def add_validator_def committee_manager_new_def register_tx_def sample_tx_def
        validator_set_new_def Let_def split: if_splits or_return_splits)
qed

end
