(* ===== verification/Wallet.thy ===== *)
theory Wallet
  imports State_Exec
begin

text \<open>
  The wallet library (\<open>quantos-wallet-core/src/lib.rs\<close>) and the textual addresses of the node
  (\<open>types/mod.rs\<close>): key handling, the builders of signed transactions, and the \<open>qts1\<close> address format.

  ML-DSA-65, SHA3-256, the crates \<open>hex\<close>, \<open>data_encoding\<close> and \<open>bincode\<close> and the clock are parameters, fields
  of \<open>wallet_env\<close>.  The JSON object a builder returns is the record of its two fields.  Strings are ASCII.
\<close>

section \<open>Parameters\<close>

record wallet_env =
  we_hash :: "bytes \<Rightarrow> hash"
  we_public_key :: "bytes \<Rightarrow> bytes"
  we_sign :: "bytes \<Rightarrow> bytes \<Rightarrow> bytes"
  we_verify :: "bytes \<Rightarrow> bytes \<Rightarrow> bytes \<Rightarrow> bool option"
  we_hex_encode :: "bytes \<Rightarrow> string"
  we_hex_decode :: "string \<Rightarrow> string + bytes"
  we_base32_encode :: "bytes \<Rightarrow> string"
  we_base32_decode :: "string \<Rightarrow> string + bytes"
  we_serialize :: "signed_transaction \<Rightarrow> string + bytes"
  we_serialized_size :: "transaction \<Rightarrow> nat option"
  we_timestamp_millis :: u64

definition SEED_SIZE :: nat where "SEED_SIZE = 32"
definition PUBLICKEYBYTES :: nat where "PUBLICKEYBYTES = 1952"
definition SIGNATUREBYTES :: nat where "SIGNATUREBYTES = 3309"

section \<open>Text\<close>

text \<open>\<open>str::strip_prefix\<close>.\<close>

definition strip_prefix :: "string \<Rightarrow> string \<Rightarrow> string option" where
  "strip_prefix p s = (if take (length p) s = p then Some (drop (length p) s) else None)"

definition ascii_upper :: "char \<Rightarrow> char" where
  "ascii_upper c = (let n = of_char c :: nat in if 97 \<le> n \<and> n \<le> 122 then char_of (n - 32) else c)"

definition ascii_lower :: "char \<Rightarrow> char" where
  "ascii_lower c = (let n = of_char c :: nat in if 65 \<le> n \<and> n \<le> 90 then char_of (n + 32) else c)"

text \<open>\<open>str::parse\<close> at type \<open>u128\<close>, with the texts of its errors: an optional plus sign and decimal digits.\<close>

definition digit_of :: "char \<Rightarrow> nat option" where
  "digit_of c = (let n = of_char c :: nat in if 48 \<le> n \<and> n \<le> 57 then Some (n - 48) else None)"

fun parse_digits :: "string \<Rightarrow> u128 \<Rightarrow> string + u128" where
  "parse_digits [] result = Inr result"
| "parse_digits (c # cs) result =
    (case digit_of c of
       None \<Rightarrow> Inl ''invalid digit found in string''
     | Some d \<Rightarrow>
         (case Option.bind (checked_mul result 10) (\<lambda>m. checked_add m (of_nat d)) of
            None \<Rightarrow> Inl ''number too large to fit in target type''
          | Some n \<Rightarrow> parse_digits cs n))"

definition parse_u128 :: "string \<Rightarrow> string + u128" where
  "parse_u128 s =
    (if s = [] then Inl ''cannot parse integer from empty string'' else
     if s = ''+'' \<or> s = ''-'' then Inl ''invalid digit found in string'' else
     parse_digits (unwrap_or (strip_prefix ''+'' s) s) 0)"

section \<open>Keys and signing data\<close>

definition invalid_seed :: "bytes \<Rightarrow> string" where
  "invalid_seed seed =
    ''Invalid seed length: '' @ decimal (length seed) @ '' (expected '' @ decimal SEED_SIZE @ '')''"

definition derive_public_key :: "wallet_env \<Rightarrow> bytes \<Rightarrow> string + bytes" where
  "derive_public_key env seed =
    (if length seed \<noteq> SEED_SIZE then Inl (invalid_seed seed) else Inr (we_public_key env seed))"

definition sign_with_seed :: "wallet_env \<Rightarrow> bytes \<Rightarrow> bytes \<Rightarrow> string + (bytes \<times> bytes)" where
  "sign_with_seed env seed signing_data =
    (if length seed \<noteq> SEED_SIZE then Inl (invalid_seed seed)
     else Inr (we_sign env seed signing_data, we_public_key env seed))"

definition wallet_with_domain :: "bytes \<Rightarrow> bytes \<Rightarrow> bytes" where
  "wallet_with_domain domain message = to_le_bytes (of_nat (length domain) :: u16) @ domain @ message"

definition WALLET_DOMAIN_TX :: bytes where "WALLET_DOMAIN_TX = ascii ''QUANTOS_TX_V1''"

definition wallet_signing_data :: "transaction \<Rightarrow> bytes" where
  "wallet_signing_data t =
    wallet_with_domain WALLET_DOMAIN_TX
      ([transaction_type_u8 (tx_type t)] @ tx_from t @ tx_to t @ to_le_bytes (tx_amount t) @
       to_le_bytes (tx_nonce t) @ to_le_bytes (tx_max_compute_units t) @
       (case tx_boost t of
          Some boost \<Rightarrow> to_le_bytes (boost_locked boost) @ to_le_bytes (boost_lock_duration_blocks boost)
        | None \<Rightarrow> to_le_bytes (0 :: u64) @ to_le_bytes (0 :: u64)) @
       [vm_kind_u8 (tx_vm_kind t)] @ tx_data t @ to_le_bytes (tx_shard_id t) @
       to_le_bytes (tx_timestamp t) @ to_le_bytes (tx_chain_id t))"

definition wallet_hash :: "wallet_env \<Rightarrow> transaction \<Rightarrow> hash" where
  "wallet_hash env t = we_hash env (wallet_signing_data t)"

text \<open>\<open>target_shard\<close>, called with a number of shards that is not zero.\<close>

definition wallet_target_shard :: "address \<Rightarrow> u16 \<Rightarrow> u16" where
  "wallet_target_shard a num_shards = ucast ((from_le_bytes (take 8 a) :: u64) mod ucast num_shards)"

definition wallet_signed_new :: "wallet_env \<Rightarrow> transaction \<Rightarrow> signed_transaction" where
  "wallet_signed_new env t =
    \<lparr> stx_transaction = t, stx_hash = wallet_hash env t, stx_size = unwrap_or (we_serialized_size env t) 0 \<rparr>"

section \<open>Addresses as text\<close>

definition encode_qts_address :: "wallet_env \<Rightarrow> address \<Rightarrow> string" where
  "encode_qts_address env a =
    (let addr_bytes = take 20 a; checksum = we_hash env addr_bytes
     in ''qts1'' @ map ascii_lower (we_base32_encode env (addr_bytes @ take 4 checksum)))"

definition decode_qts_address :: "wallet_env \<Rightarrow> string \<Rightarrow> string + address" where
  "decode_qts_address env s =
    (if take 4 s \<noteq> ''qts1'' then Inl ''Invalid Quantos address: must start with qts1'' else
     and_then (map_err (\<lambda>e. ''Invalid base32: '' @ e) (we_base32_decode env (map ascii_upper (drop 4 s))))
       (\<lambda>decoded.
     if length decoded \<noteq> 24 then Inl ''Invalid address length'' else
     let addr_bytes = take 20 decoded; checksum_bytes = drop 20 decoded in
     if checksum_bytes \<noteq> take 4 (we_hash env addr_bytes) then Inl ''Invalid checksum''
     else Inr (addr_bytes @ replicate 12 0)))"

text \<open>The node has the same two functions with other error texts.\<close>

definition address_to_qts :: "wallet_env \<Rightarrow> address \<Rightarrow> string" where
  "address_to_qts env a =
    (let addr_bytes = take 20 a; checksum = we_hash env addr_bytes
     in ''qts1'' @ map ascii_lower (we_base32_encode env (addr_bytes @ take 4 checksum)))"

definition qts_to_address :: "wallet_env \<Rightarrow> string \<Rightarrow> string + address" where
  "qts_to_address env s =
    (if take 4 s \<noteq> ''qts1'' then Inl ''Invalid Quantos address: must start with qts1'' else
     and_then (map_err (\<lambda>e. ''Invalid base32 encoding: '' @ e) (we_base32_decode env (map ascii_upper (drop 4 s))))
       (\<lambda>decoded.
     if length decoded \<noteq> 24
     then Inl (''Invalid address length: expected 24 bytes, got '' @ decimal (length decoded)) else
     let addr_bytes = take 20 decoded; checksum_bytes = drop 20 decoded in
     if checksum_bytes \<noteq> take 4 (we_hash env addr_bytes) then Inl ''Invalid address checksum''
     else Inr (addr_bytes @ replicate 12 0)))"

definition shorten_qts_address :: "string \<Rightarrow> string" where
  "shorten_qts_address s =
    (if length s \<le> 15 then s else take 8 s @ ''...'' @ drop (length s - 6) s)"

definition hex_to_hash :: "wallet_env \<Rightarrow> string \<Rightarrow> string + hash" where
  "hex_to_hash env s =
    and_then (map_err (\<lambda>e. ''Invalid hex string: '' @ e) (we_hex_decode env s)) (\<lambda>b.
    if length b \<noteq> 32 then Inl (''Invalid hash length: expected 32 bytes, got '' @ decimal (length b)) else Inr b)"

definition parse_address_hex :: "wallet_env \<Rightarrow> string \<Rightarrow> string + address" where
  "parse_address_hex env s =
    (let hex_str = (case strip_prefix ''QTS:'' s of
           Some r \<Rightarrow> r
         | None \<Rightarrow> (case strip_prefix ''qts:'' s of
               Some r \<Rightarrow> r
             | None \<Rightarrow> unwrap_or (strip_prefix ''0x'' s) s)) in
     and_then (map_err (\<lambda>e. ''Invalid address hex: '' @ e) (we_hex_decode env hex_str)) (\<lambda>b.
     if length b = 32 then Inr b else Inl ''Invalid address length (expected 32 bytes)''))"

section \<open>Builders of signed transactions\<close>

record signed_result =
  sr_tx_hex :: string
  sr_tx_hash :: string

text \<open>What every builder does with the secret key and the fields that differ: derive the sender, choose the shard,
  fill in the transaction.\<close>

definition draft ::
  "wallet_env \<Rightarrow> bytes \<Rightarrow> transaction_type \<Rightarrow> address option \<Rightarrow> amount \<Rightarrow> u64 \<Rightarrow> u64 \<Rightarrow> bytes \<Rightarrow> u64 \<Rightarrow> u16 \<Rightarrow>
    string + transaction" where
  "draft env seed ty to amount nonce max_compute_units data chain_id num_shards =
    and_then (derive_public_key env seed) (\<lambda>pk_bytes.
    let from = we_hash env pk_bytes;
        num_shards = (if num_shards = 0 then 1 else num_shards);
        shard_id = wallet_target_shard from num_shards in
    Inr \<lparr> tx_type = ty, tx_from = from, tx_to = unwrap_or to from, tx_amount = amount, tx_nonce = nonce,
          tx_max_compute_units = max_compute_units, tx_boost = None, tx_vm_kind = Qvm, tx_data = data,
          tx_shard_id = shard_id, tx_timestamp = we_timestamp_millis env, tx_signature = [], tx_public_key = [],
          tx_chain_id = chain_id \<rparr>)"

definition sign_transaction :: "wallet_env \<Rightarrow> bytes \<Rightarrow> transaction \<Rightarrow> string + signed_transaction" where
  "sign_transaction env seed t =
    and_then (sign_with_seed env seed (wallet_signing_data t)) (\<lambda>(sig, pk).
    Inr (wallet_signed_new env (t\<lparr>tx_signature := sig, tx_public_key := pk\<rparr>)))"

definition encode_transaction :: "wallet_env \<Rightarrow> string \<Rightarrow> signed_transaction \<Rightarrow> string + signed_result" where
  "encode_transaction env label stx =
    and_then (map_err (\<lambda>e. label @ e) (we_serialize env stx)) (\<lambda>tx_bytes.
    Inr \<lparr> sr_tx_hex = we_hex_encode env tx_bytes, sr_tx_hash = we_hex_encode env (stx_hash stx) \<rparr>)"

definition decode_secret :: "wallet_env \<Rightarrow> string \<Rightarrow> string + bytes" where
  "decode_secret env secret_key_hex =
    map_err (\<lambda>e. ''Invalid secret key hex: '' @ e) (we_hex_decode env secret_key_hex)"

definition parse_amount :: "string \<Rightarrow> string + u128" where
  "parse_amount amount_str = map_err (\<lambda>e. ''Invalid amount: '' @ e) (parse_u128 amount_str)"

text \<open>Hexadecimal data with an optional \<open>0x\<close>.\<close>

definition decode_prefixed :: "wallet_env \<Rightarrow> string \<Rightarrow> string \<Rightarrow> string + bytes" where
  "decode_prefixed env label s = map_err (\<lambda>e. label @ e) (we_hex_decode env (unwrap_or (strip_prefix ''0x'' s) s))"

definition decode_optional :: "wallet_env \<Rightarrow> string \<Rightarrow> string \<Rightarrow> string + bytes" where
  "decode_optional env label s = (if s = [] then Inr [] else decode_prefixed env label s)"

definition check_seed :: "bytes \<Rightarrow> string + unit" where
  "check_seed seed = (if length seed \<noteq> SEED_SIZE then Inl (invalid_seed seed) else Inr ())"

definition build_signed_transfer ::
  "wallet_env \<Rightarrow> string \<Rightarrow> string \<Rightarrow> string \<Rightarrow> u64 \<Rightarrow> u64 \<Rightarrow> u16 \<Rightarrow> string + signed_result" where
  "build_signed_transfer env secret_key_hex to_hex amount_str nonce chain_id num_shards =
    and_then (decode_secret env secret_key_hex) (\<lambda>sk_bytes.
    and_then (parse_address_hex env to_hex) (\<lambda>to.
    and_then (parse_amount amount_str) (\<lambda>amount.
    and_then (draft env sk_bytes TxTransfer (Some to) amount nonce 21000 [] chain_id num_shards) (\<lambda>t.
    and_then (sign_transaction env sk_bytes t) (encode_transaction env ''Bincode error: '')))))"

definition build_signed_stake ::
  "wallet_env \<Rightarrow> string \<Rightarrow> string \<Rightarrow> u64 \<Rightarrow> u64 \<Rightarrow> u16 \<Rightarrow> string + signed_result" where
  "build_signed_stake env secret_key_hex amount_str nonce chain_id num_shards =
    and_then (decode_secret env secret_key_hex) (\<lambda>sk_bytes.
    and_then (parse_amount amount_str) (\<lambda>amount.
    and_then (draft env sk_bytes TxStake None amount nonce 21000 [] chain_id num_shards) (\<lambda>t.
    and_then (sign_transaction env sk_bytes t) (encode_transaction env ''Bincode: ''))))"

definition build_signed_unstake ::
  "wallet_env \<Rightarrow> string \<Rightarrow> string \<Rightarrow> u64 \<Rightarrow> u64 \<Rightarrow> u16 \<Rightarrow> string + signed_result" where
  "build_signed_unstake env secret_key_hex amount_str nonce chain_id num_shards =
    and_then (decode_secret env secret_key_hex) (\<lambda>sk_bytes.
    and_then (parse_amount amount_str) (\<lambda>amount.
    and_then (draft env sk_bytes TxUnstake None amount nonce 21000 [] chain_id num_shards) (\<lambda>t.
    and_then (sign_transaction env sk_bytes t) (encode_transaction env ''Bincode: ''))))"

definition build_signed_stake_transfer ::
  "wallet_env \<Rightarrow> string \<Rightarrow> string \<Rightarrow> string \<Rightarrow> u64 \<Rightarrow> u64 \<Rightarrow> u16 \<Rightarrow> string + signed_result" where
  "build_signed_stake_transfer env secret_key_hex to_hex amount_str nonce chain_id num_shards =
    and_then (decode_secret env secret_key_hex) (\<lambda>sk_bytes.
    and_then (parse_address_hex env to_hex) (\<lambda>to.
    and_then (parse_amount amount_str) (\<lambda>amount.
    and_then (draft env sk_bytes TxStakeTransfer (Some to) amount nonce 21000 [] chain_id num_shards) (\<lambda>t.
    and_then (sign_transaction env sk_bytes t) (encode_transaction env ''Bincode: '')))))"

definition build_signed_validator_register ::
  "wallet_env \<Rightarrow> string \<Rightarrow> string \<Rightarrow> string \<Rightarrow> u64 \<Rightarrow> u64 \<Rightarrow> u16 \<Rightarrow> string + signed_result" where
  "build_signed_validator_register env secret_key_hex validator_data_hex amount_str nonce chain_id num_shards =
    and_then (decode_secret env secret_key_hex) (\<lambda>sk_bytes.
    and_then (parse_amount amount_str) (\<lambda>amount.
    and_then (decode_optional env ''Invalid validator data hex: '' validator_data_hex) (\<lambda>data.
    and_then (draft env sk_bytes TxValidatorRegister None amount nonce 21000 data chain_id num_shards) (\<lambda>t.
    and_then (sign_transaction env sk_bytes t) (encode_transaction env ''Bincode: '')))))"

definition build_signed_validator_exit ::
  "wallet_env \<Rightarrow> string \<Rightarrow> u64 \<Rightarrow> u64 \<Rightarrow> u16 \<Rightarrow> string + signed_result" where
  "build_signed_validator_exit env secret_key_hex nonce chain_id num_shards =
    and_then (decode_secret env secret_key_hex) (\<lambda>sk_bytes.
    and_then (draft env sk_bytes TxValidatorExit None 0 nonce 21000 [] chain_id num_shards) (\<lambda>t.
    and_then (sign_transaction env sk_bytes t) (encode_transaction env ''Bincode: '')))"

definition deploy_data :: "bytes \<Rightarrow> bytes \<Rightarrow> bytes" where
  "deploy_data bytecode constructor_data =
    ascii ''QDP1'' @ to_le_bytes (of_nat (length bytecode) :: u32) @
    to_le_bytes (of_nat (length constructor_data) :: u32) @ bytecode @ constructor_data"

definition build_signed_deploy ::
  "wallet_env \<Rightarrow> string \<Rightarrow> string \<Rightarrow> string \<Rightarrow> u64 \<Rightarrow> u64 \<Rightarrow> u16 \<Rightarrow> string + signed_result" where
  "build_signed_deploy env secret_key_hex bytecode_hex constructor_data_hex nonce chain_id num_shards =
    and_then (decode_secret env secret_key_hex) (\<lambda>sk_bytes.
    and_then (check_seed sk_bytes) (\<lambda>_.
    and_then (decode_prefixed env ''Invalid bytecode hex: '' bytecode_hex) (\<lambda>bytecode.
    and_then (decode_optional env ''Invalid constructor data hex: '' constructor_data_hex) (\<lambda>constructor_data.
    and_then (draft env sk_bytes TxContractDeploy (Some (replicate 32 0)) 0 nonce 10000000
       (deploy_data bytecode constructor_data) chain_id num_shards) (\<lambda>t.
    and_then (sign_transaction env sk_bytes t) (encode_transaction env ''Bincode: ''))))))"

definition build_signed_contract_call ::
  "wallet_env \<Rightarrow> string \<Rightarrow> string \<Rightarrow> string \<Rightarrow> string \<Rightarrow> u64 \<Rightarrow> u64 \<Rightarrow> u16 \<Rightarrow> string + signed_result" where
  "build_signed_contract_call env secret_key_hex contract_address_hex calldata_hex amount_str nonce chain_id num_shards =
    and_then (decode_secret env secret_key_hex) (\<lambda>sk_bytes.
    and_then (check_seed sk_bytes) (\<lambda>_.
    and_then (parse_address_hex env contract_address_hex) (\<lambda>to.
    and_then (decode_prefixed env ''Invalid calldata hex: '' calldata_hex) (\<lambda>calldata.
    and_then (parse_amount amount_str) (\<lambda>amount.
    and_then (draft env sk_bytes TxContractCall (Some to) amount nonce 1000000 calldata chain_id num_shards) (\<lambda>t.
    and_then (sign_transaction env sk_bytes t) (encode_transaction env ''Bincode: '')))))))"

section \<open>Messages and keys\<close>

definition sign_message :: "wallet_env \<Rightarrow> string \<Rightarrow> string \<Rightarrow> string + string" where
  "sign_message env message_hex secret_key_hex =
    and_then (map_err (\<lambda>e. ''Invalid message hex: '' @ e) (we_hex_decode env message_hex)) (\<lambda>msg.
    and_then (decode_secret env secret_key_hex) (\<lambda>sk_bytes.
    if length sk_bytes \<noteq> SEED_SIZE
    then Inl (''Invalid seed length (expected '' @ decimal SEED_SIZE @ '' bytes)'')
    else Inr (we_hex_encode env (we_sign env sk_bytes msg))))"

definition verify_signature :: "wallet_env \<Rightarrow> string \<Rightarrow> string \<Rightarrow> string \<Rightarrow> string + bool" where
  "verify_signature env signature_hex message_hex public_key_hex =
    and_then (map_err (\<lambda>e. ''Invalid sig hex: '' @ e) (we_hex_decode env signature_hex)) (\<lambda>sig_bytes.
    and_then (map_err (\<lambda>e. ''Invalid msg hex: '' @ e) (we_hex_decode env message_hex)) (\<lambda>msg.
    and_then (map_err (\<lambda>e. ''Invalid pk hex: '' @ e) (we_hex_decode env public_key_hex)) (\<lambda>pk_bytes.
    if length sig_bytes \<noteq> SIGNATUREBYTES
    then Inl (''Invalid signature length (expected '' @ decimal SIGNATUREBYTES @ '' bytes)'') else
    if length pk_bytes \<noteq> PUBLICKEYBYTES
    then Inl (''Invalid public key length (expected '' @ decimal PUBLICKEYBYTES @ '' bytes)'') else
    ok_or (we_verify env pk_bytes msg sig_bytes) ''Invalid signature'')))"

record key_info =
  ki_address :: string
  ki_public_key :: string
  ki_qts_address :: string

definition address_from_secret_key :: "wallet_env \<Rightarrow> string \<Rightarrow> string + key_info" where
  "address_from_secret_key env secret_key_hex =
    and_then (map_err (\<lambda>e. ''Invalid hex: '' @ e) (we_hex_decode env secret_key_hex)) (\<lambda>sk_bytes.
    if length sk_bytes \<noteq> SEED_SIZE
    then Inl (''Invalid seed length (expected '' @ decimal SEED_SIZE @ '' bytes)'') else
    and_then (derive_public_key env sk_bytes) (\<lambda>pk_bytes.
    let address = we_hash env pk_bytes in
    Inr \<lparr> ki_address = we_hex_encode env address, ki_public_key = we_hex_encode env pk_bytes,
          ki_qts_address = encode_qts_address env address \<rparr>))"

text \<open>\<open>seed\<close> is what the library generated.\<close>

definition generate_keypair :: "wallet_env \<Rightarrow> bytes \<Rightarrow> key_info \<times> string" where
  "generate_keypair env seed =
    (let pk_bytes = we_public_key env seed; address = we_hash env pk_bytes in
     (\<lparr> ki_address = we_hex_encode env address, ki_public_key = we_hex_encode env pk_bytes,
        ki_qts_address = encode_qts_address env address \<rparr>, we_hex_encode env seed))"

definition wallet_address_to_qts :: "wallet_env \<Rightarrow> string \<Rightarrow> string + string" where
  "wallet_address_to_qts env address_hex =
    and_then (parse_address_hex env address_hex) (\<lambda>a. Inr (encode_qts_address env a))"

definition wallet_qts_to_address :: "wallet_env \<Rightarrow> string \<Rightarrow> string + string" where
  "wallet_qts_to_address env s = and_then (decode_qts_address env s) (\<lambda>a. Inr (we_hex_encode env a))"

definition qts_to_rpc_format :: "wallet_env \<Rightarrow> string \<Rightarrow> string + string" where
  "qts_to_rpc_format env s = and_then (decode_qts_address env s) (\<lambda>a. Inr (''QTS:'' @ we_hex_encode env a))"

definition sha3_hash :: "wallet_env \<Rightarrow> string \<Rightarrow> string + string" where
  "sha3_hash env data_hex =
    and_then (map_err (\<lambda>e. ''Invalid hex: '' @ e) (we_hex_decode env data_hex)) (\<lambda>data.
    Inr (we_hex_encode env (we_hash env data)))"

section \<open>The node's side\<close>

definition MAX_TX_SIZE :: nat where "MAX_TX_SIZE = 1024 * 1024"

text \<open>The decoding part of \<open>send_raw_transaction\<close>; the errors are given by their texts.\<close>

definition decode_raw_transaction ::
  "wallet_env \<Rightarrow> (bytes \<Rightarrow> string + signed_transaction) \<Rightarrow> string \<Rightarrow> string + signed_transaction" where
  "decode_raw_transaction env deserialize tx_hex =
    (let tx_hex = (case strip_prefix ''QTS:'' tx_hex of
           Some r \<Rightarrow> r
         | None \<Rightarrow> unwrap_or (strip_prefix ''0x'' tx_hex) tx_hex) in
     and_then (map_err (\<lambda>_. ''Invalid hex encoding'') (we_hex_decode env tx_hex)) (\<lambda>tx_bytes.
     if length tx_bytes > MAX_TX_SIZE then Inl ''Transaction too large'' else
     map_err (\<lambda>_. ''Invalid transaction format'') (deserialize tx_bytes)))"

section \<open>Lemmas\<close>

lemma wallet_signing_data_agrees: "wallet_signing_data t = tx_signing_data t"
  by (simp add: wallet_signing_data_def wallet_with_domain_def WALLET_DOMAIN_TX_def tx_signing_data_def tx_message_def
      with_domain_def DOMAIN_TX_def)

lemma wallet_target_shard_agrees: "num_shards \<noteq> 0 \<Longrightarrow> target_shard a num_shards = Some (wallet_target_shard a num_shards)"
  by (simp add: target_shard_def wallet_target_shard_def)

lemma wallet_hash_agrees: "wallet_signed_new env t = signed_transaction_new (we_hash env) (we_serialized_size env) t"
  by (simp add: wallet_signed_new_def wallet_hash_def signed_transaction_new_def tx_hash_def wallet_signing_data_agrees)

text \<open>The signature is over fields that signing leaves alone.\<close>

lemma signing_data_unsigned [simp]:
  "tx_signing_data (t\<lparr>tx_signature := sig, tx_public_key := pk\<rparr>) = tx_signing_data t"
  by (simp add: tx_signing_data_def tx_message_def)

lemma draft_Inr:
  assumes "draft env seed ty to amount nonce cu data chain shards = Inr t"
  shows "length seed = 32 \<and> tx_type t = ty \<and> tx_from t = we_hash env (we_public_key env seed) \<and>
    tx_to t = unwrap_or to (tx_from t) \<and> tx_amount t = amount \<and> tx_nonce t = nonce \<and> tx_data t = data \<and> tx_vm_kind t = Qvm"
  using assms by (auto simp: draft_def derive_public_key_def and_then_eq_Inr SEED_SIZE_def Let_def split: if_splits)

lemma sign_transaction_Inr:
  assumes "sign_transaction env seed t = Inr stx"
  shows "length seed = 32 \<and>
    stx_transaction stx = t\<lparr>tx_signature := we_sign env seed (tx_signing_data t), tx_public_key := we_public_key env seed\<rparr> \<and>
    stx_hash stx = tx_hash (we_hash env) (stx_transaction stx)"
  using assms
  by (auto simp: sign_transaction_def sign_with_seed_def and_then_eq_Inr SEED_SIZE_def wallet_hash_agrees
      signed_transaction_new_def wallet_signing_data_agrees split: if_splits)

text \<open>Hexadecimal text carries none of the prefixes.\<close>

lemma strip_prefix_subset: "strip_prefix p s \<noteq> None \<Longrightarrow> set p \<subseteq> set s"
  unfolding strip_prefix_def by (metis set_take_subset)

lemma strip_prefix_foreign: "c \<in> set p \<Longrightarrow> c \<notin> set s \<Longrightarrow> strip_prefix p s = None"
  using strip_prefix_subset [of p s] by blast

lemma strip_prefix_hex:
  assumes "set s \<subseteq> set ''0123456789abcdef''"
  shows "strip_prefix ''QTS:'' s = None" "strip_prefix ''qts:'' s = None" "strip_prefix ''0x'' s = None"
proof -
  have "CHR '':'' \<notin> set s" "CHR ''x'' \<notin> set s" using assms by (fastforce dest: subsetD)+
  then show "strip_prefix ''QTS:'' s = None" "strip_prefix ''qts:'' s = None" "strip_prefix ''0x'' s = None"
    using strip_prefix_foreign [of "CHR '':''"] strip_prefix_foreign [of "CHR ''x''"] by simp_all
qed

lemma upper_lower:
  assumes "of_char c \<in> {50..55 :: nat} \<union> {65..90}"
  shows "ascii_upper (ascii_lower c) = c"
  using assms by (auto simp: ascii_upper_def ascii_lower_def Let_def)

lemma u32_bytes: "n < 2 ^ 32 \<Longrightarrow> unat (from_le_bytes (to_le_bytes (of_nat n :: u32)) :: u32) = n"
  by (simp add: from_to_le_bytes unat_of_nat take_bit_nat_eq_self)

lemma decode_deploy_data:
  assumes "length b < 2 ^ 32" "length c < 2 ^ 32"
  shows "decode_contract_deploy_payload (deploy_data b c) = (if b = [] then Inl ''Invalid bytecode'' else Inr (b, c))"
proof -
  let ?d = "deploy_data b c"
  have magic: "take 4 ?d = CONTRACT_DEPLOY_PAYLOAD_MAGIC" "length ?d = 12 + length b + length c"
    by (simp_all add: deploy_data_def CONTRACT_DEPLOY_PAYLOAD_MAGIC_def ascii_def)
  have lens: "take 4 (drop 4 ?d) = to_le_bytes (of_nat (length b) :: u32)"
    "take 4 (drop 8 ?d) = to_le_bytes (of_nat (length c) :: u32)" "drop 12 ?d = b @ c"
    by (simp_all add: deploy_data_def ascii_def)
  have "CONTRACT_DEPLOY_PAYLOAD_MAGIC \<noteq> 0 # ascii ''asm''" by (simp add: CONTRACT_DEPLOY_PAYLOAD_MAGIC_def ascii_def)
  moreover have "drop (12 + length b) ?d = c" using lens(3) by (metis add.commute append_eq_conv_conj drop_drop)
  ultimately show ?thesis
    using assms by (simp add: decode_contract_deploy_payload_def magic lens u32_bytes USIZE_MAX_def Let_def)
qed

section \<open>Laws of the libraries\<close>

text \<open>What the documentation of \<open>hex\<close> promises of \<open>encode\<close>, and of \<open>data_encoding::BASE32_NOPAD\<close>.\<close>

definition hex_laws :: "wallet_env \<Rightarrow> bool" where
  "hex_laws env \<longleftrightarrow>
    (\<forall>b. we_hex_decode env (we_hex_encode env b) = Inr b \<and> length (we_hex_encode env b) = 2 * length b \<and>
         set (we_hex_encode env b) \<subseteq> set ''0123456789abcdef'')"

definition base32_laws :: "wallet_env \<Rightarrow> bool" where
  "base32_laws env \<longleftrightarrow>
    (\<forall>b. we_base32_decode env (we_base32_encode env b) = Inr b \<and>
         (\<forall>c \<in> set (we_base32_encode env b). of_char c \<in> {50..55 :: nat} \<union> {65..90}))"

text \<open>A signature made with a seed verifies under its public key, and both programs hash alike.\<close>

definition key_laws :: "wallet_env \<Rightarrow> ('q, 'e) state_env \<Rightarrow> bool" where
  "key_laws env node \<longleftrightarrow>
    se_hash node = we_hash env \<and>
    (\<forall>seed message. length seed = 32 \<longrightarrow>
       se_verify node (we_public_key env seed) message (we_sign env seed message) = Inr True)"

text \<open>What any builder may have returned for a nonce.\<close>

inductive wallet_built :: "wallet_env \<Rightarrow> u64 \<Rightarrow> signed_result \<Rightarrow> bool" for env nonce where
  transfer: "build_signed_transfer env key to amount nonce chain shards = Inr sr \<Longrightarrow> wallet_built env nonce sr"
| stake: "build_signed_stake env key amount nonce chain shards = Inr sr \<Longrightarrow> wallet_built env nonce sr"
| unstake: "build_signed_unstake env key amount nonce chain shards = Inr sr \<Longrightarrow> wallet_built env nonce sr"
| stake_transfer:
    "build_signed_stake_transfer env key to amount nonce chain shards = Inr sr \<Longrightarrow> wallet_built env nonce sr"
| validator_register:
    "build_signed_validator_register env key data amount nonce chain shards = Inr sr \<Longrightarrow> wallet_built env nonce sr"
| validator_exit: "build_signed_validator_exit env key nonce chain shards = Inr sr \<Longrightarrow> wallet_built env nonce sr"
| deploy: "build_signed_deploy env key code constructor nonce chain shards = Inr sr \<Longrightarrow> wallet_built env nonce sr"
| contract_call:
    "build_signed_contract_call env key contract calldata amount nonce chain shards = Inr sr \<Longrightarrow> wallet_built env nonce sr"

text \<open>Whatever the builder, the result is a drafted transaction, signed and encoded.\<close>

lemma wallet_built_signed:
  assumes "wallet_built env nonce sr"
  obtains seed t stx label where "sign_transaction env seed t = Inr stx" "encode_transaction env label stx = Inr sr"
    "tx_from t = we_hash env (we_public_key env seed)" "tx_nonce t = nonce"
  using assms
  by cases
    (auto simp: build_signed_transfer_def build_signed_stake_def build_signed_unstake_def build_signed_stake_transfer_def
      build_signed_validator_register_def build_signed_validator_exit_def build_signed_deploy_def
      build_signed_contract_call_def and_then_eq_Inr dest!: draft_Inr)

lemma encoded_received:
  assumes "encode_transaction env label stx = Inr sr" "hex_laws env"
    and "\<And>stx b. we_serialize env stx = Inr b \<Longrightarrow> deserialize b = Inr stx" "length (sr_tx_hex sr) \<le> 2 * MAX_TX_SIZE"
  shows "decode_raw_transaction env deserialize (sr_tx_hex sr) = Inr stx \<and> sr_tx_hash sr = we_hex_encode env (stx_hash stx)"
proof -
  from assms(1) obtain b where b: "we_serialize env stx = Inr b" and sr: "sr = \<lparr>sr_tx_hex = we_hex_encode env b,
      sr_tx_hash = we_hex_encode env (stx_hash stx)\<rparr>"
    by (auto simp: encode_transaction_def and_then_eq_Inr map_err_eq_Inr)
  have "length b \<le> MAX_TX_SIZE" using assms(2,4) sr by (simp add: hex_laws_def)
  moreover have "set (we_hex_encode env b) \<subseteq> set ''0123456789abcdef''" using assms(2) by (simp add: hex_laws_def)
  ultimately show ?thesis
    using assms(2) assms(3) [OF b] sr by (simp add: decode_raw_transaction_def strip_prefix_hex hex_laws_def Let_def)
qed

lemma parse_encoded_address:
  assumes "hex_laws env" "length a = 32"
  shows "parse_address_hex env (we_hex_encode env a) = Inr a"
proof -
  have "set (we_hex_encode env a) \<subseteq> set ''0123456789abcdef''" using assms(1) by (simp add: hex_laws_def)
  then show ?thesis using assms by (simp add: parse_address_hex_def strip_prefix_hex hex_laws_def)
qed

lemma signed_validates:
  assumes "sign_transaction env seed t = Inr stx" "tx_from t = we_hash env (we_public_key env seed)" "key_laws env node"
  shows "check_signed_amount node (stx_transaction stx) =
    (if requires_amount (tx_type t) \<and> tx_amount t < MIN_TRANSACTION_AMOUNT \<or> tx_amount t > MAX_TRANSACTION_AMOUNT
     then Inl InvalidAmount else Inr ())"
  using sign_transaction_Inr [OF assms(1)] assms(2,3)
  by (auto simp: check_signed_amount_def key_laws_def public_key_to_address_def)

lemma qts_decoded:
  assumes "base32_laws env" "length a = 32" "length (we_hash env (take 20 a)) = 32"
  shows "take 4 (encode_qts_address env a) = ''qts1''"
    "we_base32_decode env (map ascii_upper (drop 4 (encode_qts_address env a))) = Inr (take 20 a @ take 4 (we_hash env (take 20 a)))"
proof -
  have "map ascii_upper (map ascii_lower (we_base32_encode env b)) = we_base32_encode env b" for b
    using assms(1) by (simp add: base32_laws_def upper_lower map_idI)
  then show "take 4 (encode_qts_address env a) = ''qts1''"
    "we_base32_decode env (map ascii_upper (drop 4 (encode_qts_address env a))) = Inr (take 20 a @ take 4 (we_hash env (take 20 a)))"
    using assms(1) by (simp_all add: encode_qts_address_def Let_def base32_laws_def)
qed

section \<open>A concrete environment\<close>

definition nibble :: "nat \<Rightarrow> char" where
  "nibble n = ''0123456789abcdef'' ! n"

definition unnibble :: "char \<Rightarrow> nat" where
  "unnibble c = (let n = of_char c in if n \<le> 57 then n - 48 else n - 87)"

definition sample_hex_encode :: "bytes \<Rightarrow> string" where
  "sample_hex_encode b = concat (map (\<lambda>w. [nibble (unat w div 16), nibble (unat w mod 16)]) b)"

fun sample_hex_decode :: "string \<Rightarrow> string + bytes" where
  "sample_hex_decode [] = Inr []"
| "sample_hex_decode [c] = Inl ''Odd number of digits''"
| "sample_hex_decode (c # d # s) =
    and_then (sample_hex_decode s) (\<lambda>b. Inr (of_nat (16 * unnibble c + unnibble d) # b))"

definition letter :: "char \<Rightarrow> char" where
  "letter c = char_of (65 + unnibble c)"

definition unletter :: "char \<Rightarrow> char" where
  "unletter c = nibble (of_char c - 65)"

definition sample_seed :: bytes where "sample_seed = replicate 32 5"

definition sample_stx :: "u64 \<Rightarrow> signed_transaction" where
  "sample_stx n =
    \<lparr> stx_transaction =
        \<lparr> tx_type = TxTransfer, tx_from = addr 1, tx_to = addr 2, tx_amount = 5, tx_nonce = n,
          tx_max_compute_units = 21000, tx_boost = None, tx_vm_kind = Qvm, tx_data = [], tx_shard_id = 0,
          tx_timestamp = 7, tx_signature = [9], tx_public_key = sample_seed, tx_chain_id = 1 \<rparr>,
      stx_hash = addr 1, stx_size = 0 \<rparr>"

definition sample_serialize :: "signed_transaction \<Rightarrow> string + bytes" where
  "sample_serialize stx =
    (let n = tx_nonce (stx_transaction stx) in if stx = sample_stx n then Inr (to_le_bytes n) else Inl ''unsupported'')"

definition sample_deserialize :: "bytes \<Rightarrow> string + signed_transaction" where
  "sample_deserialize b = Inr (sample_stx (from_le_bytes b))"

definition sample_wallet :: wallet_env where
  "sample_wallet =
    \<lparr> we_hash = (\<lambda>_. addr 1), we_public_key = (\<lambda>seed. seed), we_sign = (\<lambda>_ _. [9]), we_verify = (\<lambda>_ _ _. Some True),
      we_hex_encode = sample_hex_encode, we_hex_decode = sample_hex_decode,
      we_base32_encode = (\<lambda>b. map letter (sample_hex_encode b)),
      we_base32_decode = (\<lambda>s. sample_hex_decode (map unletter s)),
      we_serialize = sample_serialize, we_serialized_size = (\<lambda>_. None), we_timestamp_millis = 7 \<rparr>"

lemma nibble_inverse:
  assumes "n < 16"
  shows "unnibble (nibble n) = n" "nibble n \<in> set ''0123456789abcdef''" "unletter (letter (nibble n)) = nibble n"
    "of_char (letter (nibble n)) \<in> {50..55 :: nat} \<union> {65..90}"
proof -
  from assms have "n \<in> set [0..<16]" by simp
  then have "n \<in> set [0, 1, 2, 3, 4, 5, 6, 7, 8, 9, 10, 11, 12, 13, 14, 15]" by (simp add: upt_rec numeral_nat)
  then show "unnibble (nibble n) = n" "nibble n \<in> set ''0123456789abcdef''" "unletter (letter (nibble n)) = nibble n"
    "of_char (letter (nibble n)) \<in> {50..55 :: nat} \<union> {65..90}"
    by (auto simp: nibble_def unnibble_def unletter_def letter_def)
qed

lemma byte_nibbles: "unat (w :: 8 word) div 16 < 16" "unat w mod 16 < 16"
  using unsigned_less [of w, where 'a = nat] by (simp_all add: less_mult_imp_div_less)

lemma sample_hex_roundtrip: "sample_hex_decode (sample_hex_encode b) = Inr b"
  by (induction b) (simp_all add: sample_hex_encode_def nibble_inverse byte_nibbles)

lemma sample_hex_alphabet: "c \<in> set (sample_hex_encode b) \<Longrightarrow> \<exists>n < 16. c = nibble n"
  unfolding sample_hex_encode_def by (auto, (metis byte_nibbles)+)

lemma sample_wallet_laws: "hex_laws sample_wallet" "base32_laws sample_wallet" "key_laws sample_wallet sample_env"
  and sample_bincode: "\<And>stx b. we_serialize sample_wallet stx = Inr b \<Longrightarrow> sample_deserialize b = Inr stx"
proof -
  have "length (sample_hex_encode b) = 2 * length b" for b by (induction b) (simp_all add: sample_hex_encode_def)
  then show "hex_laws sample_wallet"
    by (auto simp: hex_laws_def sample_wallet_def sample_hex_roundtrip dest!: sample_hex_alphabet simp del: set_simps
        intro: nibble_inverse)
  have "map unletter (map letter (sample_hex_encode b)) = sample_hex_encode b" for b
    by (auto intro!: map_idI dest!: sample_hex_alphabet simp: nibble_inverse)
  then show "base32_laws sample_wallet"
    using nibble_inverse(4) sample_hex_alphabet
    by (simp add: base32_laws_def sample_wallet_def sample_hex_roundtrip del: atLeastAtMost_iff Un_iff) blast
  show "key_laws sample_wallet sample_env" by (simp add: key_laws_def sample_wallet_def sample_env_def)
  show "\<And>stx b. we_serialize sample_wallet stx = Inr b \<Longrightarrow> sample_deserialize b = Inr stx"
    by (auto simp: sample_wallet_def sample_serialize_def sample_deserialize_def Let_def from_to_le_bytes split: if_splits)
qed

definition sample_result :: signed_result where
  "sample_result = \<lparr> sr_tx_hex = sample_hex_encode (replicate 8 0), sr_tx_hash = sample_hex_encode (addr 1) \<rparr>"

lemma sample_build:
  "build_signed_transfer sample_wallet (sample_hex_encode sample_seed) (sample_hex_encode (addr 2)) ''5'' 0 1 1 = Inr sample_result"
proof -
  have seed: "decode_secret sample_wallet (sample_hex_encode sample_seed) = Inr sample_seed"
    by (simp add: decode_secret_def sample_wallet_def sample_hex_roundtrip)
  have to: "parse_address_hex sample_wallet (sample_hex_encode (addr 2)) = Inr (addr 2)"
    using parse_encoded_address [OF sample_wallet_laws(1), of "addr 2"] by (simp add: sample_wallet_def addr_def)
  have amount: "parse_amount ''5'' = Inr 5"
    by (simp add: parse_amount_def parse_u128_def strip_prefix_def digit_of_def checked_mul_def checked_add_def
        unwrap_or_def Let_def)
  have shard: "wallet_target_shard (addr 1) 1 = 0" by (simp add: wallet_target_shard_def)
  have bytes: "to_le_bytes (0 :: u64) = replicate 8 0" by code_simp
  have draft: "draft sample_wallet sample_seed TxTransfer (Some (addr 2)) 5 0 21000 [] 1 1 =
      Inr ((stx_transaction (sample_stx 0))\<lparr>tx_signature := [], tx_public_key := []\<rparr>)"
    by (simp add: draft_def derive_public_key_def SEED_SIZE_def sample_wallet_def sample_seed_def sample_stx_def shard)
  have sgn: "sign_transaction sample_wallet sample_seed ((stx_transaction (sample_stx 0))\<lparr>tx_signature := [], tx_public_key := []\<rparr>) =
      Inr (sample_stx 0)"
    by (simp add: sign_transaction_def sign_with_seed_def SEED_SIZE_def wallet_signed_new_def wallet_hash_def
        sample_wallet_def sample_seed_def sample_stx_def unwrap_or_def)
  have "encode_transaction sample_wallet ''Bincode error: '' (sample_stx 0) = Inr sample_result"
    by (simp add: encode_transaction_def sample_wallet_def sample_serialize_def sample_result_def bytes)
      (simp add: sample_stx_def bytes)
  with seed to amount draft sgn show ?thesis by (simp add: build_signed_transfer_def)
qed

section \<open>Properties\<close>



text \<open>C38: A \<open>qts1\<close> address keeps only the first 20 of the 32 bytes of an address: decoding what was encoded succeeds, in the
  wallet and in the node, and yields those bytes followed by zeros, which is the address itself only if it ends with twelve
  zero bytes.\<close>

theorem qts_address_truncates:
  assumes "base32_laws env" "length a = 32" "length (we_hash env (take 20 a)) = 32"
  shows "decode_qts_address env (encode_qts_address env a) = Inr (take 20 a @ replicate 12 0) \<and>
    qts_to_address env (address_to_qts env a) = Inr (take 20 a @ replicate 12 0) \<and>
    (qts_to_address env (address_to_qts env a) = Inr a \<longleftrightarrow> drop 20 a = replicate 12 0)"
proof -
  note d = qts_decoded [OF assms]
  have e: "address_to_qts env a = encode_qts_address env a" by (simp add: address_to_qts_def encode_qts_address_def)
  have wallet: "decode_qts_address env (encode_qts_address env a) = Inr (take 20 a @ replicate 12 0)"
    using assms d by (simp add: decode_qts_address_def Let_def)
  have node: "qts_to_address env (address_to_qts env a) = Inr (take 20 a @ replicate 12 0)"
    using assms d by (simp add: qts_to_address_def Let_def e)
  have "take 20 a @ replicate 12 0 = a \<longleftrightarrow> drop 20 a = replicate 12 0" by (metis append_take_drop_id same_append_eq)
  with wallet node show ?thesis by simp
qed

theorem qts_address_truncates_witness:
  "qts_to_address sample_wallet (address_to_qts sample_wallet (addr 1)) = Inr (replicate 20 1 @ replicate 12 0)"
  using qts_address_truncates [of sample_wallet "addr 1"] sample_wallet_laws by (simp add: sample_wallet_def addr_def)

text \<open>The deploy payload the wallet builds from a bytecode and constructor data shorter than 2^32 bytes is taken apart by the
  node into exactly these two; only an empty bytecode is refused.\<close>

theorem deploy_payload_roundtrip:
  assumes "length bytecode < 2 ^ 32" "length constructor_data < 2 ^ 32"
  shows "decode_contract_deploy_payload (deploy_data bytecode constructor_data) =
    (if bytecode = [] then Inl ''Invalid bytecode'' else Inr (bytecode, constructor_data))"
  using assms by (rule decode_deploy_data)

theorem deploy_payload_roundtrip_witness:
  "decode_contract_deploy_payload (deploy_data [1, 2] [3]) = Inr ([1, 2], [3])"
  using deploy_payload_roundtrip [of "[1, 2]" "[3]"] by simp

end
