(* ===== verification/Relay_Bond.thy ===== *)
theory Relay_Bond
  imports Prelude
begin

text \<open>
  The registry of relay bonds (\<open>l0/relay_bond.rs\<close>): registration, unbonding, withdrawal, slashing, jailing.

  The \<open>DashMap\<close> is a finite map, and calls happen one after the other.  The clock is an argument of every call.
  \<open>withdraw\<close> calls \<open>DashMap::remove\<close> while it holds a reference to the entry; the documentation of that
  crate says that this may deadlock.  Whether it does is the parameter \<open>blocks\<close>, and a call that never
  returns is the pseudo-error \<open>Blocked\<close>.
\<close>

section \<open>Types\<close>

definition MIN_BOND_QTS :: u128 where "MIN_BOND_QTS = 10000 * 10 ^ 18"
definition UNBONDING_PERIOD_SECONDS :: u64 where "UNBONDING_PERIOD_SECONDS = 7 * 24 * 3600"

datatype relay_bond_error =
  InsufficientBond u128 u128
| AlreadyRegistered address
| NotRegistered address
| UnbondingInProgress
| UnbondingNotElapsed u64 u64
| RelayJailed
| NothingToWithdraw
| SelfSlash
| Blocked

datatype relay_bond_status = RelayActive | Unbonding u64 | Withdrawable | StatusJailed

record relay_record =
  rr_address :: address
  rr_bond :: u128
  rr_status :: relay_bond_status
  rr_successful_relays :: u64
  rr_fraud_count :: u64
  rr_last_activity :: u64

type_synonym relay_registry = "address \<rightharpoonup> relay_record"

section \<open>Operations\<close>

definition bond :: "u64 \<Rightarrow> address \<Rightarrow> u128 \<Rightarrow> relay_registry \<Rightarrow> (relay_bond_error + unit) \<times> relay_registry" where
  "bond now a amount reg =
    (if amount < MIN_BOND_QTS then (Inl (InsufficientBond MIN_BOND_QTS amount), reg) else
     if reg a \<noteq> None then (Inl (AlreadyRegistered a), reg) else
     (Inr (), reg(a \<mapsto>
       \<lparr> rr_address = a, rr_bond = amount, rr_status = RelayActive, rr_successful_relays = 0, rr_fraud_count = 0,
         rr_last_activity = now \<rparr>)))"

definition unbond :: "u64 \<Rightarrow> address \<Rightarrow> relay_registry \<Rightarrow> (relay_bond_error + unit) \<times> relay_registry" where
  "unbond now a reg =
    or_return (ok_or (reg a) (NotRegistered a)) reg (\<lambda>entry.
    case rr_status entry of
      RelayActive \<Rightarrow> (Inr (), reg(a \<mapsto> entry\<lparr>rr_status := Unbonding now\<rparr>))
    | Unbonding _ \<Rightarrow> (Inl UnbondingInProgress, reg)
    | Withdrawable \<Rightarrow> (Inl NothingToWithdraw, reg)
    | StatusJailed \<Rightarrow> (Inl RelayJailed, reg))"

definition withdraw ::
  "bool \<Rightarrow> u64 \<Rightarrow> address \<Rightarrow> relay_registry \<Rightarrow> (relay_bond_error + u128) \<times> relay_registry" where
  "withdraw blocks now a reg =
    or_return (ok_or (reg a) (NotRegistered a)) reg (\<lambda>entry.
    case rr_status entry of
      Unbonding request_time \<Rightarrow>
        if now < request_time + UNBONDING_PERIOD_SECONDS then (Inl (UnbondingNotElapsed request_time now), reg)
        else (Inr (rr_bond entry), reg(a \<mapsto> entry\<lparr>rr_status := Withdrawable, rr_bond := 0\<rparr>))
    | Withdrawable \<Rightarrow>
        if blocks then (Inl Blocked, reg(a \<mapsto> entry\<lparr>rr_bond := 0\<rparr>))
        else (Inr (rr_bond entry), reg(a := None))
    | _ \<Rightarrow> (Inl NothingToWithdraw, reg))"

definition slash_bond ::
  "address \<Rightarrow> u128 \<Rightarrow> address \<Rightarrow> relay_registry \<Rightarrow> (relay_bond_error + u128) \<times> relay_registry" where
  "slash_bond a penalty beneficiary reg =
    or_return (ok_or (reg a) (NotRegistered a)) reg (\<lambda>entry.
    let current = rr_bond entry;
        actual_penalty = (if current < penalty then current else penalty);
        entry = entry\<lparr>rr_bond := saturating_sub current actual_penalty, rr_fraud_count := rr_fraud_count entry + 1\<rparr>;
        entry = (if rr_bond entry < MIN_BOND_QTS then entry\<lparr>rr_status := StatusJailed\<rparr> else entry)
    in (Inr actual_penalty, reg(a \<mapsto> entry)))"

definition jail :: "address \<Rightarrow> relay_registry \<Rightarrow> (relay_bond_error + unit) \<times> relay_registry" where
  "jail a reg =
    or_return (ok_or (reg a) (NotRegistered a)) reg (\<lambda>entry.
    (Inr (), reg(a \<mapsto> entry\<lparr>rr_status := StatusJailed\<rparr>)))"

definition unjail :: "address \<Rightarrow> u128 \<Rightarrow> relay_registry \<Rightarrow> (relay_bond_error + unit) \<times> relay_registry" where
  "unjail a required_bond reg =
    or_return (ok_or (reg a) (NotRegistered a)) reg (\<lambda>entry.
    if rr_bond entry < required_bond then (Inl (InsufficientBond required_bond (rr_bond entry)), reg)
    else (Inr (), reg(a \<mapsto> entry\<lparr>rr_status := RelayActive\<rparr>)))"

definition is_whitelisted :: "address \<Rightarrow> relay_registry \<Rightarrow> bool" where
  "is_whitelisted a reg =
    unwrap_or (map_option (\<lambda>r. rr_status r = RelayActive \<and> rr_bond r \<ge> MIN_BOND_QTS) (reg a)) False"

definition get_relay :: "address \<Rightarrow> relay_registry \<Rightarrow> relay_record option" where
  "get_relay a reg = reg a"

definition relay_count :: "relay_registry \<Rightarrow> nat" where
  "relay_count reg = card (dom reg)"

definition record_success :: "u64 \<Rightarrow> address \<Rightarrow> relay_registry \<Rightarrow> relay_registry" where
  "record_success now a reg =
    (case reg a of
       None \<Rightarrow> reg
     | Some r \<Rightarrow> reg(a \<mapsto> r\<lparr>rr_successful_relays := rr_successful_relays r + 1, rr_last_activity := now\<rparr>))"

section \<open>Runs\<close>

text \<open>A call, with the time at which it is made.  The result of a call is an amount, zero where the method returns
  nothing; a call that never returns ends the run.\<close>

datatype relay_call =
  CBond address u128 | CUnbond address | CWithdraw address | CSlash address u128 address
| CJail address | CUnjail address u128 | CSuccess address

definition no_amount :: "(relay_bond_error + unit) \<times> relay_registry \<Rightarrow> (relay_bond_error + u128) \<times> relay_registry" where
  "no_amount r = (case r of (Inl e, reg) \<Rightarrow> (Inl e, reg) | (Inr _, reg) \<Rightarrow> (Inr 0, reg))"

fun relay_exec :: "bool \<Rightarrow> u64 \<Rightarrow> relay_call \<Rightarrow> relay_registry \<Rightarrow> (relay_bond_error + u128) \<times> relay_registry" where
  "relay_exec blocks now (CBond a b) reg = no_amount (bond now a b reg)"
| "relay_exec blocks now (CUnbond a) reg = no_amount (unbond now a reg)"
| "relay_exec blocks now (CWithdraw a) reg = withdraw blocks now a reg"
| "relay_exec blocks now (CSlash a p b) reg = slash_bond a p b reg"
| "relay_exec blocks now (CJail a) reg = no_amount (jail a reg)"
| "relay_exec blocks now (CUnjail a b) reg = no_amount (unjail a b reg)"
| "relay_exec blocks now (CSuccess a) reg = (Inr 0, record_success now a reg)"

text \<open>What a call brings in and what it pays out or burns.\<close>

fun deposited :: "relay_call \<Rightarrow> relay_bond_error + u128 \<Rightarrow> nat" where
  "deposited (CBond a b) (Inr _) = unat b"
| "deposited _ _ = 0"

fun released :: "relay_call \<Rightarrow> relay_bond_error + u128 \<Rightarrow> nat" where
  "released _ (Inl _) = 0"
| "released c (Inr amount) = unat amount"

text \<open>Runs from the empty registry, with the calls made (latest first) and the totals.\<close>

inductive relay_run :: "bool \<Rightarrow> (u64 \<times> relay_call) list \<Rightarrow> nat \<Rightarrow> nat \<Rightarrow> relay_registry \<Rightarrow> bool" for blocks where
  start: "relay_run blocks [] 0 0 Map.empty"
| call: "relay_run blocks calls paid_in paid_out reg \<Longrightarrow> relay_exec blocks now c reg = (r, reg') \<Longrightarrow> r \<noteq> Inl Blocked \<Longrightarrow>
    relay_run blocks ((now, c) # calls) (paid_in + deposited c r) (paid_out + released c r) reg'"

section \<open>Invariant\<close>

text \<open>Records are filed under their address; a withdrawn relay has no bond left; an unbonding one made its request
  at the recorded time.\<close>

definition bonds :: "relay_registry \<Rightarrow> address \<Rightarrow> u128 option" where
  "bonds reg = map_option rr_bond \<circ> reg"

definition relay_ok :: "(u64 \<times> relay_call) list \<Rightarrow> relay_registry \<Rightarrow> bool" where
  "relay_ok calls reg \<longleftrightarrow> finite (dom reg) \<and>
    (\<forall>a r. reg a = Some r \<longrightarrow> rr_address r = a \<and> (rr_status r = Withdrawable \<longrightarrow> rr_bond r = 0) \<and>
      (\<forall>t. rr_status r = Unbonding t \<longrightarrow> (t, CUnbond a) \<in> set calls))"

definition held :: "relay_registry \<Rightarrow> nat" where
  "held reg = val_sum (bonds reg)"

lemma bonds_upd [simp]: "bonds (reg(a \<mapsto> r)) = (bonds reg)(a \<mapsto> rr_bond r)" "bonds (reg(a := None)) = (bonds reg)(a := None)"
  by (auto simp: bonds_def)

lemma dom_bonds [simp]: "dom (bonds reg) = dom reg"
  by (auto simp: bonds_def)

lemma held_upd: "finite (dom reg) \<Longrightarrow> held (reg(a \<mapsto> r)) + unat (unwrap_or (bonds reg a) 0) = held reg + unat (rr_bond r)"
  unfolding held_def bonds_upd by (rule val_sum_upd) simp

lemma held_del: "finite (dom reg) \<Longrightarrow> held (reg(a := None)) + unat (unwrap_or (bonds reg a) 0) = held reg"
  unfolding held_def bonds_upd by (rule val_sum_del) simp

lemma relay_okD:
  "relay_ok calls reg \<Longrightarrow> reg a = Some r \<Longrightarrow> rr_address r = a \<and> (rr_status r = Withdrawable \<longrightarrow> rr_bond r = 0) \<and>
    (\<forall>t. rr_status r = Unbonding t \<longrightarrow> (t, CUnbond a) \<in> set calls)"
  by (simp add: relay_ok_def)

lemma relay_ok_upd:
  assumes "relay_ok calls reg" "set calls \<subseteq> set calls'" "rr_address r = a" "rr_status r = Withdrawable \<Longrightarrow> rr_bond r = 0"
    "\<And>t. rr_status r = Unbonding t \<Longrightarrow> (t, CUnbond a) \<in> set calls'"
  shows "relay_ok calls' (reg(a \<mapsto> r))"
  using assms by (auto simp: relay_ok_def)

lemma relay_ok_more: "relay_ok calls reg \<Longrightarrow> relay_ok (c # calls) reg"
  by (auto simp: relay_ok_def)

lemma relay_ok_del: "relay_ok calls reg \<Longrightarrow> relay_ok (c # calls) (reg(a := None))"
  by (auto simp: relay_ok_def)

lemmas relay_defs = bond_def unbond_def withdraw_def slash_bond_def jail_def unjail_def record_success_def no_amount_def

text \<open>The four ways in which a call that returns can change the registry.\<close>

inductive relay_change :: "u64 \<Rightarrow> relay_call \<Rightarrow> relay_bond_error + u128 \<Rightarrow> relay_registry \<Rightarrow> relay_registry \<Rightarrow> bool"
  for now c r reg where
  same: "deposited c r = 0 \<Longrightarrow> released c r = 0 \<Longrightarrow> relay_change now c r reg reg"
| added: "reg a = None \<Longrightarrow> rr_address e = a \<Longrightarrow> rr_status e = RelayActive \<Longrightarrow> deposited c r = unat (rr_bond e) \<Longrightarrow>
    released c r = 0 \<Longrightarrow> relay_change now c r reg (reg(a \<mapsto> e))"
| changed: "reg a = Some e \<Longrightarrow> rr_address e' = rr_address e \<Longrightarrow> deposited c r = 0 \<Longrightarrow>
    unat (rr_bond e') + released c r = unat (rr_bond e) \<Longrightarrow>
    (rr_status e' = Withdrawable \<Longrightarrow> rr_bond e' = 0 \<or> rr_status e = Withdrawable) \<Longrightarrow>
    (\<And>t. rr_status e' = Unbonding t \<Longrightarrow> rr_status e = Unbonding t \<or> c = CUnbond a \<and> t = now) \<Longrightarrow>
    relay_change now c r reg (reg(a \<mapsto> e'))"
| deleted: "reg a = Some e \<Longrightarrow> deposited c r = 0 \<Longrightarrow> released c r = unat (rr_bond e) \<Longrightarrow>
    relay_change now c r reg (reg(a := None))"

lemma changed_at:
  "reg a \<noteq> None \<Longrightarrow> rr_address e' = rr_address (the (reg a)) \<Longrightarrow> deposited c r = 0 \<Longrightarrow>
    unat (rr_bond e') + released c r = unat (rr_bond (the (reg a))) \<Longrightarrow>
    (rr_status e' = Withdrawable \<Longrightarrow> rr_bond e' = 0 \<or> rr_status (the (reg a)) = Withdrawable) \<Longrightarrow>
    (\<And>t. rr_status e' = Unbonding t \<Longrightarrow> rr_status (the (reg a)) = Unbonding t \<or> c = CUnbond a \<and> t = now) \<Longrightarrow>
    relay_change now c r reg (reg(a \<mapsto> e'))"
  by (rule changed [of reg a "the (reg a)"]) auto

lemma deleted_at:
  "reg a \<noteq> None \<Longrightarrow> deposited c r = 0 \<Longrightarrow> released c r = unat (rr_bond (the (reg a))) \<Longrightarrow>
    relay_change now c r reg (reg(a := None))"
  by (rule deleted [of reg a "the (reg a)"]) auto

lemma relay_exec_change:
  assumes "relay_exec blocks now c reg = (r, reg')" "r \<noteq> Inl Blocked"
  shows "relay_change now c r reg reg'"
proof (cases c)
  case (CBond a b)
  then show ?thesis using assms by (auto simp: relay_defs split: if_splits intro!: same added)
next
  case (CUnbond a)
  then show ?thesis using assms
    by (cases "reg a") (auto simp: relay_defs split: relay_bond_status.splits intro!: same changed_at)
next
  case (CWithdraw a)
  then show ?thesis using assms
    by (cases "reg a") (auto simp: relay_defs split: relay_bond_status.splits if_splits intro!: same changed_at deleted_at)
next
  case (CSlash a p b)
  then show ?thesis using assms
    by (cases "reg a") (auto simp: relay_defs Let_def unat_saturating_sub word_less_nat_alt split: if_splits intro!: same changed_at)
next
  case (CJail a)
  then show ?thesis using assms by (cases "reg a") (auto simp: relay_defs intro!: same changed_at)
next
  case (CUnjail a b)
  then show ?thesis using assms by (cases "reg a") (auto simp: relay_defs split: if_splits intro!: same changed_at)
next
  case (CSuccess a)
  then show ?thesis using assms by (cases "reg a") (auto simp: relay_defs intro!: same changed_at)
qed

lemma relay_change_ok:
  assumes "relay_change now c r reg reg'" "relay_ok calls reg"
  shows "relay_ok ((now, c) # calls) reg'"
  using assms
proof cases
  case (changed a e e')
  note e = relay_okD [OF assms(2) changed(2)]
  have "rr_status e' = Withdrawable \<Longrightarrow> rr_bond e' = 0" using changed(5,6) e by (auto simp: unat_eq_0)
  with changed e show ?thesis by (auto intro!: relay_ok_upd [OF assms(2)])
qed (auto intro: relay_ok_more relay_ok_del intro!: relay_ok_upd)

lemma relay_change_held:
  assumes "relay_change now c r reg reg'" "relay_ok calls reg"
  shows "held reg' + released c r = held reg + deposited c r"
proof -
  have fin: "finite (dom reg)" using assms(2) by (simp add: relay_ok_def)
  from assms(1) show ?thesis
  proof cases
    case (added a e)
    then show ?thesis using held_upd [OF fin, of a e] by (simp add: bonds_def)
  next
    case (changed a e e')
    then show ?thesis using held_upd [OF fin, of a e'] by (simp add: bonds_def)
  next
    case (deleted a e)
    then show ?thesis using held_del [OF fin, of a] by (simp add: bonds_def)
  qed simp
qed

lemma relay_run_ok: "relay_run blocks calls i out reg \<Longrightarrow> relay_ok calls reg \<and> i = held reg + out"
proof (induction rule: relay_run.induct)
  case (call calls i out reg now c r reg')
  note change = relay_exec_change [OF call(2,3)]
  show ?case using relay_change_ok [OF change] relay_change_held [OF change] call.IH by auto
qed (simp add: relay_ok_def held_def bonds_def comp_def)

text \<open>A jailed relay stays jailed until somebody unjails it.\<close>

definition jailed :: "address \<Rightarrow> relay_registry \<Rightarrow> bool" where
  "jailed a reg \<longleftrightarrow> (\<exists>e. reg a = Some e \<and> rr_status e = StatusJailed)"

fun unjails :: "address \<Rightarrow> relay_call \<Rightarrow> bool" where
  "unjails a (CUnjail b _) = (a = b)"
| "unjails a _ = False"

definition relay_after :: "bool \<Rightarrow> u64 \<times> relay_call \<Rightarrow> relay_registry \<Rightarrow> relay_registry" where
  "relay_after blocks tc reg = snd (relay_exec blocks (fst tc) (snd tc) reg)"

lemma jailed_stays:
  assumes "jailed a reg" "\<not> unjails a c"
  shows "jailed a (snd (relay_exec blocks now c reg))"
proof -
  from assms(1) obtain e where e: "reg a = Some e" "rr_status e = StatusJailed" by (auto simp: jailed_def)
  show ?thesis
  proof (cases c)
    case (CSlash b p x)
    then show ?thesis using e by (cases "reg b") (auto simp: jailed_def relay_defs Let_def)
  next
    case (CWithdraw b)
    then show ?thesis using e
      by (cases "reg b") (auto simp: jailed_def relay_defs split: relay_bond_status.splits)
  next
    case (CUnbond b)
    then show ?thesis using e
      by (cases "reg b") (auto simp: jailed_def relay_defs split: relay_bond_status.splits)
  qed (use assms(2) e in \<open>auto simp: jailed_def relay_defs split: option.splits or_return_splits prod.splits sum.splits\<close>)
qed

interpretation relay_jail: op_system "relay_after blocks" "\<lambda>tc. \<not> unjails a (snd tc)" "jailed a" for blocks a
  by unfold_locales (simp add: relay_after_def jailed_stays)

section \<open>Properties\<close>

text \<open>Over every sequence of calls, at any times, the bonds paid in are exactly the bonds held plus what was paid out or
  slashed: no call makes or loses a unit of a bond.\<close>

theorem relay_bonds_conserved:
  assumes "relay_run blocks calls paid_in paid_out reg"
  shows "paid_in = held reg + paid_out"
  using relay_run_ok [OF assms] by simp

text \<open>C39: A bond is paid out only if its owner asked for it at least seven days before (INV-B2 of the source), whatever
  else was called, as long as the clock is seven days short of its last value.\<close>

theorem relay_bond_delay:
  assumes "relay_run blocks calls paid_in paid_out reg" "withdraw blocks now a reg = (Inr amount, reg')" "amount \<noteq> 0"
    and "\<forall>(t, c) \<in> set calls. unat t + unat UNBONDING_PERIOD_SECONDS < 2 ^ 64"
  shows "\<exists>t. (t, CUnbond a) \<in> set calls \<and> unat t + 7 * 24 * 3600 \<le> unat now"
proof -
  from relay_run_ok [OF assms(1)] have ok: "relay_ok calls reg" ..
  from assms(2) obtain e where e: "reg a = Some e" by (cases "reg a") (auto simp: withdraw_def)
  with assms(2,3) relay_okD [OF ok e] obtain t where t: "rr_status e = Unbonding t" "t + UNBONDING_PERIOD_SECONDS \<le> now"
    by (auto simp: withdraw_def split: relay_bond_status.splits if_splits)
  then have call: "(t, CUnbond a) \<in> set calls" using relay_okD [OF ok e] by blast
  with assms(4) have "unat t + unat UNBONDING_PERIOD_SECONDS < 2 ^ 64" by blast
  then have "unat (t + UNBONDING_PERIOD_SECONDS) = unat t + unat UNBONDING_PERIOD_SECONDS"
    by (intro unat_add_no_overflow) simp
  with t(2) call show ?thesis by (auto simp: word_le_nat_alt UNBONDING_PERIOD_SECONDS_def)
qed

text \<open>After a relay is jailed it is not whitelisted (INV-B3 of the source), whatever is called at whatever times, until
  it is unjailed.\<close>

theorem jailed_not_whitelisted:
  assumes "jail a reg = (Inr (), reg')" "list_all (\<lambda>tc. \<not> unjails a (snd tc)) calls"
  shows "\<not> is_whitelisted a (fold (relay_after blocks) calls reg')"
proof -
  have "jailed a reg'" using assms(1) by (cases "reg a") (auto simp: jailed_def jail_def)
  from relay_jail.run_invar [OF this assms(2), of blocks] show ?thesis by (auto simp: jailed_def is_whitelisted_def)
qed

text \<open>When removing an entry under a live reference blocks, a relay that withdrew its bond can never be deregistered:
  the second \<open>withdraw\<close> does not return, and a new bond is refused because the address is still registered.\<close>

theorem relay_deregistration_blocks:
  assumes "reg a = Some e" "rr_status e = Unbonding t" "withdraw True now a reg = (Inr amount, reg')" "MIN_BOND_QTS \<le> b"
  shows "fst (withdraw True later a reg') = Inl Blocked \<and> fst (bond later a b reg') = Inl (AlreadyRegistered a)"
  using assms by (auto simp: withdraw_def bond_def split: if_splits)

definition sample_calls :: "(u64 \<times> relay_call) list" where
  "sample_calls = [(5, CUnbond (addr 1)), (0, CBond (addr 1) MIN_BOND_QTS)]"

definition sample_relay :: "relay_bond_status \<Rightarrow> relay_record" where
  "sample_relay st =
    \<lparr> rr_address = addr 1, rr_bond = MIN_BOND_QTS, rr_status = st, rr_successful_relays = 0, rr_fraud_count = 0,
      rr_last_activity = 0 \<rparr>"

lemma sample_relay_run: "relay_run True sample_calls (unat MIN_BOND_QTS) 0 [addr 1 \<mapsto> sample_relay (Unbonding 5)]"
proof -
  let ?b = "[addr 1 \<mapsto> sample_relay RelayActive]"
  have "relay_exec True 0 (CBond (addr 1) MIN_BOND_QTS) Map.empty = (Inr 0, ?b)"
    by (simp add: relay_defs sample_relay_def)
  from call [OF start this] have run: "relay_run True [(0, CBond (addr 1) MIN_BOND_QTS)] (unat MIN_BOND_QTS) 0 ?b" by simp
  have "relay_exec True 5 (CUnbond (addr 1)) ?b = (Inr 0, [addr 1 \<mapsto> sample_relay (Unbonding 5)])"
    by (simp add: relay_defs sample_relay_def)
  from call [OF run this] show ?thesis by (simp add: sample_calls_def)
qed

theorem relay_bonds_conserved_witness:
  "relay_run True sample_calls (unat MIN_BOND_QTS) 0 [addr 1 \<mapsto> sample_relay (Unbonding 5)] \<and>
   unat MIN_BOND_QTS = held [addr 1 \<mapsto> sample_relay (Unbonding 5)] + 0"
  using sample_relay_run relay_bonds_conserved [OF sample_relay_run] by simp

theorem relay_bond_delay_witness:
  "\<exists>t. (t, CUnbond (addr 1)) \<in> set sample_calls \<and> unat t + 7 * 24 * 3600 \<le> unat (604805 :: u64)"
  by (rule relay_bond_delay [OF sample_relay_run, of 604805 "addr 1" MIN_BOND_QTS
        "[addr 1 \<mapsto> (sample_relay Withdrawable)\<lparr>rr_bond := 0\<rparr>]"])
    (simp_all add: withdraw_def sample_relay_def UNBONDING_PERIOD_SECONDS_def MIN_BOND_QTS_def sample_calls_def)

theorem jailed_not_whitelisted_witness:
  "\<not> is_whitelisted (addr 1) (fold (relay_after True) [(7, CSuccess (addr 1))] [addr 1 \<mapsto> sample_relay StatusJailed])"
  by (rule jailed_not_whitelisted [of _ "[addr 1 \<mapsto> sample_relay RelayActive]"]) (simp_all add: jail_def sample_relay_def)

theorem relay_deregistration_blocks_witness:
  "fst (withdraw True 9 (addr 1) [addr 1 \<mapsto> (sample_relay Withdrawable)\<lparr>rr_bond := 0\<rparr>]) = Inl Blocked \<and>
   fst (bond 9 (addr 1) MIN_BOND_QTS [addr 1 \<mapsto> (sample_relay Withdrawable)\<lparr>rr_bond := 0\<rparr>]) = Inl (AlreadyRegistered (addr 1))"
  by (rule relay_deregistration_blocks [of "[addr 1 \<mapsto> sample_relay (Unbonding 5)]" _ "sample_relay (Unbonding 5)" 5
        604805 MIN_BOND_QTS]) (simp_all add: withdraw_def sample_relay_def UNBONDING_PERIOD_SECONDS_def)

end
