(* ===== verification/Validator_Delta.thy ===== *)
theory Validator_Delta
  imports Bytes "HOL-Library.AList" "HOL-Library.Multiset"
begin

text \<open>
  Deltas between validator sets of external chains (\<open>l0/validator_set_delta.rs\<close>): computing the difference of two
  sets, applying it, and its wire format.

  A slice index out of range panics and is \<open>None\<close>.  The \<open>HashMap\<close> of \<open>compute\<close> is an association list with distinct
  keys; the order in which it is drained does not matter, because the indices are sorted afterwards.
\<close>

section \<open>Types\<close>

record l0_validator_set =
  vs_pubkeys :: "bytes list"
  vs_stakes :: "u64 list"
  vs_threshold_bps :: u16

record validator_set_delta =
  vd_added_pubkeys :: "bytes list"
  vd_added_stakes :: "u64 list"
  vd_removed_indices :: "nat list"
  vd_threshold_bps :: "u16 option"

section \<open>Computing a delta\<close>

text \<open>Indexing that panics out of range.\<close>

definition index :: "'a list \<Rightarrow> nat \<Rightarrow> 'a option" where
  "index xs i = (if i < length xs then Some (xs ! i) else None)"

type_synonym base_map = "(bytes \<times> (nat \<times> u64)) list"

fun build_base_map :: "l0_validator_set \<Rightarrow> bytes list \<Rightarrow> nat \<Rightarrow> base_map \<Rightarrow> base_map option" where
  "build_base_map base [] i m = Some m"
| "build_base_map base (pk # pks) i m =
    Option.bind (index (vs_stakes base) i) (\<lambda>stake. build_base_map base pks (Suc i) (AList.update pk (i, stake) m))"

text \<open>The loop over the new keys: what is left of the base map, the keys and stakes added, the indices removed.\<close>

type_synonym delta_acc = "base_map \<times> bytes list \<times> u64 list \<times> nat list"

fun diff_loop :: "l0_validator_set \<Rightarrow> bytes list \<Rightarrow> nat \<Rightarrow> delta_acc \<Rightarrow> delta_acc option" where
  "diff_loop new [] i acc = Some acc"
| "diff_loop new (pk # pks) i (m, pubkeys, stakes, removed) =
    (case map_of m pk of
       Some (idx, old_stake) \<Rightarrow>
         Option.bind (index (vs_stakes new) i) (\<lambda>stake.
         if old_stake \<noteq> stake
         then diff_loop new pks (Suc i) (AList.delete pk m, pubkeys @ [pk], stakes @ [stake], removed @ [idx])
         else diff_loop new pks (Suc i) (AList.delete pk m, pubkeys, stakes, removed))
     | None \<Rightarrow>
         Option.bind (index (vs_stakes new) i) (\<lambda>stake.
         diff_loop new pks (Suc i) (m, pubkeys @ [pk], stakes @ [stake], removed)))"

definition compute :: "l0_validator_set \<Rightarrow> l0_validator_set \<Rightarrow> validator_set_delta option" where
  "compute base new =
    Option.bind (build_base_map base (vs_pubkeys base) 0 []) (\<lambda>m.
    Option.bind (diff_loop new (vs_pubkeys new) 0 (m, [], [], [])) (\<lambda>(m, pubkeys, stakes, removed).
    Some \<lparr> vd_added_pubkeys = pubkeys, vd_added_stakes = stakes,
           vd_removed_indices = rev (sort (removed @ map (\<lambda>(_, idx, _). idx) m)),
           vd_threshold_bps =
             (if vs_threshold_bps base \<noteq> vs_threshold_bps new then Some (vs_threshold_bps new) else None) \<rparr>))"

section \<open>Applying a delta\<close>

text \<open>\<open>Vec::swap_remove\<close>: the last element takes the place of the removed one.\<close>

definition swap_remove :: "nat \<Rightarrow> 'a list \<Rightarrow> 'a list option" where
  "swap_remove i xs = (if i < length xs then Some (butlast (xs[i := last xs])) else None)"

fun remove_loop :: "nat list \<Rightarrow> bytes list \<times> u64 list \<Rightarrow> (bytes list \<times> u64 list) option" where
  "remove_loop [] acc = Some acc"
| "remove_loop (idx # idxs) (pubkeys, stakes) =
    (if idx < length pubkeys
     then Option.bind (swap_remove idx pubkeys) (\<lambda>pubkeys.
          Option.bind (swap_remove idx stakes) (\<lambda>stakes. remove_loop idxs (pubkeys, stakes)))
     else remove_loop idxs (pubkeys, stakes))"

definition apply_delta :: "validator_set_delta \<Rightarrow> l0_validator_set \<Rightarrow> l0_validator_set option" where
  "apply_delta d base =
    map_option (\<lambda>(pubkeys, stakes).
      let added = zip (vd_added_pubkeys d) (vd_added_stakes d) in
      \<lparr> vs_pubkeys = pubkeys @ map fst added, vs_stakes = stakes @ map snd added,
        vs_threshold_bps = unwrap_or (vd_threshold_bps d) (vs_threshold_bps base) \<rparr>)
    (remove_loop (vd_removed_indices d) (vs_pubkeys base, vs_stakes base))"

definition delta_is_empty :: "validator_set_delta \<Rightarrow> bool" where
  "delta_is_empty d \<longleftrightarrow> vd_added_pubkeys d = [] \<and> vd_removed_indices d = [] \<and> vd_threshold_bps d = None"

section \<open>Wire format\<close>

definition encode_u16 :: "nat \<Rightarrow> bytes" where
  "encode_u16 n = to_le_bytes (of_nat n :: u16)"

definition encode_added :: "bytes \<times> u64 \<Rightarrow> bytes" where
  "encode_added ps = (case ps of (pk, stake) \<Rightarrow> encode_u16 (length pk) @ pk @ to_le_bytes stake)"

definition encode_delta :: "validator_set_delta \<Rightarrow> bytes" where
  "encode_delta d =
    (if vd_threshold_bps d \<noteq> None then 1 else 0) #
    encode_u16 (length (vd_removed_indices d)) @ concat (map encode_u16 (vd_removed_indices d)) @
    encode_u16 (length (vd_added_pubkeys d)) @
    concat (map encode_added (zip (vd_added_pubkeys d) (vd_added_stakes d))) @
    (case vd_threshold_bps d of Some th \<Rightarrow> to_le_bytes th | None \<Rightarrow> [])"

definition estimated_wire_size :: "validator_set_delta \<Rightarrow> nat" where
  "estimated_wire_size d =
    1 + 2 + length (vd_removed_indices d) * 2 + 2 + sum_list (map (\<lambda>pk. 2 + length pk + 8) (vd_added_pubkeys d)) +
    (if vd_threshold_bps d \<noteq> None then 2 else 0)"

text \<open>The decoder reads at a position that only moves forward; the model hands on the bytes from there.  Reading past
  the end returns \<open>None\<close>.\<close>

definition read_bytes :: "nat \<Rightarrow> bytes \<Rightarrow> (bytes \<times> bytes) option" where
  "read_bytes n b = (if n \<le> length b then Some (take n b, drop n b) else None)"

definition read_u16 :: "bytes \<Rightarrow> (nat \<times> bytes) option" where
  "read_u16 b = map_option (\<lambda>(x, rest). (unat (from_le_bytes x :: u16), rest)) (read_bytes 2 b)"

fun read_removed :: "nat \<Rightarrow> bytes \<Rightarrow> (nat list \<times> bytes) option" where
  "read_removed 0 b = Some ([], b)"
| "read_removed (Suc n) b =
    Option.bind (read_u16 b) (\<lambda>(idx, b). map_option (\<lambda>(idxs, b). (idx # idxs, b)) (read_removed n b))"

fun read_added :: "nat \<Rightarrow> bytes \<Rightarrow> ((bytes \<times> u64) list \<times> bytes) option" where
  "read_added 0 b = Some ([], b)"
| "read_added (Suc n) b =
    Option.bind (read_u16 b) (\<lambda>(pk_len, b).
    Option.bind (read_bytes pk_len b) (\<lambda>(pk, b).
    Option.bind (read_bytes 8 b) (\<lambda>(stake, b).
    map_option (\<lambda>(added, b). ((pk, from_le_bytes stake) # added, b)) (read_added n b))))"

definition decode_delta :: "bytes \<Rightarrow> validator_set_delta option" where
  "decode_delta bytes =
    (case bytes of
       [] \<Rightarrow> None
     | flags # b \<Rightarrow>
         Option.bind (read_u16 b) (\<lambda>(removed_count, b).
         Option.bind (read_removed removed_count b) (\<lambda>(removed, b).
         Option.bind (read_u16 b) (\<lambda>(added_count, b).
         Option.bind (read_added added_count b) (\<lambda>(added, b).
         Option.bind (if flags AND 1 \<noteq> 0 then map_option (\<lambda>(x, _). Some (from_le_bytes x)) (read_bytes 2 b) else Some None)
           (\<lambda>threshold.
         Some \<lparr> vd_added_pubkeys = map fst added, vd_added_stakes = map snd added, vd_removed_indices = removed,
                vd_threshold_bps = threshold \<rparr>))))))"

section \<open>Wire format: lemmas\<close>

definition fits_u16 :: "nat \<Rightarrow> bool" where "fits_u16 n \<longleftrightarrow> n < 2 ^ 16"

text \<open>The deltas the wire format has room for.\<close>

definition encodable :: "validator_set_delta \<Rightarrow> bool" where
  "encodable d \<longleftrightarrow> length (vd_added_stakes d) = length (vd_added_pubkeys d) \<and> fits_u16 (length (vd_added_pubkeys d)) \<and>
    fits_u16 (length (vd_removed_indices d)) \<and> list_all fits_u16 (vd_removed_indices d) \<and>
    list_all (\<lambda>pk. fits_u16 (length pk)) (vd_added_pubkeys d)"

lemma read_bytes_append [simp]: "length x = n \<Longrightarrow> read_bytes n (x @ b) = Some (x, b)"
  by (auto simp: read_bytes_def)

lemma length_encode_u16 [simp]: "length (encode_u16 n) = 2"
  by (simp add: encode_u16_def)

lemma read_encode_u16 [simp]: "fits_u16 n \<Longrightarrow> read_u16 (encode_u16 n @ b) = Some (n, b)"
  by (simp add: read_u16_def) (simp add: encode_u16_def from_to_le_bytes fits_u16_def unat_of_nat take_bit_nat_eq_self)

lemma read_removed_encode [simp]:
  "list_all fits_u16 idxs \<Longrightarrow> read_removed (length idxs) (concat (map encode_u16 idxs) @ b) = Some (idxs, b)"
  by (induction idxs) simp_all

lemma read_added_encode [simp]:
  "list_all (\<lambda>x. fits_u16 (length (fst x))) added \<Longrightarrow>
    read_added (length added) (concat (map encode_added added) @ b) = Some (added, b)"
  by (induction added) (auto simp: encode_added_def from_to_le_bytes)

lemma decode_fields:
  assumes "fits_u16 (length added)" "fits_u16 (length removed)" "list_all fits_u16 removed"
    "list_all (\<lambda>x. fits_u16 (length (fst x))) added"
  shows "decode_delta ((if th \<noteq> None then 1 else 0) # encode_u16 (length removed) @ concat (map encode_u16 removed) @
      encode_u16 (length added) @ concat (map encode_added added) @ (case th of Some th \<Rightarrow> to_le_bytes th | None \<Rightarrow> []) @ rest) =
    Some \<lparr> vd_added_pubkeys = map fst added, vd_added_stakes = map snd added, vd_removed_indices = removed, vd_threshold_bps = th \<rparr>"
  using assms by (cases th) (simp_all add: decode_delta_def from_to_le_bytes)

lemma decode_encode:
  assumes "encodable d"
  shows "decode_delta (encode_delta d @ rest) = Some d"
proof -
  define added where "added = zip (vd_added_pubkeys d) (vd_added_stakes d)"
  from assms have d: "vd_added_pubkeys d = map fst added" "vd_added_stakes d = map snd added"
    by (simp_all add: encodable_def added_def)
  have "list_all (\<lambda>x. fits_u16 (length (fst x))) added" using assms d(1) by (auto simp: encodable_def list_all_iff)
  with assms have "decode_delta (encode_delta d @ rest) =
      Some \<lparr> vd_added_pubkeys = map fst added, vd_added_stakes = map snd added, vd_removed_indices = vd_removed_indices d,
        vd_threshold_bps = vd_threshold_bps d \<rparr>"
    using decode_fields [of added "vd_removed_indices d" "vd_threshold_bps d" rest]
    by (simp add: encode_delta_def encodable_def d zip_map_fst_snd)
  then show ?thesis using d by simp
qed

lemma length_encode: "length (vd_added_stakes d) = length (vd_added_pubkeys d) \<Longrightarrow> length (encode_delta d) = estimated_wire_size d"
proof -
  assume *: "length (vd_added_stakes d) = length (vd_added_pubkeys d)"
  have "length (concat (map encode_added (zip pks sts))) = sum_list (map (\<lambda>pk. 2 + length pk + 8) pks)"
    if "length sts = length pks" for pks :: "bytes list" and sts :: "u64 list"
    using that by (induction sts pks rule: list_induct2) (simp_all add: encode_added_def)
  moreover have "length (concat (map encode_u16 idxs)) = length idxs * 2" for idxs by (induction idxs) simp_all
  ultimately show ?thesis using * by (simp add: encode_delta_def estimated_wire_size_def split: option.splits)
qed

section \<open>Removing by index: lemmas\<close>

lemma swap_remove_spec:
  assumes "i < length xs"
  obtains ys where "swap_remove i xs = Some ys" "add_mset (xs ! i) (mset ys) = mset xs" "length ys = length xs - 1"
    "\<And>j. j < i \<Longrightarrow> ys ! j = xs ! j"
proof -
  let ?zs = "xs[i := last xs]"
  have ne: "xs \<noteq> []" using assms by auto
  have "mset ?zs = add_mset (last xs) (mset xs - {#xs ! i#})" using assms by (simp add: mset_update)
  moreover have "last ?zs = last xs" using assms ne by (simp add: last_list_update)
  then have "mset ?zs = add_mset (last xs) (mset (butlast ?zs))"
    using ne by (metis append_butlast_last_id length_0_conv length_list_update mset_append add_mset_add_single mset_single_iff_right)
  ultimately have "mset (butlast ?zs) = mset xs - {#xs ! i#}" by simp
  then have "add_mset (xs ! i) (mset (butlast ?zs)) = mset xs" using assms by simp
  with assms that [of "butlast ?zs"] show thesis by (simp add: swap_remove_def nth_butlast)
qed

lemma swap_remove_zip:
  assumes "length xs = length ys" "i < length xs" "swap_remove i xs = Some xs'" "swap_remove i ys = Some ys'"
  shows "swap_remove i (zip xs ys) = Some (zip xs' ys')"
proof -
  have "last (zip xs ys) = (last xs, last ys)" using assms(1,2) by (intro last_zip) auto
  then show ?thesis using assms
    by (auto simp: swap_remove_def zip_update [symmetric] butlast_conv_take take_zip)
qed

text \<open>Removing by descending indices takes out exactly the entries at these indices.\<close>

lemma remove_loop_spec:
  assumes "sorted_wrt (>) idxs" "list_all (\<lambda>i. i < length pks) idxs" "length sts = length pks"
  shows "\<exists>pks' sts'. remove_loop idxs (pks, sts) = Some (pks', sts') \<and> length sts' = length pks' \<and>
    mset (zip pks' sts') + mset (map ((!) (zip pks sts)) idxs) = mset (zip pks sts)"
  using assms
proof (induction idxs arbitrary: pks sts)
  case (Cons i idxs)
  then have i: "i < length pks" "i < length sts" "i < length (zip pks sts)" by simp_all
  obtain pks1 where p: "swap_remove i pks = Some pks1" "length pks1 = length pks - 1"
    using swap_remove_spec [OF i(1)] by metis
  obtain sts1 where s: "swap_remove i sts = Some sts1" "length sts1 = length sts - 1"
    using swap_remove_spec [OF i(2)] by metis
  have z: "swap_remove i (zip pks sts) = Some (zip pks1 sts1)"
    using swap_remove_zip [OF _ i(1) p(1) s(1)] Cons.prems by simp
  then have ms: "add_mset (zip pks sts ! i) (mset (zip pks1 sts1)) = mset (zip pks sts)"
    and nth: "\<And>j. j < i \<Longrightarrow> zip pks1 sts1 ! j = zip pks sts ! j"
    using swap_remove_spec [OF i(3)] by (metis option.inject)+
  have below: "list_all (\<lambda>j. j < i) idxs" using Cons.prems(1) by (simp add: list_all_iff)
  then have "list_all (\<lambda>j. j < length pks1) idxs" using i(1) p(2) by (auto simp: list_all_iff)
  with Cons.IH [of pks1 sts1] Cons.prems p(2) s(2) obtain pks' sts' where
    r: "remove_loop idxs (pks1, sts1) = Some (pks', sts')" "length sts' = length pks'"
       "mset (zip pks' sts') + mset (map ((!) (zip pks1 sts1)) idxs) = mset (zip pks1 sts1)" by auto
  have "map ((!) (zip pks1 sts1)) idxs = map ((!) (zip pks sts)) idxs" using below nth by (simp add: list_all_iff)
  with r(3) ms have "mset (zip pks' sts') + mset (map ((!) (zip pks sts)) (i # idxs)) = mset (zip pks sts)" by simp
  with r(1,2) p(1) s(1) i(1) show ?case by simp
qed simp

section \<open>Computing a delta: lemmas\<close>

definition positions :: "base_map \<Rightarrow> nat list" where
  "positions m = map (\<lambda>(_, idx, _). idx) m"

text \<open>The entries of the map are entries of the base set at their index.\<close>

definition located :: "(bytes \<times> u64) list \<Rightarrow> base_map \<Rightarrow> bool" where
  "located B m \<longleftrightarrow> distinct (map fst m) \<and> list_all (\<lambda>(pk, idx, stake). idx < length B \<and> B ! idx = (pk, stake)) m"

lemma update_new: "k \<notin> fst ` set m \<Longrightarrow> AList.update k v m = m @ [(k, v)]"
  by (induction m) auto

lemma build_base_map_spec:
  assumes "i + length pks \<le> length (vs_stakes base)" "distinct pks" "set pks \<inter> fst ` set m = {}"
  shows "build_base_map base pks i m = Some (m @ map (\<lambda>j. (pks ! j, i + j, vs_stakes base ! (i + j))) [0..<length pks])"
  using assms
proof (induction pks arbitrary: i m)
  case (Cons pk pks)
  have "build_base_map base pks (Suc i) (m @ [(pk, i, vs_stakes base ! i)]) =
    Some ((m @ [(pk, i, vs_stakes base ! i)]) @ map (\<lambda>j. (pks ! j, Suc i + j, vs_stakes base ! (Suc i + j))) [0..<length pks])"
    using Cons.prems by (intro Cons.IH) auto
  moreover have "AList.update pk (i, vs_stakes base ! i) m = m @ [(pk, i, vs_stakes base ! i)]"
    using Cons.prems by (intro update_new) auto
  ultimately show ?case
    using Cons.prems(1) by (simp add: index_def upt_conv_Cons map_Suc_upt [symmetric] comp_def del: upt_Suc map_Suc_upt)
qed simp

lemma base_map_spec:
  assumes "length (vs_stakes base) = length (vs_pubkeys base)" "distinct (vs_pubkeys base)"
  obtains m where "build_base_map base (vs_pubkeys base) 0 [] = Some m" "located (zip (vs_pubkeys base) (vs_stakes base)) m"
    "positions m = [0..<length (vs_pubkeys base)]"
proof -
  let ?m = "map (\<lambda>j. (vs_pubkeys base ! j, j, vs_stakes base ! j)) [0..<length (vs_pubkeys base)]"
  have "map fst ?m = vs_pubkeys base" by (simp add: comp_def map_nth)
  moreover have "positions ?m = [0..<length (vs_pubkeys base)]" by (simp add: positions_def comp_def)
  ultimately show thesis
    using that [of ?m] build_base_map_spec [of 0 "vs_pubkeys base" base "[]"] assms
    by (simp add: located_def list_all_iff del: map_map)
qed

lemma delete_position:
  assumes "distinct (map fst m)" "map_of m pk = Some (idx, st)"
  shows "mset (positions m) = add_mset idx (mset (positions (AList.delete pk m)))"
  using assms
proof (induction m)
  case (Cons x m)
  show ?case
  proof (cases "fst x = pk")
    case True
    with Cons.prems have "AList.delete pk m = m" by (intro delete_id) auto
    with True Cons.prems show ?thesis by (cases x) (simp add: positions_def)
  next
    case False
    with Cons show ?thesis by (cases x) (simp add: positions_def)
  qed
qed simp

lemma located_delete: "located B m \<Longrightarrow> located B (AList.delete pk m)"
  by (auto simp: located_def list_all_iff AList.delete_eq intro: distinct_map_filter)

lemma located_found:
  "located B m \<Longrightarrow> map_of m pk = Some (idx, st) \<Longrightarrow> idx < length B \<and> B ! idx = (pk, st)"
  by (auto simp: located_def list_all_iff dest!: map_of_SomeD)

lemma subset_add_mset: "M \<subseteq># N \<Longrightarrow> M \<subseteq># add_mset x N"
  by (metis add_mset_add_single mset_subset_eq_add_left subset_mset.order_trans)

lemma distinct_sub_mset:
  assumes "mset xs \<subseteq># mset ys" "distinct ys"
  shows "distinct xs"
proof -
  obtain zs where "mset zs = mset ys - mset xs" using ex_mset by blast
  with assms(1) have "mset (xs @ zs) = mset ys" by simp
  then show ?thesis using assms(2) mset_eq_imp_distinct_iff by (metis distinct_append)
qed

text \<open>The loop accounts for every entry: the new entries, the base entries given up and those not yet found are the
  base entries and the added ones.\<close>

lemma diff_loop_spec:
  assumes "i + length pks \<le> length (vs_stakes new)" "located B m" "length sts = length added"
  shows "\<exists>m' added' sts' removed'. diff_loop new pks i (m, added, sts, removed) = Some (m', added', sts', removed') \<and>
    length sts' = length added' \<and> mset (removed' @ positions m') \<subseteq># mset (removed @ positions m) \<and>
    mset (zip pks (drop i (vs_stakes new))) + mset (map ((!) B) (removed' @ positions m')) + mset (zip added sts) =
    mset (map ((!) B) (removed @ positions m)) + mset (zip added' sts')"
  using assms
proof (induction pks arbitrary: i m added sts removed)
  case (Cons pk pks)
  let ?st = "vs_stakes new ! i"
  have i: "i < length (vs_stakes new)" using Cons.prems(1) by simp
  then have idx: "index (vs_stakes new) i = Some ?st" and step: "drop i (vs_stakes new) = ?st # drop (Suc i) (vs_stakes new)"
    by (simp_all add: index_def Cons_nth_drop_Suc)
  show ?case
  proof (cases "map_of m pk")
    case None
    with Cons.IH [of "Suc i" m "sts @ [?st]" "added @ [pk]" removed] Cons.prems idx step show ?thesis by auto
  next
    case (Some ip)
    then obtain p old where f: "map_of m pk = Some (p, old)" by (cases ip) auto
    have B: "B ! p = (pk, old)" using located_found [OF Cons.prems(2) f] by simp
    have del: "mset (positions m) = add_mset p (mset (positions (AList.delete pk m)))"
      using Cons.prems(2) f by (intro delete_position) (auto simp: located_def)
    then have del_img: "mset (map ((!) B) (positions m)) = add_mset (pk, old) (mset (map ((!) B) (positions (AList.delete pk m))))"
      by (metis B image_mset_add_mset mset_map)
    show ?thesis
    proof (cases "old = ?st")
      case True
      have "\<exists>m' added' sts' removed'. diff_loop new pks (Suc i) (AList.delete pk m, added, sts, removed) =
          Some (m', added', sts', removed') \<and> length sts' = length added' \<and>
        mset (removed' @ positions m') \<subseteq># mset (removed @ positions (AList.delete pk m)) \<and>
        mset (zip pks (drop (Suc i) (vs_stakes new))) + mset (map ((!) B) (removed' @ positions m')) + mset (zip added sts) =
        mset (map ((!) B) (removed @ positions (AList.delete pk m))) + mset (zip added' sts')"
        using Cons.prems by (intro Cons.IH located_delete) auto
      with True f idx step del del_img show ?thesis by (auto intro: subset_add_mset)
    next
      case False
      have "\<exists>m' added' sts' removed'. diff_loop new pks (Suc i) (AList.delete pk m, added @ [pk], sts @ [?st], removed @ [p]) =
          Some (m', added', sts', removed') \<and> length sts' = length added' \<and>
        mset (removed' @ positions m') \<subseteq># mset ((removed @ [p]) @ positions (AList.delete pk m)) \<and>
        mset (zip pks (drop (Suc i) (vs_stakes new))) + mset (map ((!) B) (removed' @ positions m')) +
          mset (zip (added @ [pk]) (sts @ [?st])) =
        mset (map ((!) B) ((removed @ [p]) @ positions (AList.delete pk m))) + mset (zip added' sts')"
        using Cons.prems by (intro Cons.IH located_delete) auto
      with False f idx step del del_img B Cons.prems(3) show ?thesis by (auto simp: ac_simps)
    qed
  qed
qed simp

lemma diff_loop_added:
  "diff_loop new pks i (m, added, sts, removed) = Some (m', added', sts', removed') \<Longrightarrow>
    set added' \<subseteq> set added \<union> set pks \<and> length added' \<le> length added + length pks"
proof (induction pks arbitrary: i m added sts removed)
  case (Cons pk pks)
  from Cons.prems obtain m1 added1 sts1 removed1 where
    "diff_loop new pks (Suc i) (m1, added1, sts1, removed1) = Some (m', added', sts', removed')"
    "set added1 \<subseteq> set added \<union> {pk}" "length added1 \<le> Suc (length added)"
    by (fastforce split: option.splits if_splits simp: bind_eq_Some_conv)
  with Cons.IH show ?case by fastforce
qed simp

lemma sorted_desc: "distinct xs \<Longrightarrow> sorted_wrt (>) (rev (sort xs))"
  by (simp add: sorted_wrt_rev strict_sorted_iff)

text \<open>A base set without repeated keys, and sets with one stake for each key.\<close>

definition set_ok :: "l0_validator_set \<Rightarrow> bool" where
  "set_ok v \<longleftrightarrow> length (vs_stakes v) = length (vs_pubkeys v)"

definition entries :: "l0_validator_set \<Rightarrow> (bytes \<times> u64) multiset" where
  "entries v = mset (zip (vs_pubkeys v) (vs_stakes v))"

lemma compute_spec:
  assumes "set_ok base" "distinct (vs_pubkeys base)" "set_ok new"
  obtains d where "compute base new = Some d" "length (vd_added_stakes d) = length (vd_added_pubkeys d)"
    "sorted_wrt (>) (vd_removed_indices d)" "list_all (\<lambda>i. i < length (vs_pubkeys base)) (vd_removed_indices d)"
    "unwrap_or (vd_threshold_bps d) (vs_threshold_bps base) = vs_threshold_bps new"
    "entries new + mset (map ((!) (zip (vs_pubkeys base) (vs_stakes base))) (vd_removed_indices d)) =
     entries base + mset (zip (vd_added_pubkeys d) (vd_added_stakes d))"
    "set (vd_added_pubkeys d) \<subseteq> set (vs_pubkeys new)" "length (vd_added_pubkeys d) \<le> length (vs_pubkeys new)"
proof -
  let ?B = "zip (vs_pubkeys base) (vs_stakes base)" and ?n = "length (vs_pubkeys base)"
  obtain m where m: "build_base_map base (vs_pubkeys base) 0 [] = Some m" "located ?B m" "positions m = [0..<?n]"
    using base_map_spec [of base] assms(1,2) by (auto simp: set_ok_def)
  obtain m' pks sts removed where
    loop: "diff_loop new (vs_pubkeys new) 0 (m, [], [], []) = Some (m', pks, sts, removed)" "length sts = length pks"
      "mset (removed @ positions m') \<subseteq># mset [0..<?n]"
      "entries new + mset (map ((!) ?B) (removed @ positions m')) = mset (map ((!) ?B) [0..<?n]) + mset (zip pks sts)"
    using diff_loop_spec [of 0 "vs_pubkeys new" new ?B m "[]" "[]" "[]"] m(2,3) assms(3) by (auto simp: set_ok_def entries_def)
  let ?d = "\<lparr> vd_added_pubkeys = pks, vd_added_stakes = sts, vd_removed_indices = rev (sort (removed @ positions m')),
     vd_threshold_bps = (if vs_threshold_bps base \<noteq> vs_threshold_bps new then Some (vs_threshold_bps new) else None) \<rparr>"
  have dist: "distinct (removed @ positions m')"
    using loop(3) by (rule distinct_sub_mset) simp
  have bound: "\<forall>i \<in> set (removed @ positions m'). i < ?n" using mset_subset_eqD [OF loop(3)] by fastforce
  have "map ((!) ?B) [0..<?n] = ?B" using assms(1) map_nth [of ?B] by (simp add: set_ok_def)
  with loop(4) have "entries new + mset (map ((!) ?B) (removed @ positions m')) = entries base + mset (zip pks sts)"
    by (simp add: entries_def)
  then have ent: "entries new + mset (map ((!) ?B) (rev (sort (removed @ positions m')))) = entries base + mset (zip pks sts)"
    by (simp only: mset_map mset_rev mset_sort)
  have "compute base new = Some ?d" using m(1) loop(1) by (simp add: compute_def positions_def)
  then show thesis
    using that [of ?d] loop(2) sorted_desc [OF dist] bound ent diff_loop_added [OF loop(1)] by (simp add: list_all_iff del: mset_map map_append)
qed

lemma apply_spec:
  assumes "set_ok base" "length (vd_added_stakes d) = length (vd_added_pubkeys d)" "sorted_wrt (>) (vd_removed_indices d)"
    "list_all (\<lambda>i. i < length (vs_pubkeys base)) (vd_removed_indices d)"
  obtains v where "apply_delta d base = Some v" "set_ok v"
    "vs_threshold_bps v = unwrap_or (vd_threshold_bps d) (vs_threshold_bps base)"
    "entries v + mset (map ((!) (zip (vs_pubkeys base) (vs_stakes base))) (vd_removed_indices d)) =
     entries base + mset (zip (vd_added_pubkeys d) (vd_added_stakes d))"
proof -
  obtain pks sts where r: "remove_loop (vd_removed_indices d) (vs_pubkeys base, vs_stakes base) = Some (pks, sts)"
    "length sts = length pks"
    "mset (zip pks sts) + mset (map ((!) (zip (vs_pubkeys base) (vs_stakes base))) (vd_removed_indices d)) = entries base"
    using remove_loop_spec [OF assms(3,4), of "vs_stakes base"] assms(1) by (auto simp: set_ok_def entries_def)
  let ?v = "\<lparr> vs_pubkeys = pks @ vd_added_pubkeys d, vs_stakes = sts @ vd_added_stakes d,
    vs_threshold_bps = unwrap_or (vd_threshold_bps d) (vs_threshold_bps base) \<rparr>"
  have "apply_delta d base = Some ?v" using r(1) assms(2) by (simp add: apply_delta_def Let_def)
  moreover have "entries ?v = mset (zip pks sts) + mset (zip (vd_added_pubkeys d) (vd_added_stakes d))"
    using r(2) by (simp add: entries_def)
  ultimately show thesis using that [of ?v] r(2,3) assms(2) by (simp add: set_ok_def ac_simps del: mset_map)
qed

lemma length_descending: "sorted_wrt (>) xs \<Longrightarrow> list_all (\<lambda>i. i < n) xs \<Longrightarrow> length xs \<le> n"
proof -
  assume *: "sorted_wrt (>) xs" "list_all (\<lambda>i. i < n) xs"
  then have "distinct xs" by (induction xs) auto
  moreover have "set xs \<subseteq> {..<n}" using *(2) by (auto simp: list_all_iff)
  ultimately show ?thesis by (metis card_lessThan card_mono distinct_card finite_lessThan)
qed

section \<open>Properties\<close>

definition sample_set :: "u8 \<Rightarrow> u64 \<Rightarrow> l0_validator_set" where
  "sample_set b stake =
    \<lparr> vs_pubkeys = [[1], [b], [3]], vs_stakes = [100, stake, 300], vs_threshold_bps = 6666 \<rparr>"


text \<open>The wire format of a delta is read back unchanged whatever follows it, and takes exactly the number of bytes
  the encoder reserves, if counts, indices and key lengths fit into 16 bits.\<close>

theorem delta_wire_roundtrip:
  assumes "encodable d"
  shows "decode_delta (encode_delta d @ rest) = Some d \<and> length (encode_delta d) = estimated_wire_size d"
  using decode_encode [OF assms] length_encode [of d] assms by (simp add: encodable_def)

text \<open>The rebuilt set does not have the order of the new one: of three validators the second is replaced, and
  \<open>apply\<close> moves the third before the replacement.\<close>

theorem delta_loses_order:
  "Option.bind (compute (sample_set 2 200) (sample_set 4 400)) (\<lambda>d. apply_delta d (sample_set 2 200)) =
   Some \<lparr> vs_pubkeys = [[1], [3], [4]], vs_stakes = [100, 300, 400], vs_threshold_bps = 6666 \<rparr>"
  by (simp add: sample_set_def compute_def apply_delta_def index_def swap_remove_def Let_def)

text \<open>A position of 65536 or more is sent as another one: the decoded delta of a set that lost its validator
  number 65536 removes validator number zero.\<close>

theorem delta_index_truncated:
  "decode_delta (encode_delta \<lparr> vd_added_pubkeys = [], vd_added_stakes = [], vd_removed_indices = [65536], vd_threshold_bps = None \<rparr>) =
   Some \<lparr> vd_added_pubkeys = [], vd_added_stakes = [], vd_removed_indices = [0], vd_threshold_bps = None \<rparr>"
  by (simp add: decode_delta_def encode_delta_def encode_u16_def read_u16_def from_to_le_bytes read_bytes_def)


theorem delta_wire_roundtrip_witness:
  "decode_delta (encode_delta \<lparr> vd_added_pubkeys = [[4]], vd_added_stakes = [400], vd_removed_indices = [1],
     vd_threshold_bps = Some 7500 \<rparr> @ [1, 2]) =
   Some \<lparr> vd_added_pubkeys = [[4]], vd_added_stakes = [400], vd_removed_indices = [1], vd_threshold_bps = Some 7500 \<rparr>"
  using delta_wire_roundtrip [of "\<lparr> vd_added_pubkeys = [[4]], vd_added_stakes = [400], vd_removed_indices = [1],
     vd_threshold_bps = Some 7500 \<rparr>" "[1, 2]"] by (simp add: encodable_def fits_u16_def)

end
