(* ===== verification/Spec2Isabelle.thy ===== *)
theory Spec2Isabelle
  imports QN4 QN8 QN12 DAG_Search Batch_Aggregation Finality State_Chain Wallet Relay_Bond Validator_Delta
begin

text \<open>
  \<^bold>\<open>Quantos: a verification library of the node and the wallet core.\<close>

  Quantos is a post-quantum layer-one blockchain.  Wallets build transactions and sign them with ML-DSA-65
  (\<open>quantos-wallet-core\<close>); the node (\<open>L1/src\<close>) takes them over RPC, puts them into vertices of a directed acyclic
  graph (\<open>dag\<close>), lets committees drawn by stake vote (\<open>consensus/committee.rs\<close>), executes vertices against accounts
  (\<open>state\<close>), commits to the accounts by a sparse Merkle root, and makes checkpoints final by signatures of more than
  two thirds of the stake (\<open>consensus/finality.rs\<close>).  Token standards (\<open>standards\<close>) live above the accounts; the
  interoperability layer (\<open>l0\<close>) carries finality to other chains.

  \<^bold>\<open>Conventions.\<close>  Fixed-width integers are words; \<open>checked\<close> and \<open>saturating\<close> operations are definitions of
  \<open>Prelude\<close>, plain operators wrap as in the release build.  A method on \<open>&mut self\<close> returns its result together with
  the state it leaves, on error paths too.  A panic is \<open>None\<close>, or the pseudo-error \<open>Panicked\<close> where the surrounding code
  would go on.  Locks are taken and released within one call, so calls are modelled one after the other.  Hash functions,
  ML-DSA-65, the virtual machines, bincode, hex and base32, RocksDB and the clock are parameters; database failures are
  arbitrary.  Where a theorem needs a law of such a parameter it is a named hypothesis and the witness has an instance.
  Collisions of the hash function are never assumed away: statements that need it say \<open>unless two hashed strings
  collide\<close>, for the strings at hand.

  \<^bold>\<open>Theories.\<close>

  \<^item> \<open>Prelude\<close>, \<open>Bytes\<close>: checked arithmetic, results with early return, sums over maps, little- and big-endian byte
    encodings, and the interfaces \<open>ledger\<close> (balances beside a recorded total) and \<open>op_system\<close> (operations that keep an
    invariant), which the components interpret on their own operations.
  \<^item> \<open>Token_Base\<close>, \<open>QN4\<close>, \<open>QN8\<close>, \<open>QN12\<close> (\<open>standards/\<close>): every operation of the fungible, non-fungible and multi-token
    standard.  Supply and ownership invariants over all call sequences, no theft, refinement of an abstract ledger move, and
    the calls that break the invariants (self transfers, refused calls that have already written).
  \<^item> \<open>Account\<close> (\<open>types/account.rs\<close>): accounts, validators, slashing, validator sets.
  \<^item> \<open>Transaction\<close> (\<open>types/transaction.rs\<close>, \<open>crypto/domains.rs\<close>): signing data and domains; the signed bytes determine the
    transaction, and different domains never coincide.
  \<^item> \<open>Committee\<close> (\<open>consensus/committee.rs\<close>): stake-weighted selection by rejection sampling, rotation, votes, the registry.
    Quorums intersect outside every third of the stake; the sampling loop is a \<open>partial_function\<close> that returns as soon as the
    hash chain has an accepted draw.
  \<^item> \<open>DAG\<close>, \<open>DAG_Search\<close> (\<open>types/vertex.rs\<close>, \<open>dag/graph.rs\<close>): insertion, tips, eviction, traversal, finalization;
    invariants under arbitrary database failures, exactness of the traversals, acyclicity.
  \<^item> \<open>Merkle\<close> (\<open>crypto/hash.rs\<close>), \<open>Signatures\<close> (\<open>crypto/ml_dsa.rs\<close> and its cache), \<open>Aggregation\<close> and
    \<open>Batch_Aggregation\<close> (\<open>crypto/signature_aggregation.rs\<close>, \<open>crypto/aggregation.rs\<close>): proofs, the verification cache,
    aggregates, bitmaps, the compressed batch.
  \<^item> \<open>Finality\<close> (\<open>types/checkpoint.rs\<close>, \<open>consensus/finality.rs\<close>): creation, signing, finalization and proofs of
    checkpoints; a final checkpoint is certified, two final ones are accountable, signatures of the threshold finalize.
  \<^item> \<open>Revert_Reason\<close>, \<open>Sparse_Merkle\<close>, \<open>State_Exec\<close> (\<open>state/manager.rs\<close>): decoders of contract data, the sparse Merkle
    root with depth 256, and the state manager with both ways of execution (direct, and against an overlay in sequence or in
    parallel groups).  \<open>State_Props\<close> and \<open>State_Blocks\<close> hold the step lemmas of the overlay and of the merging of groups,
    \<open>State_Root\<close> the invariant that ties cache, index and database together, \<open>State_Chain\<close> the theorems over sequences of
    blocks and over arbitrary operations.
  \<^item> \<open>Wallet\<close> (\<open>quantos-wallet-core/src/lib.rs\<close>, address functions of \<open>types/mod.rs\<close>, the decoding part of
    \<open>rpc/server.rs\<close>): all builders of signed transactions; what they build is accepted by the node's decoder and validator.
  \<^item> \<open>Relay_Bond\<close> (\<open>l0/relay_bond.rs\<close>): bonds of relays are conserved and paid out only after the delay.
  \<^item> \<open>Validator_Delta\<close> (\<open>l0/validator_set_delta.rs\<close>): computing, sending and applying a difference of validator sets.

  \<^bold>\<open>Bounds and fuel.\<close>  Fuel occurs once: trimming white space in \<open>Revert_Reason\<close> takes the
  length of the text, which every removal shortens.  Other loops are structural recursions, functions with a termination
  measure, or \<open>partial_function (option)\<close> where the source loop has no bound of its own; for the latter returning is
  proved.  The limits of the source (vertices in memory, traversal, tips, votes, tokens per owner, transaction size) are
  definitions with the values of the source.  The sparse tree is unfolded to its depth of 256 by recursion over the level.

  \<^bold>\<open>Not modelled.\<close>  Input and output: the database layer, the network, RPC and HTTP servers, the command line.  Code
  that only wraps libraries: the virtual machines, key generation, other signature schemes, zero-knowledge proofs.  The
  asynchronous runtime: the consensus engine that schedules the modelled parts, view changes, pipelining, cross-shard
  protocols; the model has no message passing, and its theorems are about one node.  Floating-point code: load metrics,
  admission weights, token economics, committee sizing estimates, compression ratios.  Parallel execution is modelled by its
  groups and their merge, not by threads: interleavings inside \<open>parallel\<close> and \<open>state/stm.rs\<close> are not covered.  Slashing
  records, sidechains, state rent, snapshots and resharding are not covered.
\<close>

end
